(* ===== verification/Lwip_Prelude.thy ===== *)
theory Lwip_Prelude
  imports Main "HOL-Library.Word" "HOL-Library.Sublist"
begin

text \<open>
  Shared vocabulary of the development.

  \<^item> machine integers: \<open>u8\<close>, \<open>u16\<close>, \<open>u32\<close> and \<open>usize\<close> are the C types
    \<open>u8_t\<close>, \<open>u16_t\<close>, \<open>u32_t\<close> and \<open>size_t\<close> of \<open>lwip/arch.h\<close> on x86\_64;
  \<^item> outcomes: a call of the C code returns a value (\<open>Ret\<close>), stops in a
    \<open>LWIP_ASSERT\<close> or in an access outside an object (\<open>Fault\<close>), or does not return at
    all (\<open>None\<close> of the option around it);
  \<^item> the error codes \<open>err_t\<close> of \<open>lwip/err.h\<close>;
  \<^item> generic lemmas on words and lists that the component theories share.
\<close>

unbundle bit_operations_syntax

section \<open>Machine integers\<close>

type_synonym u8 = "8 word"
type_synonym u16 = "16 word"
type_synonym u32 = "32 word"
type_synonym usize = "64 word"

section \<open>Outcomes\<close>

text \<open>
  \<open>Assertion\<close> is a failed \<open>LWIP_ASSERT\<close> (the port's \<open>LWIP_PLATFORM_ASSERT\<close> prints and
  panics), \<open>Bad_pointer\<close> a dereference of \<open>NULL\<close> or of a freed object,
  \<open>Out_of_bounds\<close> an access outside the memory of an object, \<open>Overflow\<close> a signed overflow.
\<close>

datatype fault = Assertion | Bad_pointer | Out_of_bounds | Overflow

datatype 'a outcome = Ret 'a | Fault fault

type_synonym 'a res = "'a outcome option"

definition ret :: "'a \<Rightarrow> 'a res" where
  "ret x = Some (Ret x)"

definition fault :: "fault \<Rightarrow> 'a res" where
  "fault e = Some (Fault e)"

definition bindR :: "'a res \<Rightarrow> ('a \<Rightarrow> 'b res) \<Rightarrow> 'b res" where
  "bindR m f = Option.bind m (\<lambda>r. case r of Ret x \<Rightarrow> f x | Fault e \<Rightarrow> Some (Fault e))"

definition lwip_assert :: "bool \<Rightarrow> unit res" where
  "lwip_assert b = (if b then ret () else fault Assertion)"

lemma bindR_simps [simp]:
  "bindR (ret x) f = f x"
  "bindR (fault e) f = fault e"
  "bindR None f = None"
  by (simp_all add: bindR_def ret_def fault_def)

lemma ret_inject [simp]: "ret x = ret y \<longleftrightarrow> x = y"
  by (simp add: ret_def)

lemma ret_neq_fault [simp]: "ret x \<noteq> fault e" "fault e \<noteq> ret x"
  by (simp_all add: ret_def fault_def)

lemma ret_neq_None [simp]: "ret x \<noteq> None" "None \<noteq> ret x" "fault e \<noteq> None" "None \<noteq> fault e"
  by (simp_all add: ret_def fault_def)

lemma fault_inject [simp]: "(fault e :: 'a res) = fault e' \<longleftrightarrow> e = e'"
  by (simp add: fault_def)

lemma lwip_assert_simps [simp]:
  "b \<Longrightarrow> lwip_assert b = ret ()"
  "\<not> b \<Longrightarrow> lwip_assert b = fault Assertion"
  by (simp_all add: lwip_assert_def)

lemma bindR_assoc: "bindR (bindR m f) g = bindR m (\<lambda>x. bindR (f x) g)"
  by (cases m) (auto simp: bindR_def ret_def fault_def split: outcome.splits)

lemma bindR_eq_ret:
  "bindR m f = ret y \<longleftrightarrow> (\<exists>x. m = ret x \<and> f x = ret y)"
  by (cases m) (auto simp: bindR_def ret_def split: outcome.splits)

lemma bindR_mono [partial_function_mono]:
  assumes "mono_option B" and "\<And>y. mono_option (\<lambda>f. C y f)"
  shows "mono_option (\<lambda>f. bindR (B f) (\<lambda>y. C y f))"
  unfolding bindR_def
proof (rule bind_mono [OF assms(1)])
  fix r :: "'c outcome"
  show "mono_option (\<lambda>f. case r of Ret x \<Rightarrow> C x f | Fault e \<Rightarrow> Some (Fault e))"
    by (cases r) (simp_all add: assms(2) option.const_mono)
qed

section \<open>Error codes\<close>

text \<open>\<open>err_enum_t\<close> of \<open>lwip/err.h\<close>.\<close>

datatype err_t = ERR_OK | ERR_MEM | ERR_BUF | ERR_TIMEOUT | ERR_RTE | ERR_INPROGRESS | ERR_VAL
  | ERR_WOULDBLOCK | ERR_USE | ERR_ALREADY | ERR_ISCONN | ERR_CONN | ERR_IF | ERR_ABRT | ERR_RST
  | ERR_CLSD | ERR_ARG

section \<open>Words and lists\<close>

lemma unat_u8_less [simp]: "unat (x :: u8) < 256"
  using unsigned_less [of x, where ?'a = nat] by simp

lemma unat_u16_less [simp]: "unat (x :: u16) < 65536"
  using unsigned_less [of x, where ?'a = nat] by simp

lemma unat_u32_less [simp]: "unat (x :: u32) < 4294967296"
  using unsigned_less [of x, where ?'a = nat] by simp

lemma unat_ucast_up [simp]:
  "unat (ucast (x :: u8) :: u16) = unat x" "unat (ucast (x :: u8) :: u32) = unat x"
  "unat (ucast (y :: u16) :: u32) = unat y" "unat (ucast (y :: u16) :: usize) = unat y"
  "unat (ucast (z :: u32) :: usize) = unat z"
  using unat_u8_less [of x] unat_u16_less [of y] unat_u32_less [of z]
  by (simp_all add: unsigned_ucast_eq unsigned_take_bit_eq take_bit_nat_eq_self_iff
      del: unat_u8_less unat_u16_less unat_u32_less)

text \<open>The index of the first element with a property.\<close>

fun index_of :: "('a \<Rightarrow> bool) \<Rightarrow> 'a list \<Rightarrow> nat option" where
  "index_of P [] = None"
| "index_of P (x # xs) = (if P x then Some 0 else map_option Suc (index_of P xs))"

lemma index_of_None: "index_of P xs = None \<longleftrightarrow> (\<forall>x \<in> set xs. \<not> P x)"
  by (induction xs) auto

lemma index_of_Some:
  "index_of P xs = Some i \<longleftrightarrow> i < length xs \<and> P (xs ! i) \<and> (\<forall>j < i. \<not> P (xs ! j))"
proof (induction xs arbitrary: i)
  case (Cons x xs)
  show ?case by (cases i) (auto simp: Cons.IH All_less_Suc2)
qed simp

lemma index_of_cong: "(\<And>x. x \<in> set xs \<Longrightarrow> P x = Q x) \<Longrightarrow> index_of P xs = index_of Q xs"
  by (induction xs) auto

end
