(* ===== verification/Lwip_Def.thy ===== *)
theory Lwip_Def
  imports Lwip_Prelude
begin

text \<open>
  The helper functions of \<open>core/def.c\<close>: byte order conversion (\<open>lwip_htons\<close>,
  \<open>lwip_htonl\<close>), the non-standard string functions (\<open>lwip_strnstr\<close>, \<open>lwip_strnistr\<close>,
  \<open>lwip_stricmp\<close>, \<open>lwip_strnicmp\<close>), \<open>lwip_itoa\<close> and \<open>lwip_memcmp_consttime\<close>.

  A C string is the list of the bytes from the pointer on; a byte 0 in the list, or the end
  of the list, is its terminator (\<open>cstring\<close>). A pointer into a string that a function
  returns is the index into it, \<open>NULL\<close> is \<open>None\<close>.
\<close>

section \<open>Byte order\<close>

definition lwip_htons :: "u16 \<Rightarrow> u16" where
  "lwip_htons n = push_bit 8 (n AND 0x00ff) OR drop_bit 8 (n AND 0xff00)"

definition lwip_htonl :: "u32 \<Rightarrow> u32" where
  "lwip_htonl n = push_bit 24 (n AND 0x000000ff) OR push_bit 8 (n AND 0x0000ff00) OR
     drop_bit 8 (n AND 0x00ff0000) OR drop_bit 24 (n AND 0xff000000)"

section \<open>C strings\<close>

definition cstring :: "u8 list \<Rightarrow> u8 list" where
  "cstring s = takeWhile (\<lambda>c. c \<noteq> 0) s"

definition chd :: "u8 list \<Rightarrow> u8" where
  "chd s = (case s of [] \<Rightarrow> 0 | c # _ \<Rightarrow> c)"

definition strlen :: "u8 list \<Rightarrow> nat" where
  "strlen s = length (cstring s)"

text \<open>\<open>strncmp (s, t, n) == 0\<close> of the C library.\<close>

fun strncmp_eq :: "u8 list \<Rightarrow> u8 list \<Rightarrow> nat \<Rightarrow> bool" where
  "strncmp_eq s t 0 = True"
| "strncmp_eq s t (Suc n) = (chd s = chd t \<and> (chd s = 0 \<or> strncmp_eq (tl s) (tl t) n))"

fun strnstr_loop :: "u8 list \<Rightarrow> u8 list \<Rightarrow> nat \<Rightarrow> nat \<Rightarrow> nat option" where
  "strnstr_loop [] token n i = None"
| "strnstr_loop (c # p) token n i =
     (if c \<noteq> 0 \<and> i + strlen token \<le> n then
        if c = chd token \<and> strncmp_eq (c # p) token (strlen token) then Some i
        else strnstr_loop p token n (Suc i)
      else None)"

definition lwip_strnstr :: "u8 list \<Rightarrow> u8 list \<Rightarrow> nat \<Rightarrow> nat option" where
  "lwip_strnstr buffer token n =
     (if strlen token = 0 then Some 0 else strnstr_loop buffer token n 0)"

text \<open>
  The test both case-insensitive comparisons make on a pair of characters:
  \<open>True\<close> when the loop goes on, \<open>False\<close> when it returns 1.
\<close>

definition same_letter :: "u8 \<Rightarrow> u8 \<Rightarrow> bool" where
  "same_letter c1 c2 =
     (if c1 \<noteq> c2 then
        let c1_upc = c1 OR 0x20 in
        if c1_upc \<ge> 97 \<and> c1_upc \<le> 122 then c1_upc = (c2 OR 0x20) else False
      else True)"

fun lwip_stricmp :: "u8 list \<Rightarrow> u8 list \<Rightarrow> int" where
  "lwip_stricmp [] str2 = (if same_letter 0 (chd str2) then 0 else 1)"
| "lwip_stricmp (c1 # str1) str2 =
     (if same_letter c1 (chd str2) then (if c1 \<noteq> 0 then lwip_stricmp str1 (tl str2) else 0)
      else 1)"

text \<open>\<open>len\<close> is decremented after the first comparison: \<open>len = 0\<close> wraps around.\<close>

fun lwip_strnicmp :: "u8 list \<Rightarrow> u8 list \<Rightarrow> usize \<Rightarrow> int" where
  "lwip_strnicmp [] str2 len = (if same_letter 0 (chd str2) then 0 else 1)"
| "lwip_strnicmp (c1 # str1) str2 len =
     (if same_letter c1 (chd str2) then
        (if len - 1 \<noteq> 0 \<and> c1 \<noteq> 0 then lwip_strnicmp str1 (tl str2) (len - 1) else 0)
      else 1)"

fun strnistr_loop :: "u8 list \<Rightarrow> u8 list \<Rightarrow> nat \<Rightarrow> nat \<Rightarrow> nat option" where
  "strnistr_loop [] token n i = None"
| "strnistr_loop (c # p) token n i =
     (if c \<noteq> 0 \<and> i + strlen token \<le> n then
        if lwip_strnicmp (c # p) token (of_nat (strlen token)) = 0 then Some i
        else strnistr_loop p token n (Suc i)
      else None)"

definition lwip_strnistr :: "u8 list \<Rightarrow> u8 list \<Rightarrow> nat \<Rightarrow> nat option" where
  "lwip_strnistr buffer token n =
     (if strlen token = 0 then Some 0 else strnistr_loop buffer token n 0)"

section \<open>\<open>lwip_itoa\<close> and \<open>lwip_memcmp_consttime\<close>\<close>

definition store :: "u8 list \<Rightarrow> nat \<Rightarrow> u8 \<Rightarrow> u8 list res" where
  "store buf i v = (if i < length buf then ret (buf[i := v]) else fault Out_of_bounds)"

text \<open>The loop that writes the digits backwards; it returns the buffer, \<open>tmp\<close> and \<open>n\<close>.\<close>

function itoa_loop :: "u8 list \<Rightarrow> nat \<Rightarrow> nat \<Rightarrow> nat \<Rightarrow> (u8 list \<times> nat \<times> nat) res" where
  "itoa_loop buf tmp res n =
     (if n \<noteq> 0 \<and> tmp > res then
        bindR (store buf (tmp - 1) (48 + of_nat (n mod 10)))
          (\<lambda>buf'. itoa_loop buf' (tmp - 1) res (n div 10))
      else ret (buf, tmp, n))"
  by pat_completeness auto
termination
  by (relation "measure (\<lambda>(buf, tmp, res, n). tmp)") auto

declare itoa_loop.simps [simp del]

definition memmove_in :: "u8 list \<Rightarrow> nat \<Rightarrow> nat \<Rightarrow> nat \<Rightarrow> u8 list res" where
  "memmove_in buf dst src k =
     (if dst + k \<le> length buf \<and> src + k \<le> length buf
      then ret (take dst buf @ take k (drop src buf) @ drop (dst + k) buf)
      else fault Out_of_bounds)"

definition lwip_itoa :: "u8 list \<Rightarrow> nat \<Rightarrow> int \<Rightarrow> u8 list res" where
  "lwip_itoa result bufsize number =
     (if number = - (2 ^ 31) then fault Overflow
      else let n = nat \<bar>number\<bar> in
      if bufsize < 2 then (if bufsize = 1 then store result 0 0 else ret result)
      else
        bindR (if number < 0 then store result 0 45 else ret result) (\<lambda>buf.
        let res = (if number < 0 then 1 else 0) in
        bindR (store buf (bufsize - 1) 0) (\<lambda>buf.
        bindR (itoa_loop buf (bufsize - 1) res n) (\<lambda>(buf, tmp, n).
        if n \<noteq> 0 then store buf 0 0
        else if buf ! tmp = 0 then bindR (store buf res 48) (\<lambda>buf. store buf (res + 1) 0)
        else memmove_in buf res tmp (bufsize - tmp)))))"

fun memcmp_consttime_loop :: "u8 list \<Rightarrow> u8 list \<Rightarrow> nat \<Rightarrow> u8 \<Rightarrow> u8 res" where
  "memcmp_consttime_loop a1 a2 0 r = ret r"
| "memcmp_consttime_loop (x # a1) (y # a2) (Suc n) r =
     memcmp_consttime_loop a1 a2 n (r OR (x XOR y))"
| "memcmp_consttime_loop _ _ (Suc n) r = fault Out_of_bounds"

definition lwip_memcmp_consttime :: "u8 list \<Rightarrow> u8 list \<Rightarrow> nat \<Rightarrow> u8 res" where
  "lwip_memcmp_consttime s1 s2 len = memcmp_consttime_loop s1 s2 len 0"

section \<open>Lemmas\<close>


lemma mask_consts:
  "(0x00ff :: u16) = mask 8" "(0xff00 :: u16) = push_bit 8 (mask 8)"
  "(0x000000ff :: u32) = mask 8" "(0x0000ff00 :: u32) = push_bit 8 (mask 8)"
  "(0x00ff0000 :: u32) = push_bit 16 (mask 8)" "(0xff000000 :: u32) = push_bit 24 (mask 8)"
  "(0x0000ffff :: u32) = mask 16"
  by (simp_all add: mask_eq_exp_minus_1)

lemma bit_htonl: 
  "k < 8 \<Longrightarrow> bit (lwip_htonl n) k = bit n (k + 24)"
  "8 \<le> k \<Longrightarrow> k < 16 \<Longrightarrow> bit (lwip_htonl n) k = bit n (k + 8)"
  "16 \<le> k \<Longrightarrow> k < 24 \<Longrightarrow> bit (lwip_htonl n) k = bit n (k - 8)"
  "24 \<le> k \<Longrightarrow> k < 32 \<Longrightarrow> bit (lwip_htonl n) k = bit n (k - 24)"
  unfolding lwip_htonl_def mask_consts
     apply (simp_all add: bit_simps)
  by (auto simp: ac_simps)

lemma htonl_invol: "lwip_htonl (lwip_htonl n) = n"
proof (rule bit_word_eqI)
  fix k assume "k < LENGTH(32)"
  then consider "k < 8" | "8 \<le> k" "k < 16" | "16 \<le> k" "k < 24" | "24 \<le> k" "k < 32"
    by fastforce
  then show "bit (lwip_htonl (lwip_htonl n)) k = bit n k"
    by cases (simp_all add: bit_htonl)
qed

lemma unat_or_32: "unat ((c :: u8) OR 32) = unat c + (if odd (unat c div 32) then 0 else 32)"
proof -
  have b32: "bit (32 :: u8) n \<longleftrightarrow> n = 5" for n
    using bit_exp_iff [where ?'a = u8, of 5 n] by (auto simp: )
  have b: "bit c 5 \<longleftrightarrow> odd (unat c div 32)"
    using bit_unsigned_iff [where ?'a = nat and w = c and n = 5] by (simp add: bit_iff_odd [of "unat c"])
  show ?thesis
  proof (cases "bit c 5")
    case True
    then have "bit (32 :: u8) n \<Longrightarrow> bit c n" for n using b32 [of n] by (simp only: simp_thms)
    then have "c OR 32 = c"
      by (intro bit_word_eqI) (auto simp only: bit_or_iff)
    with True b show ?thesis by simp
  next
    case False
    then have "bit (32 :: u8) n \<Longrightarrow> \<not> bit c n" for n using b32 [of n] by (simp only: simp_thms)
    then have "c AND 32 = 0"
      by (intro bit_word_eqI) (auto simp only: bit_and_iff bit_0_eq bot_apply bot_bool_def)
    then have e: "c OR 32 = c + 32" by (simp add: disjunctive_add_eq_or)
    have "even (unat c div 32)" using False b by simp
    then have "unat c div 32 \<noteq> 7" by (intro notI) simp
    moreover have "unat c div 32 < 8" using unat_u8_less [of c] by linarith
    ultimately have "unat c + 32 < 256" by linarith
    then show ?thesis using False b by (simp add: e unat_word_ariths)
  qed
qed

definition ascii_lower :: "u8 \<Rightarrow> u8" where
  "ascii_lower c = (if 65 \<le> c \<and> c \<le> 90 then c + 32 else c)"

lemma unat_ascii_lower:
  "unat (ascii_lower c) = (if 65 \<le> unat c \<and> unat c \<le> 90 then unat c + 32 else unat c)"
  by (auto simp: ascii_lower_def word_le_nat_alt unat_word_ariths)

lemma or_32_letter:
  "97 \<le> unat ((c :: u8) OR 32) \<and> unat (c OR 32) \<le> 122 \<longleftrightarrow>
     (65 \<le> unat c \<and> unat c \<le> 90) \<or> (97 \<le> unat c \<and> unat c \<le> 122)"
proof -
  define q r where "q = unat c div 32" and "r = unat c mod 32"
  then have c: "unat c = 32 * q + r" and r: "r < 32" by simp_all
  have "q < 8" unfolding q_def using unat_u8_less [of c] by linarith
  then have "q \<in> {0, 1, 2, 3, 4, 5, 6, 7}" by auto
  then show ?thesis
    unfolding unat_or_32 q_def [symmetric] using r by (elim insertE) (auto simp: c)
qed

lemma or_32_lower:
  assumes "97 \<le> unat ((c :: u8) OR 32)" "unat (c OR 32) \<le> 122"
  shows "unat (c OR 32) = unat (ascii_lower c)"
proof -
  from assms consider "65 \<le> unat c" "unat c \<le> 90" | "97 \<le> unat c" "unat c \<le> 122"
    using or_32_letter [of c] by blast
  then show ?thesis
  proof cases
    case 1
    then have "unat c div 32 = 2" by linarith
    then show ?thesis using 1 by (simp add: unat_or_32 unat_ascii_lower)
  next
    case 2
    then have "unat c div 32 = 3" by linarith
    then show ?thesis using 2 by (simp add: unat_or_32 unat_ascii_lower)
  qed
qed



lemma or_32_eq_iff:
  assumes c1: "97 \<le> unat (c1 OR 32)" "unat (c1 OR 32) \<le> 122"
  shows "c1 OR 32 = c2 OR 32 \<longleftrightarrow> ascii_lower c1 = ascii_lower c2"
proof
  assume "c1 OR 32 = c2 OR 32"
  then have "unat (ascii_lower c1) = unat (ascii_lower c2)"
    using c1 or_32_lower [of c1] or_32_lower [of c2] by metis
  then show "ascii_lower c1 = ascii_lower c2" by (rule word_unat_eq_iff [THEN iffD2])
next
  assume eq: "ascii_lower c1 = ascii_lower c2"
  then have "97 \<le> unat (ascii_lower c2)" "unat (ascii_lower c2) \<le> 122"
    using c1 or_32_lower [OF c1] by simp_all
  then have "97 \<le> unat (c2 OR 32)" "unat (c2 OR 32) \<le> 122"
    using or_32_letter [of c2] by (auto simp: unat_ascii_lower split: if_splits)
  then have "unat (c1 OR 32) = unat (c2 OR 32)"
    using eq or_32_lower [OF c1] or_32_lower [of c2] by simp
  then show "c1 OR 32 = c2 OR 32" by (rule word_unat_eq_iff [THEN iffD2])
qed

lemma same_letter_iff: "same_letter c1 c2 \<longleftrightarrow> ascii_lower c1 = ascii_lower c2"
proof (cases "97 \<le> unat (c1 OR 32) \<and> unat (c1 OR 32) \<le> 122")
  case True
  then have "c1 OR 32 = c2 OR 32 \<longleftrightarrow> ascii_lower c1 = ascii_lower c2"
    by (intro or_32_eq_iff) simp_all
  with True show ?thesis
    unfolding same_letter_def Let_def by (auto simp: word_le_nat_alt)
next
  case False
  then have l: "ascii_lower c1 = c1" and n: "\<not> (97 \<le> unat c1 \<and> unat c1 \<le> 122)"
    unfolding or_32_letter by (auto simp: ascii_lower_def word_le_nat_alt)
  have "c1 = c2" if "ascii_lower c1 = ascii_lower c2"
  proof -
    have "unat c1 = unat (ascii_lower c2)" using l that by simp
    then have "unat c1 = unat c2" using n by (auto simp: unat_ascii_lower split: if_splits)
    then show ?thesis by (rule word_unat_eq_iff [THEN iffD2])
  qed
  with False show ?thesis
    unfolding same_letter_def Let_def by (auto simp: word_le_nat_alt)
qed

lemma ascii_lower_eq_0: "ascii_lower c = 0 \<longleftrightarrow> c = 0" 
  using unat_ascii_lower [of c] by (auto simp: unat_eq_0 [symmetric] split: if_splits)

lemma cstring_simps [simp]:
  "cstring [] = []" "cstring (c # s) = (if c = 0 then [] else c # cstring s)"
  by (simp_all add: cstring_def)

lemma cstring_nil_iff: "cstring s = [] \<longleftrightarrow> chd s = 0"
  by (cases s) (auto simp: chd_def)

lemma cstring_nil: "chd s = 0 \<Longrightarrow> cstring s = []"
  by (simp add: cstring_nil_iff)

lemma cstring_cons: "chd s \<noteq> 0 \<Longrightarrow> cstring s = chd s # cstring (tl s)"
  by (cases s) (auto simp: chd_def)


lemma ascii_lower_0 [simp]: "ascii_lower 0 = 0"
  by (simp add: ascii_lower_eq_0)

lemma stricmp_iff:
  "lwip_stricmp s1 s2 = 0 \<longleftrightarrow> map ascii_lower (cstring s1) = map ascii_lower (cstring s2)"
proof (induction s1 s2 rule: lwip_stricmp.induct)
  case (1 str2)
  show ?case
    using ascii_lower_eq_0 [of "chd str2"]
    by (auto simp: same_letter_iff cstring_nil_iff)
next
  case (2 c1 str1 str2)
  have z: "ascii_lower c1 = ascii_lower (chd str2) \<Longrightarrow> c1 = 0 \<longleftrightarrow> chd str2 = 0"
    using ascii_lower_eq_0 [of c1] ascii_lower_eq_0 [of "chd str2"] by simp
  show ?case
  proof (cases "c1 = 0 \<or> chd str2 = 0")
    case True
    then show ?thesis
      using z by (auto simp: same_letter_iff cstring_nil cstring_cons ascii_lower_eq_0)
  next
    case False
    with 2 show ?thesis by (auto simp: same_letter_iff cstring_cons)
  qed
qed

lemma unat_minus_one: "0 < unat (w :: usize) \<Longrightarrow> unat (w - 1) = unat w - 1"
  by (simp add: unat_sub word_le_nat_alt)

lemma strnicmp_iff:
  "0 < unat len \<Longrightarrow> lwip_strnicmp s1 s2 len = 0 \<longleftrightarrow>
     map ascii_lower (take (unat len) (cstring s1)) = map ascii_lower (take (unat len) (cstring s2))"
proof (induction s1 s2 len rule: lwip_strnicmp.induct)
  case (1 str2 len)
  then show ?case
    using ascii_lower_eq_0 [of "chd str2"]
    by (auto simp: same_letter_iff cstring_nil_iff)
next
  case (2 c1 str1 str2 len)
  have z: "ascii_lower c1 = ascii_lower (chd str2) \<Longrightarrow> c1 = 0 \<longleftrightarrow> chd str2 = 0"
    using ascii_lower_eq_0 [of c1] ascii_lower_eq_0 [of "chd str2"] by simp
  obtain k where k: "unat len = Suc k" using "2.prems" by (cases "unat len") auto
  then have k': "unat (len - 1) = k" using unat_minus_one [of len] by simp
  then have l: "len - 1 = 0 \<longleftrightarrow> k = 0" by (simp add: unat_eq_0 [symmetric])
  show ?case
  proof (cases "c1 = 0 \<or> chd str2 = 0")
    case True
    then show ?thesis
      using z "2.prems" by (auto simp: same_letter_iff cstring_nil cstring_cons ascii_lower_eq_0 k)
  next
    case False
    with 2 k k' l show ?thesis by (auto simp: same_letter_iff cstring_cons)
  qed
qed

lemma strncmp_eq_iff: "strncmp_eq s t n \<longleftrightarrow> take n (cstring s) = take n (cstring t)"
proof (induction s t n rule: strncmp_eq.induct)
  case (2 s t n)
  then show ?case by (cases "chd s = 0"; cases "chd t = 0") (auto simp: cstring_nil cstring_cons)
qed simp


subsection \<open>Searching\<close>

fun first_match :: "(u8 list \<Rightarrow> bool) \<Rightarrow> nat \<Rightarrow> u8 list \<Rightarrow> nat \<Rightarrow> nat option" where
  "first_match P lim [] i = None"
| "first_match P lim (c # s) i =
     (if i \<le> lim then if P (c # s) then Some i else first_match P lim s (Suc i) else None)"

lemma first_match_None:
  "first_match P lim s i = None \<Longrightarrow> j < length s \<Longrightarrow> i + j \<le> lim \<Longrightarrow> \<not> P (drop j s)"
proof (induction P lim s i arbitrary: j rule: first_match.induct)
  case (2 P lim c s i)
  then show ?case by (cases j) (auto split: if_splits)
qed simp

lemma first_match_Some:
  "first_match P lim s i = Some r \<Longrightarrow>
     i \<le> r \<and> r \<le> lim \<and> r - i < length s \<and> P (drop (r - i) s) \<and> (\<forall>j < r - i. \<not> P (drop j s))"
proof (induction P lim s i rule: first_match.induct)
  case (2 P lim c s i)
  show ?case
  proof (cases "P (c # s) \<or> lim < i")
    case True
    with "2.prems" show ?thesis by (auto split: if_splits)
  next
    case False
    with "2.prems" have "first_match P lim s (Suc i) = Some r" by simp
    with False "2.IH" have IH: "Suc i \<le> r" "r \<le> lim" "r - Suc i < length s" "P (drop (r - Suc i) s)"
      "\<forall>j < r - Suc i. \<not> P (drop j s)" by auto
    then have r: "r - i = Suc (r - Suc i)" by simp
    have "\<not> P (drop j (c # s))" if "j < r - i" for j
      using that IH(5) False r by (cases j) auto
    with IH r show ?thesis by simp
  qed
qed simp

definition first_occurrence :: "(u8 list \<Rightarrow> u8 list) \<Rightarrow> u8 list \<Rightarrow> u8 list \<Rightarrow> nat \<Rightarrow> nat option \<Rightarrow> bool"
where
  "first_occurrence f token buffer n r =
     (let occurs = (\<lambda>i. i + length token \<le> n \<and> i + length token \<le> length buffer \<and>
                        f (take (length token) (drop i buffer)) = f token)
      in case r of None \<Rightarrow> \<forall>i. \<not> occurs i | Some i \<Rightarrow> occurs i \<and> (\<forall>j < i. \<not> occurs j))"

lemma first_match_occurrence:
  assumes t: "t \<noteq> []" "length t \<le> n"
    and P: "\<And>s. P s \<longleftrightarrow> length t \<le> length s \<and> f (take (length t) s) = f t"
  shows "first_occurrence f t s n (first_match P (n - length t) s 0)"
proof (cases "first_match P (n - length t) s 0")
  case None
  have "\<not> (i + length t \<le> n \<and> i + length t \<le> length s \<and> f (take (length t) (drop i s)) = f t)" for i
  proof
    assume occ: "i + length t \<le> n \<and> i + length t \<le> length s \<and> f (take (length t) (drop i s)) = f t"
    moreover have "0 < length t" using t(1) by simp
    ultimately have "i < length s" "0 + i \<le> n - length t" by linarith+
    from first_match_None [OF None this] occ show False unfolding P by auto
  qed
  with None show ?thesis by (simp add: first_occurrence_def Let_def)
next
  case (Some r)
  from first_match_Some [OF Some] t show ?thesis
    by (auto simp: first_occurrence_def Let_def Some P)
qed

lemma first_occurrence_empty: "first_occurrence f [] s n (Some 0)"
  by (simp add: first_occurrence_def)

lemma first_occurrence_short: "n < length t \<Longrightarrow> first_occurrence f t s n None"
  by (simp add: first_occurrence_def)

lemma map_take_eq_length:
  assumes "map f (take n xs) = map f ys" "length ys = n"
  shows "n \<le> length xs"
proof -
  have "length (map f (take n xs)) = length (map f ys)" by (simp only: assms(1))
  with assms(2) show ?thesis by simp
qed

lemma strncmp_eq_match:
  "strncmp_eq s t (strlen t) \<longleftrightarrow>
     strlen t \<le> length (cstring s) \<and> take (strlen t) (cstring s) = cstring t"
proof -
  have l: "take (strlen t) (cstring t) = cstring t" by (simp add: strlen_def)
  have "strlen t \<le> length (cstring s)" if "take (strlen t) (cstring s) = cstring t"
    by (rule map_take_eq_length [where f = id and ys = "cstring t"]) (simp only: that, simp only: strlen_def)
  then show ?thesis unfolding strncmp_eq_iff l by blast
qed

lemma strnstr_loop_eq:
  assumes "strlen t \<noteq> 0"
  shows "strnstr_loop p t n i = (if strlen t \<le> n then
     first_match (\<lambda>s. strlen t \<le> length s \<and> take (strlen t) s = cstring t) (n - strlen t) (cstring p) i
     else None)"
  using assms
proof (induction p t n i rule: strnstr_loop.induct)
  case (2 c p token n i)
  have hd: "take (strlen token) (c # xs) = cstring token \<Longrightarrow> c = chd token" for xs
    using "2.prems" by (cases token) (auto simp: chd_def strlen_def split: if_splits)
  show ?case
  proof (cases "c \<noteq> 0 \<and> i + strlen token \<le> n")
    case True
    then have cs: "cstring (c # p) = c # cstring p" by simp
    have m: "c = chd token \<and> strncmp_eq (c # p) token (strlen token) \<longleftrightarrow>
        strlen token \<le> length (c # cstring p) \<and> take (strlen token) (c # cstring p) = cstring token"
      unfolding strncmp_eq_match cs using hd by blast
    from True have "i \<le> n - strlen token" "strlen token \<le> n" by linarith+
    with True "2.IH" "2.prems" show ?thesis
      unfolding strnstr_loop.simps m cs by simp
  next
    case False
    then show ?thesis by (cases "c = 0") auto
  qed
qed simp

lemma strnicmp_match:
  assumes "strlen t \<noteq> 0" "strlen t < 2 ^ 64"
  shows "lwip_strnicmp s t (of_nat (strlen t)) = 0 \<longleftrightarrow> strlen t \<le> length (cstring s) \<and>
     map ascii_lower (take (strlen t) (cstring s)) = map ascii_lower (cstring t)"
proof -
  have u: "unat (of_nat (strlen t) :: usize) = strlen t"
    using assms(2) by (simp add: unat_of_nat take_bit_nat_eq_self)
  have l: "length (cstring t) = strlen t" by (simp add: strlen_def)
  show ?thesis
    using map_take_eq_length [OF _ l, of ascii_lower "cstring s"] strnicmp_iff [of "of_nat (strlen t)" s t] assms(1) l by (auto simp: u)
qed

lemma strnistr_loop_eq:
  assumes "strlen t \<noteq> 0" "strlen t < 2 ^ 64"
  shows "strnistr_loop p t n i = (if strlen t \<le> n then
     first_match (\<lambda>s. strlen t \<le> length s \<and>
       map ascii_lower (take (strlen t) s) = map ascii_lower (cstring t)) (n - strlen t) (cstring p) i
     else None)"
  using assms
proof (induction p t n i rule: strnistr_loop.induct)
  case (2 c p token n i)
  then show ?case by (auto simp: strnicmp_match simp del: lwip_strnicmp.simps)
qed simp

lemma strnstr_spec: "first_occurrence id (cstring t) (cstring s) n (lwip_strnstr s t n)"
proof (cases "strlen t = 0")
  case True
  then show ?thesis by (simp add: lwip_strnstr_def strlen_def first_occurrence_empty)
next
  case False
  then show ?thesis
    using first_match_occurrence [of "cstring t" n _ id "cstring s"]
      first_occurrence_short [of n "cstring t" id "cstring s"]
    by (simp add: lwip_strnstr_def strnstr_loop_eq) (simp add: strlen_def)
qed

lemma strnistr_spec:
  assumes "strlen t < 2 ^ 64"
  shows "first_occurrence (map ascii_lower) (cstring t) (cstring s) n (lwip_strnistr s t n)"
proof (cases "strlen t = 0")
  case True
  then show ?thesis by (simp add: lwip_strnistr_def strlen_def first_occurrence_empty)
next
  case False
  then show ?thesis
    using assms first_match_occurrence [of "cstring t" n _ "map ascii_lower" "cstring s"]
      first_occurrence_short [of n "cstring t" "map ascii_lower" "cstring s"]
    by (simp add: lwip_strnistr_def strnistr_loop_eq) (simp add: strlen_def)
qed


subsection \<open>Decimal output and constant-time comparison\<close>


fun digits0 :: "nat \<Rightarrow> u8 list" where
  "digits0 n = (if n = 0 then [] else digits0 (n div 10) @ [48 + of_nat (n mod 10)])"

declare digits0.simps [simp del]

definition dec_string :: "int \<Rightarrow> u8 list" where
  "dec_string number = (if number < 0 then [45] else []) @
     (if number = 0 then [48] else digits0 (nat \<bar>number\<bar>))"

lemma digits0_0 [simp]: "digits0 0 = []"
  by (simp add: digits0.simps)

lemma digits0_pos: "n \<noteq> 0 \<Longrightarrow> digits0 n = digits0 (n div 10) @ [48 + of_nat (n mod 10)]"
  by (subst digits0.simps) simp

lemma drop_update_nth: "i < length xs \<Longrightarrow> drop i (xs[i := v]) = v # drop (Suc i) xs"
  by (simp add: Cons_nth_drop_Suc [symmetric])

lemma digit_nonzero: "(48 + of_nat (k mod 10) :: u8) \<noteq> 0"
proof -
  have "unat (48 + of_nat (k mod 10) :: u8) = 48 + k mod 10"
    by (simp add: unat_word_ariths unat_of_nat)
  then show ?thesis by (metis add_eq_0_iff_both_eq_0 unat_0 zero_neq_numeral)
qed

lemma digits0_nonzero: "0 \<notin> set (digits0 n)"
proof (induction n rule: digits0.induct)
  case (1 n)
  then show ?case
    by (cases "n = 0") (use digit_nonzero [of n] in \<open>auto simp: digits0_pos\<close>)
qed

lemma cstring_append: "0 \<notin> set xs \<Longrightarrow> cstring (xs @ ys) = xs @ cstring ys"
  by (induction xs) auto

lemma itoa_loop_ok:
  "tmp \<le> length buf \<Longrightarrow> res + length (digits0 n) \<le> tmp \<Longrightarrow>
     itoa_loop buf tmp res n =
       ret (take (tmp - length (digits0 n)) buf @ digits0 n @ drop tmp buf,
            tmp - length (digits0 n), 0)"
proof (induction n arbitrary: buf tmp rule: digits0.induct)
  case (1 n)
  show ?case
  proof (cases "n = 0")
    case True
    then show ?thesis by (subst itoa_loop.simps) simp
  next
    case False
    define d where "d = (48 + of_nat (n mod 10) :: u8)"
    have dg: "digits0 n = digits0 (n div 10) @ [d]" using False by (simp add: digits0_pos d_def)
    with "1.prems" have lt: "res < tmp" "tmp - 1 < length buf" "res + length (digits0 (n div 10)) \<le> tmp - 1"
      by auto
    have "itoa_loop buf tmp res n = itoa_loop (buf[tmp - 1 := d]) (tmp - 1) res (n div 10)"
      using False lt by (subst itoa_loop.simps) (simp add: store_def d_def)
    also have "\<dots> = ret (take (tmp - 1 - length (digits0 (n div 10))) (buf[tmp - 1 := d]) @
        digits0 (n div 10) @ drop (tmp - 1) (buf[tmp - 1 := d]),
        tmp - 1 - length (digits0 (n div 10)), 0)"
      using False lt by (intro "1.IH") auto
    finally show ?thesis
      using lt by (simp add: dg drop_update_nth take_update_cancel)
  qed
qed

lemma itoa_loop_short:
  "tmp \<le> length buf \<Longrightarrow> res \<le> tmp \<Longrightarrow> tmp < res + length (digits0 n) \<Longrightarrow>
     \<exists>buf' n'. itoa_loop buf tmp res n = ret (buf', res, n') \<and> n' \<noteq> 0 \<and> length buf' = length buf"
proof (induction n arbitrary: buf tmp rule: digits0.induct)
  case (1 n)
  then have n: "n \<noteq> 0" by (cases "n = 0") auto
  show ?case
  proof (cases "tmp = res")
    case True
    with n show ?thesis by (subst itoa_loop.simps) simp
  next
    case False
    define d where "d = (48 + of_nat (n mod 10) :: u8)"
    have "itoa_loop buf tmp res n = itoa_loop (buf[tmp - 1 := d]) (tmp - 1) res (n div 10)"
    proof -
      have "tmp - 1 < length buf" "res < tmp" using False "1.prems" by auto
      with n show ?thesis by (subst itoa_loop.simps) (simp add: store_def d_def)
    qed
    moreover have "\<exists>buf' n'. itoa_loop (buf[tmp - 1 := d]) (tmp - 1) res (n div 10) = ret (buf', res, n') \<and>
        n' \<noteq> 0 \<and> length buf' = length (buf[tmp - 1 := d])"
      using n False "1.prems" by (intro "1.IH") (auto simp: digits0_pos)
    ultimately show ?thesis by simp
  qed
qed

lemma itoa_spec:
  assumes len: "length result = bufsize" "1 \<le> bufsize" and num: "number \<noteq> - (2 ^ 31)"
  shows "\<exists>buf. lwip_itoa result bufsize number = ret buf \<and> length buf = bufsize \<and>
     cstring buf = (if length (dec_string number) < bufsize then dec_string number else [])"
proof (cases "bufsize = 1")
  case True
  have "dec_string number \<noteq> []"
    by (auto simp: dec_string_def digits0_pos)
  then have "\<not> length (dec_string number) < 1" by (cases "dec_string number") auto
  with True len num show ?thesis
    by (cases result) (auto simp: lwip_itoa_def store_def Let_def)
next
  case False
  define res where "res = (if number < 0 then 1 else 0 :: nat)"
  define buf0 where "buf0 = (if number < 0 then result[0 := 45] else result)[bufsize - 1 := 0]"
  define n where "n = nat \<bar>number\<bar>"
  have b: "length buf0 = bufsize" "buf0 ! (bufsize - 1) = 0" "res \<le> bufsize - 1"
    "take res buf0 = (if number < 0 then [45] else [])"
    using len False by (auto simp: buf0_def res_def take_Suc_conv_app_nth hd_conv_nth take_Suc)
  have it: "lwip_itoa result bufsize number = 
     bindR (itoa_loop buf0 (bufsize - 1) res n) (\<lambda>(buf, tmp, n).
        if n \<noteq> 0 then store buf 0 0
        else if buf ! tmp = 0 then bindR (store buf res 48) (\<lambda>buf. store buf (res + 1) 0)
        else memmove_in buf res tmp (bufsize - tmp))"
    using len False num unfolding res_def buf0_def n_def
    by (cases "number < 0") (simp_all add: lwip_itoa_def Let_def store_def del: One_nat_def)
  show ?thesis
  proof (cases "number = 0")
    case True
    then have "res = 0" "n = 0" "itoa_loop buf0 (bufsize - 1) res n = ret (buf0, bufsize - 1, 0)"
      by (simp_all add: res_def n_def itoa_loop.simps)
    moreover obtain x y zs where "buf0 = x # y # zs"
      using b(1) False len(2) by (cases buf0 rule: list.exhaust; cases "tl buf0") auto
    ultimately show ?thesis
      using True b it False by (simp add: store_def dec_string_def)
  next
    case nz: False
    then have ds: "dec_string number = take res buf0 @ digits0 n"
      by (simp add: dec_string_def b(4) n_def)
    have lr: "length (take res buf0) = res" using b(4) by (simp add: res_def)
    show ?thesis
    proof (cases "res + length (digits0 n) \<le> bufsize - 1")
      case True
      define tmp where "tmp = bufsize - 1 - length (digits0 n)"
      define buf1 where "buf1 = take tmp buf0 @ digits0 n @ drop (bufsize - 1) buf0"
      have tmp: "res \<le> tmp" "tmp < bufsize" using True len by (auto simp: tmp_def)
      have ln: "bufsize - tmp = Suc (length (digits0 n))" "res + Suc (length (digits0 n)) \<le> bufsize"
        "tmp + Suc (length (digits0 n)) \<le> bufsize"
        using True len by (auto simp: tmp_def)
      have l: "itoa_loop buf0 (bufsize - 1) res n = ret (buf1, tmp, 0)"
        using itoa_loop_ok [of "bufsize - 1" buf0 res n] True b by (simp add: buf1_def tmp_def)
      have "digits0 n \<noteq> []" using nz by (auto simp: n_def digits0_pos)
      then have "buf1 ! tmp \<in> set (digits0 n)"
        using tmp b by (auto simp: buf1_def nth_append)
      then have nz1: "buf1 ! tmp \<noteq> 0" using digits0_nonzero by metis
      have last: "drop (bufsize - 1) buf0 = [0]"
        using b len(2) by (simp add: Cons_nth_drop_Suc [symmetric])
      have "drop tmp buf1 = digits0 n @ [0]" using tmp b last by (simp add: buf1_def)
      moreover have "take res buf1 = take res buf0" using tmp b by (simp add: buf1_def)
      moreover have len1: "length buf1 = bufsize" using True b len by (simp add: buf1_def tmp_def)
      ultimately have "memmove_in buf1 res tmp (bufsize - tmp) =
          ret (take res buf0 @ digits0 n @ [0] @ drop (res + (bufsize - tmp)) buf1)"
        using ln by (simp add: memmove_in_def)
      then have "lwip_itoa result bufsize number =
          ret (take res buf0 @ digits0 n @ [0] @ drop (res + (bufsize - tmp)) buf1)"
        using it l nz1 by simp
      moreover have "0 \<notin> set (take res buf0 @ digits0 n)" using b(4) digits0_nonzero by simp
      then have "cstring (take res buf0 @ digits0 n @ [0] @ drop (res + (bufsize - tmp)) buf1) = dec_string number"
        using cstring_append [of "take res buf0 @ digits0 n"] by (simp add: ds)
      moreover have "length (dec_string number) < bufsize" using True lr len by (simp add: ds)
      ultimately show ?thesis using lr ln len1 by simp
    next
      case False
      then obtain buf' n' where "itoa_loop buf0 (bufsize - 1) res n = ret (buf', res, n')"
        "n' \<noteq> 0" "length buf' = bufsize"
        using itoa_loop_short [of "bufsize - 1" buf0 res n] b by auto
      moreover have "\<not> length (dec_string number) < bufsize" using False lr by (simp add: ds)
      moreover have "cstring (buf'[0 := 0]) = []" if "length buf' = bufsize"
        using that len by (cases buf') auto
      ultimately show ?thesis using it len by (simp add: store_def)
    qed
  qed
qed

lemma memcmp_consttime_loop_spec:
  "n \<le> length a \<Longrightarrow> n \<le> length b \<Longrightarrow>
     \<exists>r'. memcmp_consttime_loop a b n r = ret r' \<and> (r' = 0 \<longleftrightarrow> r = 0 \<and> take n a = take n b)"
proof (induction a b n r rule: memcmp_consttime_loop.induct)
  case (2 x a1 y a2 n r)
  have "x XOR y = 0 \<longleftrightarrow> x = y"
    by (metis xor.assoc xor.left_neutral xor.right_neutral xor_self_eq)
  then have "r OR (x XOR y) = 0 \<longleftrightarrow> r = 0 \<and> x = y"
    by (simp add: or_eq_0_iff)
  with 2 show ?case by auto
qed auto


section \<open>Properties\<close>

text \<open>
  C29: \<open>lwip_stricmp\<close> returns 0 exactly when the two C strings are equal up to the case of
  ASCII letters (it never reads past the terminator of either string to find out).
\<close>

theorem lwip_stricmp_correct:
  "lwip_stricmp s1 s2 = 0 \<longleftrightarrow> map ascii_lower (cstring s1) = map ascii_lower (cstring s2)"
  by (rule stricmp_iff)

text \<open>
  C30: \<open>lwip_strnstr\<close> returns the first position at which the token occurs in the string
  within its first \<open>n\<close> bytes, and \<open>NULL\<close> when there is none.
\<close>

theorem lwip_strnstr_first:
  "first_occurrence id (cstring token) (cstring buffer) n (lwip_strnstr buffer token n)"
  by (rule strnstr_spec)

text \<open>
  C31: \<open>lwip_itoa\<close> into a buffer of \<open>bufsize\<close> bytes. For every number but the least one of type \<open>int\<close>
  it writes inside the buffer only, and leaves there the decimal digits of the
  number when they and the terminator fit, the empty string otherwise; nothing is written when \<open>bufsize\<close> is 0.
  For the least number, \<open>- (2 ^ 31)\<close>, the negation in its first line overflows, which is undefined, for every \<open>bufsize\<close>.
\<close>

theorem lwip_itoa_correct:
  assumes "length result = bufsize"
  shows "if number = - (2 ^ 31) then lwip_itoa result bufsize number = fault Overflow
    else \<exists>buf. lwip_itoa result bufsize number = ret buf \<and> length buf = bufsize \<and>
      cstring buf = (if length (dec_string number) < bufsize then dec_string number else [])"
proof (cases "number = - (2 ^ 31)")
  case True
  then show ?thesis by (simp add: lwip_itoa_def)
next
  case False
  then show ?thesis
    using itoa_spec [OF assms _ False] assms by (cases "bufsize = 0") (simp_all add: lwip_itoa_def)
qed

theorem lwip_itoa_correct_witness:
  "(\<exists>buf. lwip_itoa [9, 9, 9, 9, 9] 5 (- 42) = ret buf \<and> length buf = 5 \<and> cstring buf = [45, 52, 50]) \<and>
   lwip_itoa [9, 9, 9, 9, 9] 5 (- 2147483648) = fault Overflow"
proof -
  have "dec_string (- 42) = [45, 52, 50]"
    by (simp add: dec_string_def digits0.simps)
  then show ?thesis
    using lwip_itoa_correct [of "[9, 9, 9, 9, 9]" 5 "- 42"] lwip_itoa_correct [of "[9, 9, 9, 9, 9]" 5 "- 2147483648"]
    by simp
qed

end
