(* ===== verification/Lwip_Mem.thy ===== *)
theory Lwip_Mem
  imports Lwip_Prelude
begin

text \<open>
  Byte-addressed memory: addresses are natural numbers, a partial map gives the bytes that may
  be accessed. \<open>mread\<close>, \<open>mwrite\<close> and \<open>memcpy_bytes\<close> are the C accesses to a range of bytes;
  an access to a byte outside the map is a fault. The lemmas characterise them pointwise, and
  \<open>bytes_at\<close> is the contents of a mapped range.
\<close>

type_synonym bytes = "nat \<rightharpoonup> u8"

definition mread :: "bytes \<Rightarrow> nat \<Rightarrow> nat \<Rightarrow> u8 list res" where
  "mread m a n =
     (case those (map m [a..<a + n]) of Some xs \<Rightarrow> ret xs | None \<Rightarrow> fault Out_of_bounds)"

fun mwrite :: "bytes \<Rightarrow> nat \<Rightarrow> u8 list \<Rightarrow> bytes res" where
  "mwrite m a [] = ret m"
| "mwrite m a (x # xs) =
     (if m a = None then fault Out_of_bounds else mwrite (m(a \<mapsto> x)) (Suc a) xs)"

definition memcpy_bytes :: "bytes \<Rightarrow> nat \<Rightarrow> nat \<Rightarrow> nat \<Rightarrow> bytes res" where
  "memcpy_bytes m dst src n = bindR (mread m src n) (\<lambda>xs. mwrite m dst xs)"

section \<open>Contents of a range\<close>

definition mapped :: "bytes \<Rightarrow> nat \<Rightarrow> nat \<Rightarrow> bool" where
  "mapped m a n \<longleftrightarrow> (\<forall>i < n. m (a + i) \<noteq> None)"

definition bytes_at :: "bytes \<Rightarrow> nat \<Rightarrow> nat \<Rightarrow> u8 list" where
  "bytes_at m a n = map (\<lambda>i. the (m (a + i))) [0..<n]"

definition put_bytes :: "bytes \<Rightarrow> nat \<Rightarrow> u8 list \<Rightarrow> bytes" where
  "put_bytes m a xs = (\<lambda>k. if a \<le> k \<and> k < a + length xs then Some (xs ! (k - a)) else m k)"

lemma length_bytes_at [simp]: "length (bytes_at m a n) = n"
  by (simp add: bytes_at_def)

lemma nth_bytes_at [simp]: "i < n \<Longrightarrow> bytes_at m a n ! i = the (m (a + i))"
  by (simp add: bytes_at_def)

lemma bytes_at_0 [simp]: "bytes_at m a 0 = []"
  by (simp add: bytes_at_def)

lemma mapped_0 [simp]: "mapped m a 0"
  by (simp add: mapped_def)

lemma mapped_iff: "mapped m a n \<longleftrightarrow> (\<forall>k. a \<le> k \<longrightarrow> k < a + n \<longrightarrow> m k \<noteq> None)"
  unfolding mapped_def by (metis add_less_cancel_left le_add1 le_Suc_ex)

lemma mapped_mono: "mapped m a n \<Longrightarrow> k + j \<le> n \<Longrightarrow> mapped m (a + k) j"
  by (auto simp: mapped_iff)

lemma those_map_eq:
  "those (map m xs) = (if \<forall>x \<in> set xs. m x \<noteq> None then Some (map (\<lambda>x. the (m x)) xs) else None)"
  by (induction xs) (auto split: option.split)

lemma mread_eq: "mread m a n = (if mapped m a n then ret (bytes_at m a n) else fault Out_of_bounds)"
proof -
  have "(\<forall>x \<in> set [a..<a + n]. m x \<noteq> None) = mapped m a n"
    by (auto simp: mapped_iff)
  moreover have "map (\<lambda>x. the (m x)) [a..<a + n] = bytes_at m a n"
    by (rule nth_equalityI) simp_all
  ultimately show ?thesis
    unfolding mread_def those_map_eq by simp
qed

lemma put_bytes_Nil [simp]: "put_bytes m a [] = m"
  by (rule ext) (auto simp: put_bytes_def)

lemma put_bytes_Cons: "put_bytes m a (x # xs) = put_bytes (m(a \<mapsto> x)) (Suc a) xs"
  by (auto simp: put_bytes_def fun_eq_iff nth_Cons' Suc_diff_Suc
      intro!: arg_cong [where f = "nth xs"])

lemma mwrite_eq:
  "mwrite m a xs = (if mapped m a (length xs) then ret (put_bytes m a xs) else fault Out_of_bounds)"
proof (induction xs arbitrary: m a)
  case (Cons x xs)
  have "mapped m a (length (x # xs)) \<longleftrightarrow> m a \<noteq> None \<and> mapped (m(a \<mapsto> x)) (Suc a) (length xs)"
    by (simp add: mapped_def All_less_Suc2)
  with Cons show ?case by (simp add: put_bytes_Cons fun_upd_def)
qed simp

lemma memcpy_bytes_eq:
  "memcpy_bytes m dst src n =
     (if mapped m src n \<and> mapped m dst n then ret (put_bytes m dst (bytes_at m src n))
      else fault Out_of_bounds)"
  by (simp add: memcpy_bytes_def mread_eq mwrite_eq)

section \<open>Contents after a write\<close>

lemma mapped_put_bytes: "mapped m a (length xs) \<Longrightarrow> mapped (put_bytes m a xs) b n = mapped m b n"
  by (auto simp: mapped_iff put_bytes_def)

lemma dom_put_bytes: "mapped m a (length xs) \<Longrightarrow> dom (put_bytes m a xs) = dom m"
  by (auto simp: mapped_iff put_bytes_def dom_def split: if_splits)

lemma bytes_at_put_same: "bytes_at (put_bytes m a xs) a (length xs) = xs"
  by (rule nth_equalityI) (auto simp: put_bytes_def)

definition apart :: "nat \<Rightarrow> nat \<Rightarrow> nat \<Rightarrow> nat \<Rightarrow> bool" where
  "apart a n b k \<longleftrightarrow> n = 0 \<or> k = 0 \<or> a + n \<le> b \<or> b + k \<le> a"

lemma apart_sym: "apart a n b k = apart b k a n"
  by (auto simp: apart_def)

lemma apart_sub: "apart a n b k \<Longrightarrow> i + j \<le> n \<Longrightarrow> apart (a + i) j b k"
  by (auto simp: apart_def)

lemma bytes_at_put_other:
  "apart a (length xs) b n \<Longrightarrow> bytes_at (put_bytes m a xs) b n = bytes_at m b n"
  by (rule nth_equalityI) (auto simp: put_bytes_def apart_def)

lemma bytes_at_split: "k \<le> n \<Longrightarrow> bytes_at m a n = bytes_at m a k @ bytes_at m (a + k) (n - k)"
  by (rule nth_equalityI) (auto simp: nth_append add.assoc)

lemma take_bytes_at: "k \<le> n \<Longrightarrow> take k (bytes_at m a n) = bytes_at m a k"
  by (simp add: bytes_at_split)

lemma drop_bytes_at: "k \<le> n \<Longrightarrow> drop k (bytes_at m a n) = bytes_at m (a + k) (n - k)"
  by (simp add: bytes_at_split)

lemma bytes_at_put_sub:
  assumes "i + length xs \<le> n"
  shows "bytes_at (put_bytes m (a + i) xs) a n =
    take i (bytes_at m a n) @ xs @ drop (i + length xs) (bytes_at m a n)"
  using assms by (intro nth_equalityI) (auto simp: put_bytes_def nth_append min_def)

section \<open>Loads of a little-endian machine\<close>

definition load8 :: "bytes \<Rightarrow> nat \<Rightarrow> u8 res" where
  "load8 m a = bindR (mread m a 1) (\<lambda>xs. ret (xs ! 0))"

definition load16 :: "bytes \<Rightarrow> nat \<Rightarrow> u16 res" where
  "load16 m a = bindR (mread m a 2) (\<lambda>xs. ret (ucast (xs ! 0) OR push_bit 8 (ucast (xs ! 1))))"

definition load32 :: "bytes \<Rightarrow> nat \<Rightarrow> u32 res" where
  "load32 m a = bindR (mread m a 4) (\<lambda>xs.
     ret (ucast (xs ! 0) OR push_bit 8 (ucast (xs ! 1)) OR push_bit 16 (ucast (xs ! 2))
       OR push_bit 24 (ucast (xs ! 3))))"

definition bytes16 :: "u16 \<Rightarrow> u8 list" where
  "bytes16 v = [ucast v, ucast (drop_bit 8 v)]"

definition bytes32 :: "u32 \<Rightarrow> u8 list" where
  "bytes32 v = [ucast v, ucast (drop_bit 8 v), ucast (drop_bit 16 v), ucast (drop_bit 24 v)]"

definition le16 :: "u8 \<Rightarrow> u8 \<Rightarrow> nat" where
  "le16 a b = unat a + 256 * unat b"

lemma le16_less [simp]: "le16 a b < 65536"
  using unat_u8_less [of a] unat_u8_less [of b] unfolding le16_def by linarith

lemma unat_or_push16:
  "unat ((ucast (a :: u8) :: u16) OR push_bit 8 (ucast (b :: u8))) = le16 a b"
proof -
  have "(ucast a :: u16) AND push_bit 8 (ucast b) = 0"
    by (rule bit_word_eqI) (auto simp: bit_simps dest: bit_imp_le_length)
  then have "(ucast a :: u16) OR push_bit 8 (ucast b) = ucast a + push_bit 8 (ucast b)"
    by (simp add: disjunctive_add_eq_or)
  moreover have "unat (push_bit 8 (ucast b) :: u16) = 256 * unat b"
    using unat_u8_less [of b]
    by (simp add: push_bit_eq_mult unat_word_ariths del: unat_u8_less)
  ultimately show ?thesis
    using unat_u8_less [of a] unat_u8_less [of b]
    by (simp add: unat_word_ariths le16_def del: unat_u8_less)
qed

lemma load8_eq: "mapped m a 1 \<Longrightarrow> load8 m a = ret (the (m a))"
  by (simp add: load8_def mread_eq)

lemma load16_eq:
  "mapped m a 2 \<Longrightarrow> \<exists>w. load16 m a = ret w \<and> unat w = le16 (the (m a)) (the (m (Suc a)))"
  by (simp add: load16_def mread_eq unat_or_push16)

lemma unat_or_push32:
  "unat ((ucast (a :: u8) :: u32) OR push_bit 8 (ucast (b :: u8)) OR push_bit 16 (ucast (c :: u8))
     OR push_bit 24 (ucast (d :: u8))) = le16 a b + 65536 * le16 c d"
proof -
  have *: "unat (push_bit 16 (ucast (w :: u16)) :: u32) = 65536 * unat w" for w
    using unat_u16_less [of w]
    by (simp add: push_bit_eq_mult unat_word_ariths del: unat_u16_less)
  define u v where "u = (ucast a :: u16) OR push_bit 8 (ucast b)"
    and "v = (ucast c :: u16) OR push_bit 8 (ucast d)"
  have "(ucast a :: u32) OR push_bit 8 (ucast b) OR push_bit 16 (ucast c) OR push_bit 24 (ucast d)
    = ucast u OR push_bit 16 (ucast v)"
    by (rule bit_word_eqI) (auto simp: u_def v_def bit_simps dest: bit_imp_le_length)
  moreover have "(ucast u :: u32) AND push_bit 16 (ucast v) = 0"
    by (rule bit_word_eqI) (auto simp: bit_simps dest: bit_imp_le_length)
  then have "(ucast u :: u32) OR push_bit 16 (ucast v) = ucast u + push_bit 16 (ucast v)"
    by (simp add: disjunctive_add_eq_or)
  moreover have "unat u = le16 a b" "unat v = le16 c d"
    unfolding u_def v_def by (rule unat_or_push16)+
  ultimately show ?thesis
    using le16_less [of a b] le16_less [of c d]
    by (simp add: unat_word_ariths * del: le16_less)
qed

lemma load32_eq:
  "mapped m a 4 \<Longrightarrow> \<exists>w. load32 m a = ret w \<and>
     unat w = le16 (the (m a)) (the (m (a + 1))) + 65536 * le16 (the (m (a + 2))) (the (m (a + 3)))"
  by (simp add: load32_def mread_eq unat_or_push32)

end
