(* ===== verification/Memp.thy ===== *)
theory Memp
  imports Lwip_Prelude
begin

text \<open>
  The fixed-size memory pools of \<open>core/memp.c\<close> (\<open>MEMP_MEM_MALLOC = 0\<close>,
  \<open>MEMP_OVERFLOW_CHECK = 0\<close>, \<open>MEMP_STATS = 1\<close>).

  A pool descriptor is a record; the linked list \<open>*desc->tab\<close> of free elements is the
  list of their addresses. The locale \<open>pool_alloc\<close> states what clients of a pool rely on, and
  its lemma on sequences of allocations and releases is used through the interpretation on
  \<open>do_memp_malloc_pool\<close> and \<open>do_memp_free_pool\<close>.
\<close>

section \<open>Pools\<close>

text \<open>\<open>struct memp_desc\<close> with its \<open>struct stats_mem\<close>.\<close>

record memp_desc =
  esize :: u16
  num :: u16
  base :: nat
  tab :: "nat list"
  st_err :: u16
  st_avail :: usize
  st_used :: usize
  st_max :: usize

text \<open>The loop of \<open>memp_init_pool\<close> that links the elements (\<open>MEMP_SIZE = 0\<close>).\<close>

fun memp_link :: "nat \<Rightarrow> nat \<Rightarrow> nat \<Rightarrow> nat list \<Rightarrow> nat list" where
  "memp_link 0 memp step lst = lst"
| "memp_link (Suc i) memp step lst = memp_link i (memp + step) step (memp # lst)"

definition memp_init_pool :: "memp_desc \<Rightarrow> memp_desc" where
  "memp_init_pool desc =
     desc\<lparr>tab := memp_link (unat (num desc)) (base desc) (unat (esize desc)) [],
          st_avail := ucast (num desc)\<rparr>"

definition do_memp_malloc_pool :: "memp_desc \<Rightarrow> memp_desc \<times> nat option" where
  "do_memp_malloc_pool desc =
     (case tab desc of
        memp # rest \<Rightarrow>
          let used = st_used desc + 1 in
          (desc\<lparr>tab := rest, st_used := used,
                st_max := (if used > st_max desc then used else st_max desc)\<rparr>, Some memp)
      | [] \<Rightarrow> (desc\<lparr>st_err := st_err desc + 1\<rparr>, None))"

definition do_memp_free_pool :: "memp_desc \<Rightarrow> nat \<Rightarrow> memp_desc" where
  "do_memp_free_pool desc mem =
     desc\<lparr>st_used := st_used desc - 1, tab := mem # tab desc\<rparr>"

definition memp_malloc_pool :: "memp_desc option \<Rightarrow> (memp_desc \<times> nat option) res" where
  "memp_malloc_pool d =
     (case d of None \<Rightarrow> fault Assertion | Some desc \<Rightarrow> ret (do_memp_malloc_pool desc))"

definition memp_free_pool :: "memp_desc option \<Rightarrow> nat option \<Rightarrow> memp_desc res" where
  "memp_free_pool d mem =
     (case d of None \<Rightarrow> fault Assertion
      | Some desc \<Rightarrow> (case mem of None \<Rightarrow> ret desc | Some m \<Rightarrow> ret (do_memp_free_pool desc m)))"

text \<open>
  The pools by type: \<open>memp_pools\<close> is a list, and an index outside it is the \<open>LWIP_ERROR\<close>
  branch of \<open>memp_malloc\<close> and \<open>memp_free\<close>.
\<close>

type_synonym memp_pools = "memp_desc list"

definition memp_init :: "memp_pools \<Rightarrow> memp_pools" where
  "memp_init pools = map memp_init_pool pools"

definition memp_malloc :: "memp_pools \<Rightarrow> nat \<Rightarrow> memp_pools \<times> nat option" where
  "memp_malloc pools type =
     (if type < length pools
      then (case do_memp_malloc_pool (pools ! type) of (d, m) \<Rightarrow> (pools[type := d], m))
      else (pools, None))"

definition memp_free :: "memp_pools \<Rightarrow> nat \<Rightarrow> nat option \<Rightarrow> memp_pools" where
  "memp_free pools type mem =
     (if type < length pools then
        (case mem of None \<Rightarrow> pools
         | Some m \<Rightarrow> pools[type := do_memp_free_pool (pools ! type) m])
      else pools)"

section \<open>The contract of an allocator\<close>

text \<open>
  Sequences of allocations and releases from an initial pool, with the set of elements that
  are handed out: only an element that is handed out is released.
\<close>

inductive alloc_reach ::
  "('p \<Rightarrow> 'p \<times> 'a option) \<Rightarrow> ('p \<Rightarrow> 'a \<Rightarrow> 'p) \<Rightarrow> 'p \<Rightarrow> 'p \<Rightarrow> 'a set \<Rightarrow> bool"
  for malloc release p0
where
  reach_init: "alloc_reach malloc release p0 p0 {}"
| reach_malloc: "alloc_reach malloc release p0 p out \<Longrightarrow> malloc p = (p', Some a) \<Longrightarrow>
    alloc_reach malloc release p0 p' (insert a out)"
| reach_empty: "alloc_reach malloc release p0 p out \<Longrightarrow> malloc p = (p', None) \<Longrightarrow>
    alloc_reach malloc release p0 p' out"
| reach_free: "alloc_reach malloc release p0 p out \<Longrightarrow> a \<in> out \<Longrightarrow>
    alloc_reach malloc release p0 (release p a) (out - {a})"

locale pool_alloc =
  fixes malloc :: "'p \<Rightarrow> 'p \<times> 'a option"
    and release :: "'p \<Rightarrow> 'a \<Rightarrow> 'p"
    and avail :: "'p \<Rightarrow> 'a set"
    and used :: "'p \<Rightarrow> nat"
    and invar :: "'p \<Rightarrow> bool"
    and cap :: "'p \<Rightarrow> nat"
  assumes malloc_Some: "invar p \<Longrightarrow> malloc p = (p', Some a) \<Longrightarrow>
      invar p' \<and> a \<in> avail p \<and> avail p' = avail p - {a} \<and> cap p' = cap p"
    and malloc_used: "invar p \<Longrightarrow> malloc p = (p', Some a) \<Longrightarrow> used p < cap p \<Longrightarrow>
      used p' = Suc (used p)"
    and malloc_None: "invar p \<Longrightarrow> malloc p = (p', None) \<Longrightarrow>
      invar p' \<and> avail p = {} \<and> avail p' = {} \<and> used p' = used p \<and> cap p' = cap p"
    and release: "invar p \<Longrightarrow> a \<notin> avail p \<Longrightarrow>
      invar (release p a) \<and> avail (release p a) = insert a (avail p) \<and> cap (release p a) = cap p"
    and release_used: "invar p \<Longrightarrow> 0 < used p \<Longrightarrow> used (release p a) = used p - 1"
    and finite_avail: "invar p \<Longrightarrow> finite (avail p)"
begin

lemma reach_invariant:
  assumes "alloc_reach malloc release p0 p out"
    and "invar p0" and "used p0 = 0" and "card (avail p0) \<le> cap p0"
  shows "invar p \<and> finite out \<and> out \<inter> avail p = {} \<and> out \<union> avail p = avail p0 \<and>
    used p = card out \<and> cap p = cap p0"
  using assms
proof (induction rule: alloc_reach.induct)
  case reach_init
  then show ?case by simp
next
  case (reach_malloc p out p' a)
  then have IH: "invar p" "finite out" "out \<inter> avail p = {}" "out \<union> avail p = avail p0"
    "used p = card out" "cap p = cap p0" by auto
  from malloc_Some [OF IH(1) reach_malloc.hyps(2)]
  have a: "a \<in> avail p" "invar p'" "avail p' = avail p - {a}" "cap p' = cap p" by auto
  from a IH have "a \<notin> out" by auto
  moreover from this a(1) IH have "card (insert a out) \<le> card (avail p0)"
    using finite_avail [OF reach_malloc.prems(1)] by (intro card_mono) auto
  ultimately have "card out < cap p" using IH reach_malloc.prems by simp
  with malloc_used [OF IH(1) reach_malloc.hyps(2)] have "used p' = card (insert a out)"
    using IH \<open>a \<notin> out\<close> by simp
  with a IH show ?case by auto
next
  case (reach_empty p out p')
  then show ?case using malloc_None [of p p'] by auto
next
  case (reach_free p out a)
  then have IH: "invar p" "finite out" "out \<inter> avail p = {}" "out \<union> avail p = avail p0"
    "used p = card out" "cap p = cap p0" by auto
  from reach_free.hyps(2) IH have "a \<notin> avail p" "0 < used p" by (auto simp: card_gt_0_iff)
  with release [OF IH(1)] release_used [OF IH(1)] IH reach_free.hyps(2) show ?case
    by (auto simp: card_Diff_singleton)
qed

lemma no_double_alloc:
  assumes "alloc_reach malloc release p0 p out"
    and "invar p0" and "used p0 = 0" and "card (avail p0) \<le> cap p0"
  shows "case malloc p of
      (_, Some a) \<Rightarrow> a \<in> avail p0 \<and> a \<notin> out
    | (_, None) \<Rightarrow> out = avail p0"
proof -
  note inv = reach_invariant [OF assms]
  obtain p' r where r: "malloc p = (p', r)" by (cases "malloc p")
  show ?thesis
  proof (cases r)
    case None
    with r malloc_None [of p p'] inv have "avail p = {}" by simp
    with inv r None show ?thesis by auto
  next
    case (Some a)
    with r malloc_Some [of p p' a] inv have "a \<in> avail p" by simp
    with inv r Some show ?thesis by auto
  qed
qed

end

section \<open>The pools of memp.c meet the contract\<close>

lemma memp_link_spec:
  "memp_link n memp step lst = rev (map (\<lambda>i. memp + i * step) [0..<n]) @ lst"
proof (induction n memp step lst rule: memp_link.induct)
  case (2 i memp step lst)
  have "map (\<lambda>k. memp + k * step) [0..<Suc i] = memp # map (\<lambda>k. memp + step + k * step) [0..<i]"
    by (subst upt_conv_Cons) (auto simp: map_Suc_upt [symmetric] simp del: upt_Suc)
  with 2 show ?case by (simp del: upt_Suc)
qed simp

definition elements :: "memp_desc \<Rightarrow> nat set" where
  "elements d = {base d + i * unat (esize d) | i. i < unat (num d)}"

definition memp_invar :: "memp_desc \<Rightarrow> bool" where
  "memp_invar d \<longleftrightarrow> distinct (tab d)"

lemma memp_init_pool_tab:
  assumes "0 < esize d"
  shows "distinct (tab (memp_init_pool d))" "set (tab (memp_init_pool d)) = elements d"
    "length (tab (memp_init_pool d)) = unat (num d)"
proof -
  have "0 < unat (esize d)" using assms by (simp add: word_less_nat_alt)
  then show "distinct (tab (memp_init_pool d))"
    by (auto simp: memp_init_pool_def memp_link_spec distinct_map inj_on_def)
  show "set (tab (memp_init_pool d)) = elements d"
    by (auto simp: memp_init_pool_def memp_link_spec elements_def)
  show "length (tab (memp_init_pool d)) = unat (num d)"
    by (simp add: memp_init_pool_def memp_link_spec)
qed

lemma unat_usize_inc: "unat (x :: usize) < unat (n :: u16) \<Longrightarrow> unat (x + 1) = Suc (unat x)"
  using unat_u16_less [of n] by (simp add: unat_word_ariths del: unat_u16_less)

lemma unat_usize_dec: "0 < unat (x :: usize) \<Longrightarrow> unat (x - 1) = unat x - 1"
  by (simp add: unat_sub word_le_nat_alt)

interpretation memp: pool_alloc do_memp_malloc_pool do_memp_free_pool "\<lambda>d. set (tab d)"
  "\<lambda>d. unat (st_used d)" memp_invar "\<lambda>d. unat (num d)"
proof
  fix p p' a
  show "memp_invar p' \<and> a \<in> set (tab p) \<and> set (tab p') = set (tab p) - {a} \<and>
      unat (num p') = unat (num p)"
    if "memp_invar p" and "do_memp_malloc_pool p = (p', Some a)"
    using that by (auto simp: do_memp_malloc_pool_def memp_invar_def Let_def split: list.splits)
  show "unat (st_used p') = Suc (unat (st_used p))"
    if "memp_invar p" and "do_memp_malloc_pool p = (p', Some a)" and "unat (st_used p) < unat (num p)"
    using that(2) unat_usize_inc [OF that(3)]
    by (auto simp: do_memp_malloc_pool_def Let_def split: list.splits)
  show "memp_invar p' \<and> set (tab p) = {} \<and> set (tab p') = {} \<and>
      unat (st_used p') = unat (st_used p) \<and> unat (num p') = unat (num p)"
    if "memp_invar p" and "do_memp_malloc_pool p = (p', None)"
    using that by (auto simp: do_memp_malloc_pool_def memp_invar_def Let_def split: list.splits)
  show "memp_invar (do_memp_free_pool p a) \<and>
      set (tab (do_memp_free_pool p a)) = insert a (set (tab p)) \<and>
      unat (num (do_memp_free_pool p a)) = unat (num p)"
    if "memp_invar p" and "a \<notin> set (tab p)"
    using that by (simp add: do_memp_free_pool_def memp_invar_def)
  show "unat (st_used (do_memp_free_pool p a)) = unat (st_used p) - 1"
    if "memp_invar p" and "0 < unat (st_used p)"
    using unat_usize_dec [OF that(2)] by (simp add: do_memp_free_pool_def)
qed simp

text \<open>
  C1: however allocations and releases on an initialised pool are interleaved, the elements
  handed out are elements of the pool, their number is the \<open>used\<close> counter of the
  statistics, a further allocation hands out an element that is not handed out already, and it
  fails only when every element of the pool is handed out.
\<close>

theorem memp_no_double_alloc:
  assumes "0 < esize d" and "st_used d = 0"
    and "alloc_reach do_memp_malloc_pool do_memp_free_pool (memp_init_pool d) p out"
  shows "out \<subseteq> elements d \<and> unat (st_used p) = card out \<and>
    (case do_memp_malloc_pool p of
       (_, Some a) \<Rightarrow> a \<in> elements d \<and> a \<notin> out
     | (_, None) \<Rightarrow> out = elements d)"
proof -
  note init = memp_init_pool_tab [OF assms(1)]
  have "memp_invar (memp_init_pool d)" "unat (st_used (memp_init_pool d)) = 0"
    "unat (num (memp_init_pool d)) = unat (num d)"
    using init(1) assms(2) by (simp_all add: memp_invar_def) (simp_all add: memp_init_pool_def)
  moreover from this(3) have "card (set (tab (memp_init_pool d))) \<le> unat (num (memp_init_pool d))"
    using init(3) card_length [of "tab (memp_init_pool d)"] by simp
  ultimately have i: "memp_invar (memp_init_pool d)" "unat (st_used (memp_init_pool d)) = 0"
    "card (set (tab (memp_init_pool d))) \<le> unat (num (memp_init_pool d))" by auto
  from memp.reach_invariant [OF assms(3) i] memp.no_double_alloc [OF assms(3) i]
  show ?thesis unfolding init(2) by blast
qed

definition example_pool :: memp_desc where
  "example_pool = \<lparr>esize = 16, num = 2, base = 1000, tab = [], st_err = 0, st_avail = 0,
     st_used = 0, st_max = 0\<rparr>"

theorem memp_no_double_alloc_witness:
  "\<exists>p. {1016} \<subseteq> elements example_pool \<and> unat (st_used p) = card {1016 :: nat} \<and>
    (case do_memp_malloc_pool p of
       (_, Some a) \<Rightarrow> a \<in> elements example_pool \<and> a \<notin> {1016}
     | (_, None) \<Rightarrow> {1016} = elements example_pool)"
proof -
  let ?d = "memp_init_pool example_pool"
  have "snd (do_memp_malloc_pool ?d) = Some 1016" by code_simp
  then have "do_memp_malloc_pool ?d = (fst (do_memp_malloc_pool ?d), Some 1016)"
    by (metis prod.collapse)
  then have reach: "alloc_reach do_memp_malloc_pool do_memp_free_pool ?d
      (fst (do_memp_malloc_pool ?d)) {1016}"
    by (rule reach_malloc [OF reach_init])
  have "0 < esize example_pool" "st_used example_pool = 0"
    by (simp_all add: example_pool_def)
  from memp_no_double_alloc [OF this reach] show ?thesis by (rule exI)
qed

end
