(* ===== verification/Pbuf.thy ===== *)
theory Pbuf
  imports Lwip_Mem Memp
begin

text \<open>
  Packet buffers: the operations of \<open>core/pbuf.c\<close>, with the three functions of \<open>core/mem.c\<close>
  they use (\<open>MEM_LIBC_MALLOC = 1\<close>, \<open>MEM_ALIGNMENT = 1\<close>).

  A pointer to a \<open>struct pbuf\<close> is an address (\<open>None\<close> is \<open>NULL\<close>); \<open>pbufs\<close> maps the
  addresses of live \<open>struct pbuf\<close>s to their fields, so that a use after free is a
  \<open>Bad_pointer\<close> fault. \<open>payload\<close> is an address into \<open>memory\<close>, the bytes outside the
  structs (0 is \<open>NULL\<close>). The \<open>struct pbuf\<close> of a contiguous pbuf at address \<open>a\<close> occupies
  \<open>a ..< a + 24\<close> and its data follows.

  The kernel's \<open>malloc\<close>, the \<open>custom_free_function\<close>s and \<open>tcpip_try_callback\<close> are
  parameters, collected in the record \<open>penv\<close>. Loops that follow \<open>next\<close> pointers are
  \<open>partial_function\<close>s: on a cyclic chain they do not return.
\<close>

section \<open>Data\<close>

text \<open>\<open>struct pbuf\<close>, the \<open>pbuf_layer\<close> and \<open>pbuf_type\<close> enumerations and the flags.\<close>

record pbuf =
  pnext :: "nat option"
  payload :: nat
  tot_len :: u16
  len :: u16
  type_internal :: u8
  flags :: u8
  ref :: u8
  if_idx :: u8

abbreviation (input) PBUF_TRANSPORT :: u16 where "PBUF_TRANSPORT \<equiv> 54"
abbreviation (input) PBUF_IP :: u16 where "PBUF_IP \<equiv> 34"
abbreviation (input) PBUF_LINK :: u16 where "PBUF_LINK \<equiv> 14"
abbreviation (input) PBUF_RAW_TX :: u16 where "PBUF_RAW_TX \<equiv> 0"
abbreviation (input) PBUF_RAW :: u16 where "PBUF_RAW \<equiv> 0"

abbreviation (input) PBUF_RAM :: u16 where "PBUF_RAM \<equiv> 0x280"
abbreviation (input) PBUF_ROM :: u16 where "PBUF_ROM \<equiv> 0x01"
abbreviation (input) PBUF_REF :: u16 where "PBUF_REF \<equiv> 0x41"
abbreviation (input) PBUF_POOL :: u16 where "PBUF_POOL \<equiv> 0x182"

abbreviation (input) PBUF_TYPE_FLAG_STRUCT_DATA_CONTIGUOUS :: u8 where
  "PBUF_TYPE_FLAG_STRUCT_DATA_CONTIGUOUS \<equiv> 0x80"
abbreviation (input) PBUF_TYPE_ALLOC_SRC_MASK :: u8 where "PBUF_TYPE_ALLOC_SRC_MASK \<equiv> 0x0F"
abbreviation (input) ALLOC_SRC_HEAP :: u8 where "ALLOC_SRC_HEAP \<equiv> 0"
abbreviation (input) ALLOC_SRC_MEMP_PBUF :: u8 where "ALLOC_SRC_MEMP_PBUF \<equiv> 1"
abbreviation (input) ALLOC_SRC_MEMP_PBUF_POOL :: u8 where "ALLOC_SRC_MEMP_PBUF_POOL \<equiv> 2"

abbreviation (input) PBUF_FLAG_IS_CUSTOM :: u8 where "PBUF_FLAG_IS_CUSTOM \<equiv> 0x02"

abbreviation (input) SIZEOF_STRUCT_PBUF :: nat where "SIZEOF_STRUCT_PBUF \<equiv> 24"
abbreviation (input) PBUF_POOL_BUFSIZE_ALIGNED :: u16 where "PBUF_POOL_BUFSIZE_ALIGNED \<equiv> 590"

text \<open>
  The state the functions share. \<open>blocks\<close> holds the blocks handed out by \<open>malloc\<close> with
  their sizes, \<open>custom_free_function\<close> the member of that name of the \<open>struct pbuf_custom\<close>s and
  \<open>original\<close> that of the \<open>struct pbuf_custom_ref\<close>s, which come from the pool \<open>memp_frag_pbuf\<close>.
\<close>

record pstate =
  pbufs :: "nat \<rightharpoonup> pbuf"
  memory :: bytes
  blocks :: "nat \<rightharpoonup> nat"
  memp_pbuf :: memp_desc
  memp_pbuf_pool :: memp_desc
  custom_free_function :: "nat \<rightharpoonup> nat"
  memp_frag_pbuf :: memp_desc
  original :: "nat \<rightharpoonup> nat option"
  pbuf_free_ooseq_pending :: u8

record penv =
  malloc :: "pstate \<Rightarrow> nat \<Rightarrow> (nat \<times> u8 list) option"
  run_custom_free :: "nat \<Rightarrow> nat \<Rightarrow> pstate \<Rightarrow> pstate res"
  tcpip_try_callback :: "pstate \<Rightarrow> err_t"

definition deref :: "pstate \<Rightarrow> nat option \<Rightarrow> pbuf res" where
  "deref s p = (case p of None \<Rightarrow> fault Bad_pointer
     | Some a \<Rightarrow> (case pbufs s a of None \<Rightarrow> fault Bad_pointer | Some b \<Rightarrow> ret b))"

definition upd :: "pstate \<Rightarrow> nat \<Rightarrow> pbuf \<Rightarrow> pstate" where
  "upd s a b = s\<lparr>pbufs := (pbufs s)(a \<mapsto> b)\<rparr>"

definition memcpy :: "pstate \<Rightarrow> nat \<Rightarrow> nat \<Rightarrow> nat \<Rightarrow> pstate res" where
  "memcpy s dst src n =
     bindR (memcpy_bytes (memory s) dst src n) (\<lambda>m. ret (s\<lparr>memory := m\<rparr>))"

section \<open>mem.c\<close>

definition mem_malloc :: "penv \<Rightarrow> pstate \<Rightarrow> nat \<Rightarrow> pstate \<times> nat option" where
  "mem_malloc E s sz =
     (case malloc E s sz of
        None \<Rightarrow> (s, None)
      | Some (a, xs) \<Rightarrow>
          (s\<lparr>memory := (\<lambda>k. if a \<le> k \<and> k < a + sz then Some (xs ! (k - a)) else memory s k),
             blocks := (blocks s)(a \<mapsto> sz)\<rparr>, Some a))"

definition mem_free :: "pstate \<Rightarrow> nat \<Rightarrow> pstate res" where
  "mem_free s rmem =
     (case blocks s rmem of
        None \<Rightarrow> fault Bad_pointer
      | Some sz \<Rightarrow>
          ret (s\<lparr>pbufs := (pbufs s)(rmem := None),
                 memory := (\<lambda>k. if rmem \<le> k \<and> k < rmem + sz then None else memory s k),
                 blocks := (blocks s)(rmem := None)\<rparr>))"

definition mem_trim :: "nat \<Rightarrow> nat \<Rightarrow> nat" where
  "mem_trim mem sz = mem"

section \<open>Allocation and release\<close>

definition pbuf_pool_is_empty :: "penv \<Rightarrow> pstate \<Rightarrow> pstate" where
  "pbuf_pool_is_empty E s =
     (let queued = pbuf_free_ooseq_pending s;
          s1 = s\<lparr>pbuf_free_ooseq_pending := 1\<rparr>
      in if queued = 0
         then (if tcpip_try_callback E s1 \<noteq> ERR_OK then s1\<lparr>pbuf_free_ooseq_pending := 0\<rparr> else s1)
         else s1)"

text \<open>
  Writing the fields turns the first bytes at \<open>p\<close> into a \<open>struct pbuf\<close>: they are no
  longer data.
\<close>

definition pbuf_init_alloced_pbuf ::
  "pstate \<Rightarrow> nat \<Rightarrow> nat \<Rightarrow> u16 \<Rightarrow> u16 \<Rightarrow> u16 \<Rightarrow> u8 \<Rightarrow> pstate" where
  "pbuf_init_alloced_pbuf s p pl tlen l type fl =
     s\<lparr>pbufs := (pbufs s)(p \<mapsto> \<lparr>pnext = None, payload = pl, tot_len = tlen, len = l,
                               type_internal = ucast type, flags = fl, ref = 1, if_idx = 0\<rparr>),
       memory := (\<lambda>k. if p \<le> k \<and> k < p + SIZEOF_STRUCT_PBUF then None else memory s k)\<rparr>"

definition pbuf_get_allocsrc :: "pbuf \<Rightarrow> u8" where
  "pbuf_get_allocsrc b = type_internal b AND PBUF_TYPE_ALLOC_SRC_MASK"

definition pbuf_match_allocsrc :: "pbuf \<Rightarrow> u8 \<Rightarrow> bool" where
  "pbuf_match_allocsrc b type \<longleftrightarrow> pbuf_get_allocsrc b = type AND PBUF_TYPE_ALLOC_SRC_MASK"

text \<open>The deallocation of one pbuf inside \<open>pbuf_free\<close>.\<close>

definition pbuf_dealloc :: "penv \<Rightarrow> pstate \<Rightarrow> nat \<Rightarrow> pbuf \<Rightarrow> pstate res" where
  "pbuf_dealloc E s p b =
     (if flags b AND PBUF_FLAG_IS_CUSTOM \<noteq> 0 then
        (case custom_free_function s p of
           None \<Rightarrow> fault Assertion
         | Some fn \<Rightarrow> run_custom_free E fn p s)
      else if pbuf_get_allocsrc b = ALLOC_SRC_MEMP_PBUF_POOL then
        ret (s\<lparr>memp_pbuf_pool := do_memp_free_pool (memp_pbuf_pool s) p,
               pbufs := (pbufs s)(p := None)\<rparr>)
      else if pbuf_get_allocsrc b = ALLOC_SRC_MEMP_PBUF then
        ret (s\<lparr>memp_pbuf := do_memp_free_pool (memp_pbuf s) p,
               pbufs := (pbufs s)(p := None)\<rparr>)
      else if pbuf_get_allocsrc b = ALLOC_SRC_HEAP then mem_free s p
      else fault Assertion)"

partial_function (option) pbuf_free_loop ::
  "penv \<Rightarrow> pstate \<Rightarrow> nat option \<Rightarrow> u8 \<Rightarrow> (pstate \<times> u8) res" where
  "pbuf_free_loop E s p count =
     (case p of
        None \<Rightarrow> ret (s, count)
      | Some a \<Rightarrow>
          bindR (deref s p) (\<lambda>b.
          bindR (lwip_assert (ref b > 0)) (\<lambda>_.
          if ref b - 1 = 0 then
            bindR (pbuf_dealloc E (upd s a (b\<lparr>ref := ref b - 1\<rparr>)) a b) (\<lambda>s'.
            pbuf_free_loop E s' (pnext b) (count + 1))
          else ret (upd s a (b\<lparr>ref := ref b - 1\<rparr>), count))))"

definition pbuf_free :: "penv \<Rightarrow> pstate \<Rightarrow> nat option \<Rightarrow> (pstate \<times> u8) res" where
  "pbuf_free E s p = (if p = None then fault Assertion else pbuf_free_loop E s p 0)"

definition pbuf_alloc_reference ::
  "pstate \<Rightarrow> nat \<Rightarrow> u16 \<Rightarrow> u16 \<Rightarrow> (pstate \<times> nat option) res" where
  "pbuf_alloc_reference s pl leng type =
     bindR (lwip_assert (type = PBUF_REF \<or> type = PBUF_ROM)) (\<lambda>_.
     (case do_memp_malloc_pool (memp_pbuf s) of
        (d, None) \<Rightarrow> ret (s\<lparr>memp_pbuf := d\<rparr>, None)
      | (d, Some p) \<Rightarrow>
          ret (pbuf_init_alloced_pbuf (s\<lparr>memp_pbuf := d\<rparr>) p pl leng leng type 0, Some p)))"

text \<open>The \<open>do ... while\<close> loop of the \<open>PBUF_POOL\<close> case of \<open>pbuf_alloc\<close>.\<close>

partial_function (option) pbuf_alloc_pool ::
  "penv \<Rightarrow> pstate \<Rightarrow> nat option \<Rightarrow> nat \<Rightarrow> u16 \<Rightarrow> u16 \<Rightarrow> (pstate \<times> nat option) res" where
  "pbuf_alloc_pool E s p prev rem_len offset =
     (case do_memp_malloc_pool (memp_pbuf_pool s) of
        (d, None) \<Rightarrow>
          (let s1 = pbuf_pool_is_empty E (s\<lparr>memp_pbuf_pool := d\<rparr>) in
           if p \<noteq> None then bindR (pbuf_free E s1 p) (\<lambda>(s2, _). ret (s2, None))
           else ret (s1, None))
      | (d, Some q) \<Rightarrow>
          (let qlen = min rem_len (PBUF_POOL_BUFSIZE_ALIGNED - offset);
               s1 = pbuf_init_alloced_pbuf (s\<lparr>memp_pbuf_pool := d\<rparr>) q
                      (q + SIZEOF_STRUCT_PBUF + unat offset) rem_len qlen PBUF_POOL 0
           in bindR (lwip_assert (PBUF_POOL_BUFSIZE_ALIGNED - offset > 0)) (\<lambda>_.
              bindR (if p = None then ret s1
                     else bindR (deref s1 (Some prev)) (\<lambda>b.
                          ret (upd s1 prev (b\<lparr>pnext := Some q\<rparr>)))) (\<lambda>s2.
              if rem_len - qlen > 0
              then pbuf_alloc_pool E s2 (if p = None then Some q else p) q (rem_len - qlen) 0
              else ret (s2, if p = None then Some q else p)))))"

definition pbuf_alloc ::
  "penv \<Rightarrow> pstate \<Rightarrow> u16 \<Rightarrow> u16 \<Rightarrow> u16 \<Rightarrow> (pstate \<times> nat option) res" where
  "pbuf_alloc E s layer leng type =
     (if type = PBUF_REF \<or> type = PBUF_ROM then pbuf_alloc_reference s 0 leng type
      else if type = PBUF_POOL then pbuf_alloc_pool E s None 0 leng layer
      else if type = PBUF_RAM then
        (let payload_len = ucast layer + ucast leng :: usize;
             alloc_len = of_nat SIZEOF_STRUCT_PBUF + payload_len :: usize
         in if payload_len < ucast leng \<or> alloc_len < ucast leng then ret (s, None)
            else (case mem_malloc E s (unat alloc_len) of
                    (s1, None) \<Rightarrow> ret (s1, None)
                  | (s1, Some p) \<Rightarrow>
                      ret (pbuf_init_alloced_pbuf s1 p (p + SIZEOF_STRUCT_PBUF + unat layer)
                             leng leng type 0, Some p)))
      else fault Assertion)"

definition pbuf_alloced_custom ::
  "pstate \<Rightarrow> u16 \<Rightarrow> u16 \<Rightarrow> u16 \<Rightarrow> nat \<Rightarrow> nat \<Rightarrow> u16 \<Rightarrow> pstate \<times> nat option" where
  "pbuf_alloced_custom s l leng type p payload_mem payload_mem_len =
     (if unat l + unat leng > unat payload_mem_len then (s, None)
      else (pbuf_init_alloced_pbuf s p
              (if payload_mem \<noteq> 0 then payload_mem + unat l else 0)
              leng leng type PBUF_FLAG_IS_CUSTOM, Some p))"

section \<open>Resizing and headers\<close>

text \<open>The loop of \<open>pbuf_realloc\<close> that steps over the pbufs to keep.\<close>

partial_function (option) pbuf_realloc_loop ::
  "pstate \<Rightarrow> nat \<Rightarrow> u16 \<Rightarrow> u16 \<Rightarrow> (pstate \<times> nat \<times> u16) res" where
  "pbuf_realloc_loop s q rem_len shrink =
     bindR (deref s (Some q)) (\<lambda>b.
     if rem_len > len b then
       (let s1 = upd s q (b\<lparr>tot_len := tot_len b - shrink\<rparr>) in
        case pnext b of
          None \<Rightarrow> fault Assertion
        | Some q' \<Rightarrow> pbuf_realloc_loop s1 q' (rem_len - len b) shrink)
     else ret (s, q, rem_len))"

definition pbuf_realloc :: "penv \<Rightarrow> pstate \<Rightarrow> nat option \<Rightarrow> u16 \<Rightarrow> pstate res" where
  "pbuf_realloc E s p new_len =
     (case p of
        None \<Rightarrow> fault Assertion
      | Some a \<Rightarrow>
          bindR (deref s p) (\<lambda>b.
          if new_len \<ge> tot_len b then ret s
          else
            bindR (pbuf_realloc_loop s a new_len (tot_len b - new_len)) (\<lambda>(s1, q, rem_len).
            bindR (deref s1 (Some q)) (\<lambda>c.
            bindR (if pbuf_match_allocsrc c ALLOC_SRC_HEAP \<and> rem_len \<noteq> len c \<and>
                      flags c AND PBUF_FLAG_IS_CUSTOM = 0
                   then lwip_assert (mem_trim q (payload c - q + unat rem_len) = q)
                   else ret ()) (\<lambda>_.
            let c1 = c\<lparr>len := rem_len, tot_len := rem_len\<rparr>;
                s2 = upd s1 q c1
            in bindR (if pnext c1 \<noteq> None then bindR (pbuf_free E s2 (pnext c1)) (\<lambda>(s3, _). ret s3)
                      else ret s2) (\<lambda>s3.
               bindR (deref s3 (Some q)) (\<lambda>c2.
               ret (upd s3 q (c2\<lparr>pnext := None\<rparr>)))))))))"

text \<open>
  The boundary check compares addresses: in the truncated subtraction of addresses a payload
  that would start below address 0 is below the end of the struct as well.
\<close>

definition pbuf_add_header_impl ::
  "pstate \<Rightarrow> nat option \<Rightarrow> usize \<Rightarrow> bool \<Rightarrow> (pstate \<times> u8) res" where
  "pbuf_add_header_impl s p header_size_increment force =
     (case p of
        None \<Rightarrow> fault Assertion
      | Some a \<Rightarrow>
          if header_size_increment > 0xFFFF then ret (s, 1)
          else if header_size_increment = 0 then ret (s, 0)
          else
            bindR (deref s p) (\<lambda>b.
            let increment_magnitude = ucast header_size_increment :: u16;
                b1 = b\<lparr>payload := payload b - unat header_size_increment,
                       len := len b + increment_magnitude,
                       tot_len := tot_len b + increment_magnitude\<rparr>
            in if increment_magnitude + tot_len b < increment_magnitude then ret (s, 1)
               else if type_internal b AND PBUF_TYPE_FLAG_STRUCT_DATA_CONTIGUOUS \<noteq> 0 then
                 (if payload b - unat header_size_increment < a + SIZEOF_STRUCT_PBUF then ret (s, 1)
                  else ret (upd s a b1, 0))
               else if force then
                 (if payload b < unat header_size_increment then fault Out_of_bounds
                  else ret (upd s a b1, 0))
               else ret (s, 1)))"

definition pbuf_add_header :: "pstate \<Rightarrow> nat option \<Rightarrow> usize \<Rightarrow> (pstate \<times> u8) res" where
  "pbuf_add_header s p header_size_increment = pbuf_add_header_impl s p header_size_increment False"

definition pbuf_add_header_force :: "pstate \<Rightarrow> nat option \<Rightarrow> usize \<Rightarrow> (pstate \<times> u8) res" where
  "pbuf_add_header_force s p header_size_increment =
     pbuf_add_header_impl s p header_size_increment True"

definition pbuf_remove_header :: "pstate \<Rightarrow> nat option \<Rightarrow> usize \<Rightarrow> (pstate \<times> u8) res" where
  "pbuf_remove_header s p header_size_decrement =
     (case p of
        None \<Rightarrow> fault Assertion
      | Some a \<Rightarrow>
          if header_size_decrement > 0xFFFF then ret (s, 1)
          else if header_size_decrement = 0 then ret (s, 0)
          else
            bindR (deref s p) (\<lambda>b.
            let increment_magnitude = ucast header_size_decrement :: u16 in
            if \<not> increment_magnitude \<le> len b then ret (s, 1)
            else ret (upd s a (b\<lparr>payload := payload b + unat header_size_decrement,
                                 len := len b - increment_magnitude,
                                 tot_len := tot_len b - increment_magnitude\<rparr>), 0)))"

definition pbuf_header_impl :: "pstate \<Rightarrow> nat option \<Rightarrow> u16 \<Rightarrow> bool \<Rightarrow> (pstate \<times> u8) res" where
  "pbuf_header_impl s p header_size_increment force =
     (if sint header_size_increment < 0
      then pbuf_remove_header s p (of_int (- sint header_size_increment))
      else pbuf_add_header_impl s p (of_int (sint header_size_increment)) force)"

definition pbuf_header :: "pstate \<Rightarrow> nat option \<Rightarrow> u16 \<Rightarrow> (pstate \<times> u8) res" where
  "pbuf_header s p header_size_increment = pbuf_header_impl s p header_size_increment False"

definition pbuf_header_force :: "pstate \<Rightarrow> nat option \<Rightarrow> u16 \<Rightarrow> (pstate \<times> u8) res" where
  "pbuf_header_force s p header_size_increment = pbuf_header_impl s p header_size_increment True"

partial_function (option) pbuf_free_header ::
  "penv \<Rightarrow> pstate \<Rightarrow> nat option \<Rightarrow> u16 \<Rightarrow> (pstate \<times> nat option) res" where
  "pbuf_free_header E s p free_left =
     (if free_left \<noteq> 0 \<and> p \<noteq> None then
        bindR (deref s p) (\<lambda>b.
        if free_left \<ge> len b then
          bindR (pbuf_free E (upd s (the p) (b\<lparr>pnext := None\<rparr>)) p) (\<lambda>r.
          pbuf_free_header E (fst r) (pnext b) (free_left - len b))
        else
          bindR (pbuf_remove_header s p (ucast free_left)) (\<lambda>r.
          pbuf_free_header E (fst r) p 0))
      else ret (s, p))"

section \<open>Chains\<close>

partial_function (option) pbuf_clen_loop :: "pstate \<Rightarrow> nat option \<Rightarrow> u16 \<Rightarrow> u16 res" where
  "pbuf_clen_loop s p n =
     (case p of
        None \<Rightarrow> ret n
      | Some _ \<Rightarrow> bindR (deref s p) (\<lambda>b. pbuf_clen_loop s (pnext b) (n + 1)))"

definition pbuf_clen :: "pstate \<Rightarrow> nat option \<Rightarrow> u16 res" where
  "pbuf_clen s p = pbuf_clen_loop s p 0"

definition pbuf_ref :: "pstate \<Rightarrow> nat option \<Rightarrow> pstate res" where
  "pbuf_ref s p =
     (case p of
        None \<Rightarrow> ret s
      | Some a \<Rightarrow>
          bindR (deref s p) (\<lambda>b.
          bindR (lwip_assert (ref b + 1 > 0)) (\<lambda>_.
          ret (upd s a (b\<lparr>ref := ref b + 1\<rparr>)))))"

partial_function (option) pbuf_cat_loop ::
  "pstate \<Rightarrow> nat \<Rightarrow> nat \<Rightarrow> (pstate \<times> nat) res" where
  "pbuf_cat_loop s p t =
     bindR (deref s (Some p)) (\<lambda>b.
     case pnext b of
       None \<Rightarrow> ret (s, p)
     | Some p' \<Rightarrow>
         bindR (deref s (Some t)) (\<lambda>c.
         pbuf_cat_loop (upd s p (b\<lparr>tot_len := tot_len b + tot_len c\<rparr>)) p' t))"

definition pbuf_cat :: "pstate \<Rightarrow> nat option \<Rightarrow> nat option \<Rightarrow> pstate res" where
  "pbuf_cat s h t =
     (case (h, t) of
        (Some h', Some t') \<Rightarrow>
          bindR (lwip_assert (h' \<noteq> t')) (\<lambda>_.
          bindR (pbuf_cat_loop s h' t') (\<lambda>(s1, p).
          bindR (deref s1 (Some p)) (\<lambda>b.
          bindR (lwip_assert (tot_len b = len b)) (\<lambda>_.
          bindR (lwip_assert (pnext b = None)) (\<lambda>_.
          bindR (deref s1 t) (\<lambda>c.
          ret (upd s1 p (b\<lparr>tot_len := tot_len b + tot_len c, pnext := t\<rparr>))))))))
      | _ \<Rightarrow> ret s)"

definition pbuf_chain :: "pstate \<Rightarrow> nat option \<Rightarrow> nat option \<Rightarrow> pstate res" where
  "pbuf_chain s h t = bindR (pbuf_cat s h t) (\<lambda>s1. pbuf_ref s1 t)"

definition pbuf_dechain :: "penv \<Rightarrow> pstate \<Rightarrow> nat \<Rightarrow> (pstate \<times> nat option) res" where
  "pbuf_dechain E s p =
     bindR (deref s (Some p)) (\<lambda>b.
     bindR
       (case pnext b of
          None \<Rightarrow> ret (s, 1)
        | Some q \<Rightarrow>
            bindR (deref s (Some q)) (\<lambda>c.
            bindR (lwip_assert (int (unat (tot_len c)) = int (unat (tot_len b)) - int (unat (len b)))) (\<lambda>_.
            let s1 = upd s q (c\<lparr>tot_len := tot_len b - len b\<rparr>);
                s2 = upd s1 p (b\<lparr>pnext := None, tot_len := len b\<rparr>)
            in pbuf_free E s2 (Some q)))) (\<lambda>(s3, tail_gone).
     bindR (deref s3 (Some p)) (\<lambda>b3.
     bindR (lwip_assert (tot_len b3 = len b3)) (\<lambda>_.
     ret (s3, if tail_gone > 0 then None else pnext b)))))"

section \<open>Copying\<close>

text \<open>
  The loop of \<open>pbuf_copy_partial_pbuf\<close>: \<open>offset_to\<close>, \<open>offset_from\<close> and the local
  \<open>len\<close> are \<open>size_t\<close>, and the differences of the loop wrap around at that width.
\<close>

partial_function (option) copy_partial_pbuf_loop ::
  "pstate \<Rightarrow> nat option \<Rightarrow> nat option \<Rightarrow> u16 \<Rightarrow> usize \<Rightarrow> usize \<Rightarrow> (pstate \<times> err_t) res" where
  "copy_partial_pbuf_loop s p_to p_from copy_len offset_to offset_from =
     bindR (deref s p_to) (\<lambda>t.
     bindR (deref s p_from) (\<lambda>f.
     let room = ucast (len t) - offset_to :: usize;
         avail = ucast (len f) - offset_from :: usize;
         n0 = (if room \<ge> avail then avail else room);
         n = min (ucast copy_len) n0
     in
     bindR (memcpy s (payload t + unat offset_to) (payload f + unat offset_from) (unat n)) (\<lambda>s1.
     let offset_to1 = offset_to + n;
         offset_from1 = offset_from + n;
         copy_len1 = copy_len - ucast n
     in
     bindR (lwip_assert (offset_to1 \<le> ucast (len t))) (\<lambda>_.
     bindR (lwip_assert (offset_from1 \<le> ucast (len f))) (\<lambda>_.
     let p_from1 = (if offset_from1 \<ge> ucast (len f) then pnext f else p_from);
         offset_from2 = (if offset_from1 \<ge> ucast (len f) then 0 else offset_from1);
         p_to1 = (if offset_to1 = ucast (len t) then pnext t else p_to);
         offset_to2 = (if offset_to1 = ucast (len t) then 0 else offset_to1)
     in
     if p_from1 = None \<and> copy_len1 \<noteq> 0 then ret (s1, ERR_ARG)
     else if p_to1 = None \<and> copy_len1 \<noteq> 0 then ret (s1, ERR_ARG)
     else
       bindR (if p_from1 = None then ret False else bindR (deref s1 p_from1) (\<lambda>f1.
              ret (len f1 = tot_len f1 \<and> pnext f1 \<noteq> None))) (\<lambda>from_queue.
       if from_queue then ret (s1, ERR_VAL)
       else
         bindR (if p_to1 = None then ret False else bindR (deref s1 p_to1) (\<lambda>t1.
                ret (len t1 = tot_len t1 \<and> pnext t1 \<noteq> None))) (\<lambda>to_queue.
         if to_queue then ret (s1, ERR_VAL)
         else if copy_len1 \<noteq> 0
         then copy_partial_pbuf_loop s1 p_to1 p_from1 copy_len1 offset_to2 offset_from2
         else ret (s1, ERR_OK))))))))"

definition pbuf_copy_partial_pbuf ::
  "pstate \<Rightarrow> nat option \<Rightarrow> nat option \<Rightarrow> u16 \<Rightarrow> u16 \<Rightarrow> (pstate \<times> err_t) res" where
  "pbuf_copy_partial_pbuf s p_to p_from copy_len offset =
     bindR (if p_from = None then ret False
            else bindR (deref s p_from) (\<lambda>f. ret (tot_len f \<ge> copy_len))) (\<lambda>from_ok.
     if \<not> from_ok then ret (s, ERR_ARG)
     else
       bindR (if p_to = None then ret False
              else bindR (deref s p_to) (\<lambda>t.
                   ret (unat (tot_len t) \<ge> unat offset + unat copy_len))) (\<lambda>to_ok.
       if \<not> to_ok then ret (s, ERR_ARG)
       else copy_partial_pbuf_loop s p_to p_from copy_len (ucast offset) 0))"

definition pbuf_copy :: "pstate \<Rightarrow> nat option \<Rightarrow> nat option \<Rightarrow> (pstate \<times> err_t) res" where
  "pbuf_copy s p_to p_from =
     (if p_from = None then ret (s, ERR_ARG)
      else bindR (deref s p_from) (\<lambda>f. pbuf_copy_partial_pbuf s p_to p_from (tot_len f) 0))"

partial_function (option) copy_partial_loop ::
  "pstate \<Rightarrow> nat option \<Rightarrow> nat \<Rightarrow> u16 \<Rightarrow> u16 \<Rightarrow> u16 \<Rightarrow> u16 \<Rightarrow> (pstate \<times> u16) res" where
  "copy_partial_loop s p dataptr ln offset left copied_total =
     (if ln \<noteq> 0 \<and> p \<noteq> None then
        bindR (deref s p) (\<lambda>b.
        if offset \<noteq> 0 \<and> offset \<ge> len b
        then copy_partial_loop s (pnext b) dataptr ln (offset - len b) left copied_total
        else
          (let buf_copy_len = (if len b - offset > ln then ln else len b - offset) in
           bindR (memcpy s (dataptr + unat left) (payload b + unat offset) (unat buf_copy_len)) (\<lambda>s1.
           copy_partial_loop s1 (pnext b) dataptr (ln - buf_copy_len) 0
             (left + buf_copy_len) (copied_total + buf_copy_len))))
      else ret (s, copied_total))"

definition pbuf_copy_partial ::
  "pstate \<Rightarrow> nat option \<Rightarrow> nat \<Rightarrow> u16 \<Rightarrow> u16 \<Rightarrow> (pstate \<times> u16) res" where
  "pbuf_copy_partial s buf dataptr ln offset =
     (if buf = None then ret (s, 0)
      else if dataptr = 0 then ret (s, 0)
      else copy_partial_loop s buf dataptr ln offset 0 0)"

partial_function (option) pbuf_skip_const ::
  "pstate \<Rightarrow> nat option \<Rightarrow> u16 \<Rightarrow> (nat option \<times> u16) res" where
  "pbuf_skip_const s q offset_left =
     (case q of
        None \<Rightarrow> ret (None, offset_left)
      | Some _ \<Rightarrow>
          bindR (deref s q) (\<lambda>b.
          if len b \<le> offset_left then pbuf_skip_const s (pnext b) (offset_left - len b)
          else ret (q, offset_left)))"

definition pbuf_skip :: "pstate \<Rightarrow> nat option \<Rightarrow> u16 \<Rightarrow> (nat option \<times> u16) res" where
  "pbuf_skip s inp in_offset = pbuf_skip_const s inp in_offset"

text \<open>The address returned is 0 for \<open>NULL\<close>, as is an absent \<open>buffer\<close>.\<close>

definition pbuf_get_contiguous ::
  "pstate \<Rightarrow> nat option \<Rightarrow> nat \<Rightarrow> usize \<Rightarrow> u16 \<Rightarrow> u16 \<Rightarrow> (pstate \<times> nat) res" where
  "pbuf_get_contiguous s p buffer bufsize ln offset =
     (if p = None then ret (s, 0)
      else if \<not> (buffer = 0 \<or> bufsize \<ge> ucast ln) then ret (s, 0)
      else
        bindR (pbuf_skip_const s p offset) (\<lambda>(q, out_offset).
        if q = None then ret (s, 0)
        else
          bindR (deref s q) (\<lambda>b.
          if unat (len b) \<ge> unat out_offset + unat ln then ret (s, payload b + unat out_offset)
          else if buffer = 0 then ret (s, 0)
          else
            bindR (pbuf_copy_partial s q buffer ln out_offset) (\<lambda>(s1, n).
            if n \<noteq> ln then ret (s1, 0) else ret (s1, buffer)))))"

partial_function (option) pbuf_take_loop ::
  "pstate \<Rightarrow> nat option \<Rightarrow> nat \<Rightarrow> nat \<Rightarrow> nat \<Rightarrow> (pstate \<times> nat) res" where
  "pbuf_take_loop s p dataptr total_copy_len copied_total =
     (if total_copy_len \<noteq> 0 then
        bindR (lwip_assert (p \<noteq> None)) (\<lambda>_.
        bindR (deref s p) (\<lambda>b.
        let buf_copy_len = (if total_copy_len > unat (len b) then unat (len b) else total_copy_len) in
        bindR (memcpy s (payload b) (dataptr + copied_total) buf_copy_len) (\<lambda>s1.
        pbuf_take_loop s1 (pnext b) dataptr (total_copy_len - buf_copy_len)
          (copied_total + buf_copy_len))))
      else ret (s, copied_total))"

definition pbuf_take :: "pstate \<Rightarrow> nat option \<Rightarrow> nat \<Rightarrow> u16 \<Rightarrow> (pstate \<times> err_t) res" where
  "pbuf_take s buf dataptr ln =
     (if buf = None then ret (s, ERR_ARG)
      else if dataptr = 0 then ret (s, ERR_ARG)
      else
        bindR (deref s buf) (\<lambda>b.
        if \<not> tot_len b \<ge> ln then ret (s, ERR_MEM)
        else
          bindR (pbuf_take_loop s buf dataptr (unat ln) 0) (\<lambda>(s1, copied_total).
          bindR (lwip_assert (copied_total = unat ln)) (\<lambda>_.
          ret (s1, ERR_OK)))))"

definition pbuf_take_at :: "pstate \<Rightarrow> nat option \<Rightarrow> nat \<Rightarrow> u16 \<Rightarrow> u16 \<Rightarrow> (pstate \<times> err_t) res" where
  "pbuf_take_at s buf dataptr ln offset =
     bindR (pbuf_skip s buf offset) (\<lambda>(q, target_offset).
     if q = None then ret (s, ERR_MEM)
     else
       bindR (deref s q) (\<lambda>b.
       if unat (tot_len b) \<ge> unat target_offset + unat ln then
         bindR (lwip_assert (target_offset < len b)) (\<lambda>_.
         let first_copy_len = min (len b - target_offset) ln in
         bindR (memcpy s (payload b + unat target_offset) dataptr (unat first_copy_len)) (\<lambda>s1.
         if ln - first_copy_len > 0
         then pbuf_take s1 (pnext b) (dataptr + unat first_copy_len) (ln - first_copy_len)
         else ret (s1, ERR_OK)))
       else ret (s, ERR_MEM)))"

definition pbuf_clone ::
  "penv \<Rightarrow> pstate \<Rightarrow> u16 \<Rightarrow> u16 \<Rightarrow> nat option \<Rightarrow> (pstate \<times> nat option) res" where
  "pbuf_clone E s layer type p =
     bindR (deref s p) (\<lambda>b.
     bindR (pbuf_alloc E s layer (tot_len b) type) (\<lambda>(s1, q).
     if q = None then ret (s1, None)
     else
       bindR (pbuf_copy s1 q p) (\<lambda>(s2, err).
       bindR (lwip_assert (err = ERR_OK)) (\<lambda>_.
       ret (s2, q)))))"

definition pbuf_coalesce ::
  "penv \<Rightarrow> pstate \<Rightarrow> nat option \<Rightarrow> u16 \<Rightarrow> (pstate \<times> nat option) res" where
  "pbuf_coalesce E s p layer =
     bindR (deref s p) (\<lambda>b.
     if pnext b = None then ret (s, p)
     else
       bindR (pbuf_clone E s layer PBUF_RAM p) (\<lambda>(s1, q).
       if q = None then ret (s1, p)
       else bindR (pbuf_free E s1 p) (\<lambda>(s2, _). ret (s2, q))))"

section \<open>Single bytes, comparison and search\<close>

text \<open>\<open>strlen\<close> on the bytes of a buffer: without a terminating 0 it reads past the end.\<close>

fun strlen_bytes :: "u8 list \<Rightarrow> nat res" where
  "strlen_bytes [] = fault Out_of_bounds"
| "strlen_bytes (c # cs) = (if c = 0 then ret 0 else bindR (strlen_bytes cs) (\<lambda>n. ret (Suc n)))"

definition pbuf_try_get_at :: "pstate \<Rightarrow> nat option \<Rightarrow> u16 \<Rightarrow> int res" where
  "pbuf_try_get_at s p offset =
     bindR (pbuf_skip_const s p offset) (\<lambda>(q, q_idx).
     if q = None then ret (- 1)
     else
       bindR (deref s q) (\<lambda>b.
       if len b > q_idx
       then bindR (mread (memory s) (payload b + unat q_idx) 1) (\<lambda>xs. ret (uint (hd xs)))
       else ret (- 1)))"

definition pbuf_get_at :: "pstate \<Rightarrow> nat option \<Rightarrow> u16 \<Rightarrow> u8 res" where
  "pbuf_get_at s p offset =
     bindR (pbuf_try_get_at s p offset) (\<lambda>r. ret (if r \<ge> 0 then of_int r else 0))"

definition pbuf_put_at :: "pstate \<Rightarrow> nat option \<Rightarrow> u16 \<Rightarrow> u8 \<Rightarrow> pstate res" where
  "pbuf_put_at s p offset data =
     bindR (pbuf_skip s p offset) (\<lambda>(q, q_idx).
     if q = None then ret s
     else
       bindR (deref s q) (\<lambda>b.
       if len b > q_idx
       then bindR (mwrite (memory s) (payload b + unat q_idx) [data]) (\<lambda>m. ret (s\<lparr>memory := m\<rparr>))
       else ret s))"

text \<open>The comparison loop of \<open>pbuf_memcmp\<close>; \<open>s2\<close> is the contents of the buffer compared.\<close>

partial_function (option) pbuf_memcmp_loop ::
  "pstate \<Rightarrow> nat option \<Rightarrow> u16 \<Rightarrow> u8 list \<Rightarrow> u16 \<Rightarrow> u16 \<Rightarrow> u16 res" where
  "pbuf_memcmp_loop s q start s2 i n =
     (if i < n then
        bindR (pbuf_get_at s q (start + i)) (\<lambda>a.
        if unat i \<ge> length s2 then fault Out_of_bounds
        else if a \<noteq> s2 ! unat i then ret (of_nat (min (unat i + 1) 0xFFFF))
        else pbuf_memcmp_loop s q start s2 (i + 1) n)
      else ret 0)"

definition pbuf_memcmp :: "pstate \<Rightarrow> nat option \<Rightarrow> u16 \<Rightarrow> u8 list \<Rightarrow> u16 \<Rightarrow> u16 res" where
  "pbuf_memcmp s p offset s2 n =
     bindR (deref s p) (\<lambda>b.
     if unat (tot_len b) < unat offset + unat n then ret 0xFFFF
     else
       bindR (pbuf_skip_const s p offset) (\<lambda>(q, start).
       pbuf_memcmp_loop s q start s2 0 n))"

partial_function (option) pbuf_memfind_loop ::
  "pstate \<Rightarrow> nat option \<Rightarrow> u8 list \<Rightarrow> u16 \<Rightarrow> u16 \<Rightarrow> u16 \<Rightarrow> u16 res" where
  "pbuf_memfind_loop s p mem mem_len i max_cmp_start =
     (if i \<le> max_cmp_start then
        bindR (pbuf_memcmp s p i mem mem_len) (\<lambda>plus.
        if plus = 0 then ret i
        else pbuf_memfind_loop s p mem mem_len (i + 1) max_cmp_start)
      else ret 0xFFFF)"

definition pbuf_memfind :: "pstate \<Rightarrow> nat option \<Rightarrow> u8 list \<Rightarrow> u16 \<Rightarrow> u16 \<Rightarrow> u16 res" where
  "pbuf_memfind s p mem mem_len start_offset =
     bindR (deref s p) (\<lambda>b.
     let max_cmp_start = tot_len b - mem_len in
     if unat (tot_len b) \<ge> unat mem_len + unat start_offset
     then pbuf_memfind_loop s p mem mem_len start_offset max_cmp_start
     else ret 0xFFFF)"

definition pbuf_strstr :: "pstate \<Rightarrow> nat option \<Rightarrow> u8 list option \<Rightarrow> u16 res" where
  "pbuf_strstr s p substr =
     (case substr of
        None \<Rightarrow> ret 0xFFFF
      | Some str \<Rightarrow>
          if str = [] then fault Out_of_bounds
          else if hd str = 0 then ret 0xFFFF
          else
            bindR (deref s p) (\<lambda>b.
            if tot_len b = 0xFFFF then ret 0xFFFF
            else
              bindR (strlen_bytes str) (\<lambda>substr_len.
              if substr_len \<ge> 0xFFFF then ret 0xFFFF
              else pbuf_memfind s p str (of_nat substr_len) 0)))"

end
