(* ===== verification/Pbuf_Chain.thy ===== *)
theory Pbuf_Chain
  imports Pbuf
begin

text \<open>
  Chains of pbufs. \<open>chain H p as\<close> says that following \<open>next\<close> from \<open>p\<close> visits the
  addresses \<open>as\<close> and ends at \<open>NULL\<close>; \<open>tot_ok\<close> is the invariant of \<open>struct pbuf\<close> on
  \<open>tot_len\<close>; \<open>data\<close> is the payload of the chain. The operations that change the shape of a
  chain (\<open>pbuf_free\<close>, \<open>pbuf_cat\<close>, \<open>pbuf_dechain\<close>, \<open>pbuf_realloc\<close>, the header functions
  and \<open>pbuf_alloc\<close>) are specified on the list of addresses and on the payload.
\<close>

declare fun_upd_apply [simp del] fun_upd_same [simp] fun_upd_other [simp]

section \<open>Linked chains\<close>

type_synonym pheap = "nat \<rightharpoonup> pbuf"

primrec chain :: "pheap \<Rightarrow> nat option \<Rightarrow> nat list \<Rightarrow> bool" where
  "chain H p [] \<longleftrightarrow> p = None"
| "chain H p (a # as) \<longleftrightarrow> p = Some a \<and> H a \<noteq> None \<and> chain H (pnext (the (H a))) as"

primrec lens :: "pheap \<Rightarrow> nat list \<Rightarrow> nat" where
  "lens H [] = 0"
| "lens H (a # as) = unat (len (the (H a))) + lens H as"

primrec tot_ok :: "pheap \<Rightarrow> nat list \<Rightarrow> bool" where
  "tot_ok H [] \<longleftrightarrow> True"
| "tot_ok H (a # as) \<longleftrightarrow> unat (tot_len (the (H a))) = lens H (a # as) \<and> tot_ok H as"

definition seg :: "pstate \<Rightarrow> nat \<Rightarrow> u8 list" where
  "seg s a = bytes_at (memory s) (payload (the (pbufs s a))) (unat (len (the (pbufs s a))))"

primrec data :: "pstate \<Rightarrow> nat list \<Rightarrow> u8 list" where
  "data s [] = []"
| "data s (a # as) = seg s a @ data s as"

definition readable :: "pstate \<Rightarrow> nat list \<Rightarrow> bool" where
  "readable s as \<longleftrightarrow>
     (\<forall>a \<in> set as. mapped (memory s) (payload (the (pbufs s a))) (unat (len (the (pbufs s a)))))"

lemma chain_NoneD [simp]: "chain H None as \<longleftrightarrow> as = []"
  by (cases as) auto

lemma chain_fun_upd [simp]: "a \<notin> set as \<Longrightarrow> chain (H(a := x)) p as = chain H p as"
  by (induction as arbitrary: p) auto

lemma lens_fun_upd [simp]: "a \<notin> set as \<Longrightarrow> lens (H(a := x)) as = lens H as"
  by (induction as) auto

lemma lens_same_len [simp]:
  "H a = Some b \<Longrightarrow> len b' = len b \<Longrightarrow> lens (H(a \<mapsto> b')) as = lens H as"
  by (induction as) (auto simp: fun_upd_apply)

lemma tot_ok_fun_upd [simp]: "a \<notin> set as \<Longrightarrow> tot_ok (H(a := x)) as = tot_ok H as"
  by (induction as) auto

lemma lens_append [simp]: "lens H (as @ bs) = lens H as + lens H bs"
  by (induction as) auto

lemma chain_append:
  "chain H p (as @ b # bs) \<Longrightarrow> chain H (Some b) (b # bs)"
  by (induction as arbitrary: p) auto

lemma chain_unique: "chain H p as \<Longrightarrow> chain H p bs \<Longrightarrow> as = bs"
proof (induction as arbitrary: p bs)
  case (Cons a as)
  then show ?case by (cases bs) auto
qed simp

lemma chain_distinct: "chain H p as \<Longrightarrow> distinct as"
proof (induction as arbitrary: p)
  case (Cons a as)
  have "a \<notin> set as"
  proof
    assume "a \<in> set as"
    then obtain xs ys where as: "as = xs @ a # ys" by (meson split_list)
    with Cons.prems have "chain H (Some a) (a # xs @ a # ys)" by simp
    moreover from this have "chain H (Some a) (a # ys)"
      using chain_append [of H "Some a" "a # xs" a ys] by simp
    ultimately have "a # xs @ a # ys = a # ys" by (rule chain_unique)
    from arg_cong [OF this, of length] show False by simp
  qed
  with Cons show ?case by auto
qed simp

lemma chain_live: "chain H p as \<Longrightarrow> a \<in> set as \<Longrightarrow> \<exists>b. H a = Some b"
  by (induction as arbitrary: p) auto

lemma chain_Some: "chain H (Some a) as \<longleftrightarrow> (\<exists>b bs. as = a # bs \<and> H a = Some b \<and> chain H (pnext b) bs)"
  by (cases as) auto

lemma chain_joinI:
  "as \<noteq> [] \<Longrightarrow> chain H p as \<Longrightarrow> chain H q bs \<Longrightarrow> last as \<notin> set bs \<Longrightarrow> H (last as) = Some b \<Longrightarrow>
    chain (H(last as \<mapsto> b\<lparr>pnext := q\<rparr>)) p (as @ bs)"
proof (induction as arbitrary: p rule: list_nonempty_induct)
  case (single a)
  then show ?case by simp
next
  case (cons a as)
  from cons.prems(1) have "distinct (a # as)" by (rule chain_distinct)
  with cons.hyps have "a \<noteq> last as" by auto
  with cons show ?case by simp
qed

lemma length_seg [simp]: "length (seg s a) = unat (len (the (pbufs s a)))"
  by (simp add: seg_def)

lemma length_data [simp]: "length (data s as) = lens (pbufs s) as"
  by (induction as) auto

lemma data_append [simp]: "data s (as @ bs) = data s as @ data s bs"
  by (induction as) auto

lemma data_cong:
  assumes "\<And>a. a \<in> set as \<Longrightarrow> seg s' a = seg s a"
  shows "data s' as = data s as"
  using assms by (induction as) auto

lemma readable_Nil [simp]: "readable s []"
  by (simp add: readable_def)

lemma readable_Cons [simp]:
  "readable s (a # as) \<longleftrightarrow>
     mapped (memory s) (payload (the (pbufs s a))) (unat (len (the (pbufs s a)))) \<and> readable s as"
  by (auto simp: readable_def)

lemma readable_append [simp]: "readable s (as @ bs) \<longleftrightarrow> readable s as \<and> readable s bs"
  by (auto simp: readable_def)

lemma deref_Some [simp]: "pbufs s a = Some b \<Longrightarrow> deref s (Some a) = ret b"
  by (simp add: deref_def)

lemma upd_simps [simp]:
  "pbufs (upd s a b) = (pbufs s)(a \<mapsto> b)" "memory (upd s a b) = memory s"
  "blocks (upd s a b) = blocks s" "memp_pbuf (upd s a b) = memp_pbuf s"
  "memp_pbuf_pool (upd s a b) = memp_pbuf_pool s"
  "custom_free_function (upd s a b) = custom_free_function s"
  by (simp_all add: upd_def)

lemma seg_upd: "seg (upd s a b) c =
    (if c = a then bytes_at (memory s) (payload b) (unat (len b)) else seg s c)"
  by (simp add: seg_def)

section \<open>Counting\<close>

lemma pbuf_clen_loop_spec: "chain (pbufs s) p as \<Longrightarrow> pbuf_clen_loop s p n = ret (n + of_nat (length as))"
  by (induction as arbitrary: p n) (auto simp: pbuf_clen_loop.simps)

lemma pbuf_clen_spec: "chain (pbufs s) p as \<Longrightarrow> pbuf_clen s p = ret (of_nat (length as))"
  by (simp add: pbuf_clen_def pbuf_clen_loop_spec)

section \<open>Releasing a chain\<close>

text \<open>
  A pbuf of one of the three standard allocation sources; \<open>std_free\<close> is the state after its
  deallocation and \<open>free_spec\<close> the effect of \<open>pbuf_free\<close> on a chain: the pbufs with a single
  reference at the head are deallocated, the first one with more references loses one.
\<close>

definition std :: "pstate \<Rightarrow> nat \<Rightarrow> bool" where
  "std s a \<longleftrightarrow> flags (the (pbufs s a)) AND PBUF_FLAG_IS_CUSTOM = 0 \<and>
     (pbuf_get_allocsrc (the (pbufs s a)) \<in> {ALLOC_SRC_MEMP_PBUF_POOL, ALLOC_SRC_MEMP_PBUF} \<or>
      pbuf_get_allocsrc (the (pbufs s a)) = ALLOC_SRC_HEAP \<and> blocks s a \<noteq> None)"

definition std_free :: "pstate \<Rightarrow> nat \<Rightarrow> pstate" where
  "std_free s a =
     (let src = pbuf_get_allocsrc (the (pbufs s a)); s1 = s\<lparr>pbufs := (pbufs s)(a := None)\<rparr> in
      if src = ALLOC_SRC_MEMP_PBUF_POOL
      then s1\<lparr>memp_pbuf_pool := do_memp_free_pool (memp_pbuf_pool s) a\<rparr>
      else if src = ALLOC_SRC_MEMP_PBUF
      then s1\<lparr>memp_pbuf := do_memp_free_pool (memp_pbuf s) a\<rparr>
      else s1\<lparr>memory := (\<lambda>k. if a \<le> k \<and> k < a + the (blocks s a) then None else memory s k),
              blocks := (blocks s)(a := None)\<rparr>)"

fun free_spec :: "pstate \<Rightarrow> nat list \<Rightarrow> pstate" where
  "free_spec s [] = s"
| "free_spec s (a # as) =
     (if ref (the (pbufs s a)) = 1 then free_spec (std_free s a) as
      else upd s a ((the (pbufs s a))\<lparr>ref := ref (the (pbufs s a)) - 1\<rparr>))"

definition gone :: "pheap \<Rightarrow> nat list \<Rightarrow> nat list" where
  "gone H as = takeWhile (\<lambda>a. ref (the (H a)) = 1) as"

lemma pbufs_std_free [simp]: "pbufs (std_free s a) = (pbufs s)(a := None)"
  by (simp add: std_free_def Let_def)

lemma std_std_free [simp]: "c \<noteq> a \<Longrightarrow> std (std_free s a) c = std s c"
  by (simp add: std_def std_free_def Let_def)

lemma gone_Nil [simp]: "gone H [] = []"
  by (simp add: gone_def)

lemma gone_Cons [simp]: "gone H (a # as) = (if ref (the (H a)) = 1 then a # gone H as else [])"
  by (simp add: gone_def)

lemma gone_fun_upd [simp]: "a \<notin> set as \<Longrightarrow> gone (H(a := x)) as = gone H as"
  by (induction as) auto

lemma set_gone: "set (gone H as) \<subseteq> set as"
  unfolding gone_def by (auto dest: set_takeWhileD)

lemma pbuf_dealloc_std:
  assumes "pbufs s a = Some b" and "std s a" and "pbuf_get_allocsrc b' = pbuf_get_allocsrc b"
    and "flags b' = flags b"
  shows "pbuf_dealloc E (upd s a c) a b' = ret (std_free s a)"
  using assms by (auto simp: pbuf_dealloc_def std_def std_free_def mem_free_def upd_def Let_def
      cong: if_cong)

lemma pbuf_free_loop_spec:
  assumes "chain (pbufs s) p as" and "\<forall>a \<in> set as. ref (the (pbufs s a)) > 0"
    and "\<forall>a \<in> set (gone (pbufs s) as). std s a"
  shows "pbuf_free_loop E s p c = ret (free_spec s as, c + of_nat (length (gone (pbufs s) as)))"
  using assms
proof (induction as arbitrary: s p c)
  case Nil
  then show ?case by (simp add: pbuf_free_loop.simps)
next
  case (Cons a as)
  from Cons.prems(1) obtain b where b: "pbufs s a = Some b" "p = Some a" "chain (pbufs s) (pnext b) as"
    by auto
  have "a \<notin> set as" using chain_distinct [OF Cons.prems(1)] by simp
  show ?case
  proof (cases "ref b = 1")
    case True
    have "pbuf_dealloc E (upd s a (b\<lparr>ref := ref b - 1\<rparr>)) a b = ret (std_free s a)"
      using b True Cons.prems(3) by (intro pbuf_dealloc_std) auto
    moreover have "\<forall>x \<in> set (gone (pbufs s) as). std (std_free s a) x"
      using Cons.prems(3) True b \<open>a \<notin> set as\<close> set_gone [of "pbufs s" as]
      by (metis gone_Cons list.set_intros(2) option.sel std_std_free subsetD)
    moreover from this have "pbuf_free_loop E (std_free s a) (pnext b) (c + 1) =
        ret (free_spec (std_free s a) as, c + 1 + of_nat (length (gone (pbufs s) as)))"
      using Cons.prems b True \<open>a \<notin> set as\<close> by (subst Cons.IH) (auto simp: fun_upd_apply)
    ultimately show ?thesis
      using b True by (subst pbuf_free_loop.simps) (simp add: add.assoc)
  next
    case False
    then have "ref b - 1 \<noteq> 0" by simp
    with False b Cons.prems(2) show ?thesis by (subst pbuf_free_loop.simps) simp
  qed
qed

lemma pbuf_free_spec:
  assumes "chain (pbufs s) (Some a) as" and "\<forall>a \<in> set as. ref (the (pbufs s a)) > 0"
    and "\<forall>a \<in> set (gone (pbufs s) as). std s a"
  shows "pbuf_free E s (Some a) = ret (free_spec s as, of_nat (length (gone (pbufs s) as)))"
  using pbuf_free_loop_spec [OF assms, of E 0] by (simp add: pbuf_free_def)

text \<open>What \<open>free_spec\<close> does to the structs, to the pools and to the heap.\<close>

definition drop_ref :: "pheap \<Rightarrow> nat list \<Rightarrow> pheap" where
  "drop_ref H as =
     (case as of [] \<Rightarrow> H | b # _ \<Rightarrow> H(b \<mapsto> (the (H b))\<lparr>ref := ref (the (H b)) - 1\<rparr>))"

lemma pbufs_free_spec:
  "distinct as \<Longrightarrow> pbufs (free_spec s as) =
     drop_ref (pbufs s |` (- set (gone (pbufs s) as))) (drop (length (gone (pbufs s) as)) as)"
proof (induction as arbitrary: s)
  case (Cons a as)
  show ?case
  proof (cases "ref (the (pbufs s a)) = 1")
    case True
    have "(pbufs s)(a := None) |` (- set (gone (pbufs s) as)) =
        pbufs s |` (- set (a # gone (pbufs s) as))"
      by (auto simp: restrict_map_def fun_upd_apply)
    moreover have "pbufs (free_spec (std_free s a) as) =
        drop_ref ((pbufs s)(a := None) |` (- set (gone (pbufs s) as)))
          (drop (length (gone (pbufs s) as)) as)"
      using Cons.IH [of "std_free s a"] Cons.prems by (simp del: restrict_fun_upd)
    ultimately show ?thesis using True by simp
  next
    case False
    then show ?thesis by (simp add: drop_ref_def)
  qed
qed (simp add: drop_ref_def restrict_map_def)

lemma pool_free_spec:
  "distinct as \<Longrightarrow> tab (memp_pbuf_pool (free_spec s as)) =
     rev (filter (\<lambda>a. pbuf_get_allocsrc (the (pbufs s a)) = ALLOC_SRC_MEMP_PBUF_POOL) (gone (pbufs s) as))
     @ tab (memp_pbuf_pool s)"
proof (induction as arbitrary: s)
  case (Cons a as)
  let ?pool = "\<lambda>H a. pbuf_get_allocsrc (the (H a)) = ALLOC_SRC_MEMP_PBUF_POOL"
  have "filter (?pool ((pbufs s)(a := None))) (gone (pbufs s) as) =
      filter (?pool (pbufs s)) (gone (pbufs s) as)"
    using Cons.prems set_gone [of "pbufs s" as] by (intro filter_cong) (auto simp: fun_upd_apply)
  with Cons show ?case by (simp add: std_free_def Let_def do_memp_free_pool_def)
qed simp

lemma memory_free_spec:
  "distinct as \<Longrightarrow>
     \<forall>a \<in> set (gone (pbufs s) as). pbuf_get_allocsrc (the (pbufs s a)) = ALLOC_SRC_HEAP \<longrightarrow>
        \<not> (a \<le> k \<and> k < a + the (blocks s a)) \<Longrightarrow>
     \<forall>a \<in> set (gone (pbufs s) as). std s a \<Longrightarrow>
     memory (free_spec s as) k = memory s k"
proof (induction as arbitrary: s)
  case (Cons a as)
  show ?case
  proof (cases "ref (the (pbufs s a)) = 1")
    case True
    have sub: "\<forall>x \<in> set (gone (pbufs s) as). x \<noteq> a"
      using Cons.prems(1) set_gone [of "pbufs s" as] by auto
    have "memory (free_spec (std_free s a) as) k = memory (std_free s a) k"
    proof (rule Cons.IH)
      show "\<forall>c \<in> set (gone (pbufs (std_free s a)) as).
          pbuf_get_allocsrc (the (pbufs (std_free s a) c)) = ALLOC_SRC_HEAP \<longrightarrow>
            \<not> (c \<le> k \<and> k < c + the (blocks (std_free s a) c))"
        using Cons.prems(1,2) True sub by (auto simp: std_free_def Let_def)
    qed (use Cons.prems True sub in auto)
    also have "\<dots> = memory s k"
      using Cons.prems(2,3) True by (auto simp: std_free_def Let_def std_def)
    finally show ?thesis using True by simp
  qed simp
qed simp

section \<open>Joining and splitting chains\<close>

lemma chain_cong:
  assumes "\<And>x. x \<in> set as \<Longrightarrow> H' x \<noteq> None \<and> pnext (the (H' x)) = pnext (the (H x))"
  shows "chain H p as \<Longrightarrow> chain H' p as"
  using assms by (induction as arbitrary: p) auto

lemma lens_cong:
  assumes "\<And>x. x \<in> set as \<Longrightarrow> len (the (H' x)) = len (the (H x))"
  shows "lens H' as = lens H as"
  using assms by (induction as) auto

lemma tot_ok_cong:
  assumes "\<And>x. x \<in> set as \<Longrightarrow>
      len (the (H' x)) = len (the (H x)) \<and> tot_len (the (H' x)) = tot_len (the (H x))"
  shows "tot_ok H' as = tot_ok H as"
  using assms
proof (induction as)
  case (Cons a as)
  then have "lens H' as = lens H as" by (intro lens_cong) auto
  with Cons show ?case by auto
qed simp

lemma chain_replace_tail:
  "chain H p (as @ z # cs) \<Longrightarrow> chain H' (Some z) (z # bs) \<Longrightarrow>
   (\<And>x. x \<in> set as \<Longrightarrow> H' x \<noteq> None \<and> pnext (the (H' x)) = pnext (the (H x))) \<Longrightarrow>
   chain H' p (as @ z # bs)"
  by (induction as arbitrary: p) auto

lemma tot_ok_add:
  assumes "\<And>x. x \<in> set as \<Longrightarrow> len (the (H' x)) = len (the (H x)) \<and>
      tot_len (the (H' x)) = tot_len (the (H x)) + n"
    and "\<And>x. x \<in> set bs \<Longrightarrow> H' x = H x"
    and "unat n = lens H bs" and "lens H as + lens H bs < 65536" and "tot_ok H as" and "tot_ok H bs"
  shows "tot_ok H' (as @ bs)"
  using assms
proof (induction as)
  case Nil
  then have "tot_ok H' bs = tot_ok H bs" by (intro tot_ok_cong) simp
  with Nil show ?case by simp
next
  case (Cons a as)
  have "lens H' as = lens H as" "lens H' bs = lens H bs"
    using Cons.prems(1,2) by (auto intro!: lens_cong)
  moreover have "unat (tot_len (the (H a)) + n) = unat (tot_len (the (H a))) + unat n"
    using Cons.prems(3-5) by (simp add: unat_word_ariths)
  ultimately show ?case using Cons by simp
qed

lemma data_same:
  assumes "memory s' = memory s"
    and "\<And>x. x \<in> set as \<Longrightarrow> payload (the (pbufs s' x)) = payload (the (pbufs s x)) \<and>
      len (the (pbufs s' x)) = len (the (pbufs s x))"
  shows "data s' as = data s as"
  using assms by (intro data_cong) (simp add: seg_def)

definition add_tot :: "pheap \<Rightarrow> nat list \<Rightarrow> u16 \<Rightarrow> pheap" where
  "add_tot H as n = (\<lambda>x. if x \<in> set as
     then map_option (\<lambda>b. b\<lparr>tot_len := tot_len b + n\<rparr>) (H x) else H x)"

lemma add_tot_Nil [simp]: "add_tot H [] n = H"
  by (simp add: add_tot_def)

lemma add_tot_Cons:
  "H a = Some b \<Longrightarrow> a \<notin> set as \<Longrightarrow>
     add_tot (H(a \<mapsto> b\<lparr>tot_len := tot_len b + n\<rparr>)) as n = add_tot H (a # as) n"
  by (auto simp: add_tot_def fun_upd_apply)

lemma pbuf_cat_loop_spec:
  "as \<noteq> [] \<Longrightarrow> chain (pbufs s) (Some h) as \<Longrightarrow> t \<notin> set as \<Longrightarrow> pbufs s t = Some c \<Longrightarrow>
     pbuf_cat_loop s h t = ret (s\<lparr>pbufs := add_tot (pbufs s) (butlast as) (tot_len c)\<rparr>, last as)"
proof (induction as arbitrary: s h rule: list_nonempty_induct)
  case (single a)
  then show ?case by (auto simp: pbuf_cat_loop.simps)
next
  case (cons a as)
  obtain b where b: "pbufs s a = Some b" "h = a" "chain (pbufs s) (pnext b) as"
    using cons.prems(1) by auto
  obtain a' as' where as: "as = a' # as'" using cons.hyps by (cases as) auto
  have "a \<notin> set as" using chain_distinct [OF cons.prems(1)] by simp
  let ?s1 = "upd s a (b\<lparr>tot_len := tot_len b + tot_len c\<rparr>)"
  have "pbuf_cat_loop ?s1 a' t =
      ret (?s1\<lparr>pbufs := add_tot (pbufs ?s1) (butlast as) (tot_len c)\<rparr>, last as)"
    using cons.prems b as \<open>a \<notin> set as\<close> by (intro cons.IH) auto
  moreover have "add_tot (pbufs ?s1) (butlast as) (tot_len c) =
      add_tot (pbufs s) (a # butlast as) (tot_len c)"
    using b \<open>a \<notin> set as\<close> by (auto intro!: add_tot_Cons dest: in_set_butlastD)
  moreover have "?s1\<lparr>pbufs := X\<rparr> = s\<lparr>pbufs := X\<rparr>" for X by (simp add: upd_def)
  moreover have "pnext b = Some a'" using b as by simp
  ultimately show ?case
    using b cons.hyps cons.prems(3) by (subst pbuf_cat_loop.simps) simp
qed

lemma pbuf_cat_spec:
  assumes "chain (pbufs s) (Some h) as" "chain (pbufs s) (Some t) bs" "set as \<inter> set bs = {}"
    "tot_ok (pbufs s) as" "tot_ok (pbufs s) bs" "lens (pbufs s) as + lens (pbufs s) bs < 65536"
  shows "\<exists>s'. pbuf_cat s (Some h) (Some t) = ret s' \<and> memory s' = memory s \<and>
    chain (pbufs s') (Some h) (as @ bs) \<and> tot_ok (pbufs s') (as @ bs) \<and>
    data s' (as @ bs) = data s as @ data s bs \<and>
    (\<forall>x. x \<notin> set as \<longrightarrow> pbufs s' x = pbufs s x)"
proof -
  obtain c where c: "pbufs s t = Some c" "t \<in> set bs"
    using assms(2) by (auto simp: chain_Some)
  have ne: "as \<noteq> []" and t: "t \<notin> set as" and "h \<noteq> t"
    using assms(1-3) c by (auto simp: chain_Some)
  obtain as' z where as: "as = as' @ [z]" using ne by (cases as rule: rev_cases) auto
  obtain b where b: "pbufs s z = Some b" using chain_live [OF assms(1), of z] as by auto
  have "distinct as" using chain_distinct [OF assms(1)] .
  have "pnext b = None"
    using chain_append [of "pbufs s" "Some h" as' z "[]"] assms(1) as b by simp
  have tot: "unat (tot_len b) = unat (len b)" "tot_len c = tot_len c"
    using assms(4) b unfolding as by (induction as') auto
  then have "tot_len b = len b" by (intro word_unat_eq_iff [THEN iffD2])
  let ?n = "tot_len c"
  have n: "unat ?n = lens (pbufs s) bs"
    using assms(2,5) c(1) by (auto simp: chain_Some)
  define s1 where "s1 = s\<lparr>pbufs := add_tot (pbufs s) as' ?n\<rparr>"
  have z: "z \<notin> set as'" using \<open>distinct as\<close> as by simp
  have s1: "pbufs s1 z = Some b" "pbufs s1 t = Some c"
    using b c t z as by (auto simp: s1_def add_tot_def)
  let ?s' = "upd s1 z (b\<lparr>tot_len := tot_len b + ?n, pnext := Some t\<rparr>)"
  have "pbuf_cat s (Some h) (Some t) = ret ?s'"
    using pbuf_cat_loop_spec [OF ne assms(1) t c(1)] \<open>h \<noteq> t\<close> s1 \<open>tot_len b = len b\<close> \<open>pnext b = None\<close>
    by (simp add: pbuf_cat_def as flip: s1_def)
  moreover have "memory ?s' = memory s" by (simp add: s1_def)
  moreover have old: "pbufs ?s' x = pbufs s x" if "x \<notin> set as" for x
    using that as by (auto simp: s1_def add_tot_def fun_upd_apply)
  moreover have old_bs: "pbufs ?s' x = pbufs s x" if "x \<in> set bs" for x
    using that assms(3) by (intro old) auto
  moreover have new: "\<exists>b0 b1. pbufs s x = Some b0 \<and> pbufs ?s' x = Some b1 \<and> len b1 = len b0 \<and>
      payload b1 = payload b0 \<and> tot_len b1 = tot_len b0 + ?n \<and> (x \<noteq> z \<longrightarrow> pnext b1 = pnext b0)"
    if "x \<in> set as" for x
    using chain_live [OF assms(1) that] that as b by (auto simp: s1_def add_tot_def fun_upd_apply)
  moreover have "chain (pbufs ?s') (Some h) (as @ bs)"
  proof -
    have "chain (pbufs ?s') (Some t) bs"
      using assms(2) by (rule chain_cong [rotated]) (use old_bs chain_live [OF assms(2)] in auto)
    then have "chain (pbufs ?s') (Some z) (z # bs)" by simp
    with assms(1) show ?thesis unfolding as append_assoc append_Cons append_Nil
      by (rule chain_replace_tail) (use new as z in fastforce)
  qed
  moreover have "tot_ok (pbufs ?s') (as @ bs)"
  proof (rule tot_ok_add [where H = "pbufs s" and n = ?n])
    show "len (the (pbufs ?s' x)) = len (the (pbufs s x)) \<and>
        tot_len (the (pbufs ?s' x)) = tot_len (the (pbufs s x)) + ?n" if "x \<in> set as" for x
      using new [OF that] by auto
  qed (use old_bs n assms(4-6) in auto)
  moreover have "data ?s' as = data s as"
    by (rule data_same) (simp add: s1_def, use new in force)
  moreover have "data ?s' bs = data s bs"
    by (rule data_same) (use old_bs in \<open>auto simp: s1_def\<close>)
  ultimately show ?thesis by (intro exI [of _ ?s']) simp
qed

section \<open>Shrinking a chain\<close>

lemma pbufs_free_spec_other: "x \<notin> set as \<Longrightarrow> pbufs (free_spec s as) x = pbufs s x"
  by (induction as arbitrary: s) auto

lemma add_tot_simps [simp]:
  "x \<notin> set as \<Longrightarrow> add_tot H as n x = H x"
  "x \<in> set as \<Longrightarrow> H x = Some b \<Longrightarrow> add_tot H as n x = Some (b\<lparr>tot_len := tot_len b + n\<rparr>)"
  by (simp_all add: add_tot_def)

lemma pbuf_realloc_loop_spec:
  assumes "chain (pbufs s) (Some q) as" and "unat r \<le> lens (pbufs s) as"
  shows "\<exists>as1 z as2 r'. as = as1 @ z # as2 \<and>
    pbuf_realloc_loop s q r sh = ret (s\<lparr>pbufs := add_tot (pbufs s) as1 (- sh)\<rparr>, z, r') \<and>
    unat r = lens (pbufs s) as1 + unat r' \<and> r' \<le> len (the (pbufs s z))"
  using assms
proof (induction as arbitrary: s q r)
  case (Cons a as)
  then obtain b where b: "pbufs s a = Some b" "q = a" "chain (pbufs s) (pnext b) as" by auto
  have "a \<notin> set as" using chain_distinct [OF Cons.prems(1)] by simp
  show ?case
  proof (cases "r > len b")
    case False
    have "a # as = [] @ a # as" by simp
    moreover have "pbuf_realloc_loop s q r sh = ret (s\<lparr>pbufs := add_tot (pbufs s) [] (- sh)\<rparr>, a, r)"
      using b False by (subst pbuf_realloc_loop.simps) simp
    moreover have "r \<le> len (the (pbufs s a))" using b False by simp
    ultimately show ?thesis by (metis add_0 lens.simps(1))
  next
    case True
    let ?s1 = "upd s a (b\<lparr>tot_len := tot_len b - sh\<rparr>)"
    from True have r: "unat (r - len b) = unat r - unat (len b)" "unat (len b) < unat r"
      by (simp_all add: unat_sub less_imp_le unat_mono)
    with Cons.prems(2) b have "as \<noteq> []" by auto
    then obtain q' as' where as: "as = q' # as'" "pnext b = Some q'" using b by (cases as) auto
    have "chain (pbufs ?s1) (Some q') as" using b as \<open>a \<notin> set as\<close> by simp
    moreover have "unat (r - len b) \<le> lens (pbufs ?s1) as"
      using r Cons.prems(2) b \<open>a \<notin> set as\<close> by simp
    ultimately obtain as1 z as2 r' where IH: "as = as1 @ z # as2"
      "pbuf_realloc_loop ?s1 q' (r - len b) sh =
         ret (?s1\<lparr>pbufs := add_tot (pbufs ?s1) as1 (- sh)\<rparr>, z, r')"
      "unat (r - len b) = lens (pbufs ?s1) as1 + unat r'" "r' \<le> len (the (pbufs ?s1 z))"
      using Cons.IH by blast
    have "a \<notin> set as1" "z \<noteq> a" using IH(1) \<open>a \<notin> set as\<close> by auto
    then have "add_tot (pbufs ?s1) as1 (- sh) = add_tot (pbufs s) (a # as1) (- sh)"
      using add_tot_Cons [of "pbufs s" a b as1 "- sh"] b by simp
    then have "pbuf_realloc_loop s q r sh =
        ret (s\<lparr>pbufs := add_tot (pbufs s) (a # as1) (- sh)\<rparr>, z, r')"
      using b True as IH(2) by (subst pbuf_realloc_loop.simps) (simp add: upd_def)
    moreover have "a # as = (a # as1) @ z # as2" using IH(1) by simp
    moreover have "unat r = lens (pbufs s) (a # as1) + unat r'"
      using IH(3) r b \<open>a \<notin> set as1\<close> by simp
    moreover have "r' \<le> len (the (pbufs s z))" using IH(4) \<open>z \<noteq> a\<close> by simp
    ultimately show ?thesis by blast
  qed
qed simp

text \<open>
  The heap block of a \<open>PBUF_RAM\<close> pbuf of the chain holds no payload of the other pbufs of
  the chain: releasing the pbuf leaves their data alone.
\<close>

definition isolated :: "pstate \<Rightarrow> nat list \<Rightarrow> bool" where
  "isolated s as \<longleftrightarrow>
     (\<forall>a \<in> set as. \<forall>x \<in> set as. a \<noteq> x \<longrightarrow> pbuf_get_allocsrc (the (pbufs s a)) = ALLOC_SRC_HEAP \<longrightarrow>
        apart a (the (blocks s a)) (payload (the (pbufs s x))) (unat (len (the (pbufs s x)))))"

lemma isolatedD:
  "isolated s as \<Longrightarrow> a \<in> set as \<Longrightarrow> x \<in> set as \<Longrightarrow> a \<noteq> x \<Longrightarrow>
     pbuf_get_allocsrc (the (pbufs s a)) = ALLOC_SRC_HEAP \<Longrightarrow>
     apart a (the (blocks s a)) (payload (the (pbufs s x))) (unat (len (the (pbufs s x))))"
  by (simp add: isolated_def)

definition releasable :: "pstate \<Rightarrow> nat list \<Rightarrow> bool" where
  "releasable s as \<longleftrightarrow> (\<forall>a \<in> set as. ref (the (pbufs s a)) > 0 \<and> std s a)"

lemma free_tail_data:
  assumes "distinct bs" and "set as \<inter> set bs = {}" and "\<forall>a \<in> set bs. std s a"
    and "\<forall>a \<in> set bs. \<forall>x \<in> set as. pbuf_get_allocsrc (the (pbufs s a)) = ALLOC_SRC_HEAP \<longrightarrow>
        apart a (the (blocks s a)) (payload (the (pbufs s x))) (unat (len (the (pbufs s x))))"
  shows "data (free_spec s bs) as = data s as"
proof (rule data_cong)
  fix x assume x: "x \<in> set as"
  then have p: "pbufs (free_spec s bs) x = pbufs s x"
    using assms(2) by (intro pbufs_free_spec_other) auto
  have "memory (free_spec s bs) (payload (the (pbufs s x)) + i) = memory s (payload (the (pbufs s x)) + i)"
    if "i < unat (len (the (pbufs s x)))" for i
    using assms(1)
  proof (rule memory_free_spec)
    show "\<forall>a \<in> set (gone (pbufs s) bs). std s a"
      using assms(3) set_gone [of "pbufs s" bs] by auto
    show "\<forall>a \<in> set (gone (pbufs s) bs). pbuf_get_allocsrc (the (pbufs s a)) = ALLOC_SRC_HEAP \<longrightarrow>
        \<not> (a \<le> payload (the (pbufs s x)) + i \<and> payload (the (pbufs s x)) + i < a + the (blocks s a))"
      using assms(4) x that set_gone [of "pbufs s" bs] by (fastforce simp: apart_def)
  qed
  then show "seg (free_spec s bs) x = seg s x"
    unfolding seg_def p by (intro nth_equalityI) simp_all
qed

lemma tot_ok_shrink:
  assumes "\<And>x. x \<in> set as \<Longrightarrow> len (the (H' x)) = len (the (H x)) \<and>
      tot_len (the (H' x)) = tot_len (the (H x)) - sh"
    and "len (the (H' z)) = r" and "tot_len (the (H' z)) = r" and "r \<le> len (the (H z))"
    and "unat sh = unat (len (the (H z))) - unat r + lens H bs" and "tot_ok H (as @ z # bs)"
  shows "tot_ok H' (as @ [z])"
  using assms
proof (induction as)
  case (Cons a as)
  have r: "unat r \<le> unat (len (the (H z)))" using assms(4) by (simp add: word_le_nat_alt)
  have "lens H' as = lens H as" using Cons.prems(1) by (intro lens_cong) auto
  moreover have "unat (tot_len (the (H a)) - sh) = unat (tot_len (the (H a))) - unat sh"
    using Cons.prems(5,6) r by (intro unat_sub) (simp add: word_le_nat_alt)
  moreover have "unat (tot_len (the (H a))) =
      unat (len (the (H a))) + lens H as + unat (len (the (H z))) + lens H bs"
    using Cons.prems(6) by simp
  ultimately show ?case using Cons r by simp
qed simp

lemma chain_butlast_end: "chain H p (as @ [z]) \<Longrightarrow> pnext (the (H z)) = None"
  by (induction as arbitrary: p) auto

lemma tot_ok_appendD: "tot_ok H (as @ bs) \<Longrightarrow> tot_ok H bs"
  by (induction as) auto

lemma pbuf_realloc_spec:
  assumes "chain (pbufs s) (Some p) as" and "tot_ok (pbufs s) as" and "releasable s as"
    and "isolated s as" and "unat n < lens (pbufs s) as"
  shows "\<exists>s' as1 z as2. pbuf_realloc E s (Some p) n = ret s' \<and> as = as1 @ z # as2 \<and>
    chain (pbufs s') (Some p) (as1 @ [z]) \<and> tot_ok (pbufs s') (as1 @ [z]) \<and>
    data s' (as1 @ [z]) = take (unat n) (data s as)"
proof -
  obtain b where b: "pbufs s p = Some b" "unat (tot_len b) = lens (pbufs s) as"
    using assms(1,2) by (auto simp: chain_Some)
  let ?sh = "tot_len b - n"
  have "n < tot_len b" using assms(5) b by (simp add: word_less_nat_alt)
  then have sh: "unat ?sh = lens (pbufs s) as - unat n"
    using b by (simp add: unat_sub)
  obtain as1 z as2 r where as: "as = as1 @ z # as2"
    and loop: "pbuf_realloc_loop s p n ?sh = ret (s\<lparr>pbufs := add_tot (pbufs s) as1 (n - tot_len b)\<rparr>, z, r)"
    and r: "unat n = lens (pbufs s) as1 + unat r" "r \<le> len (the (pbufs s z))"
    using pbuf_realloc_loop_spec [OF assms(1), of n ?sh] assms(5) by auto
  obtain c where c: "pbufs s z = Some c" using chain_live [OF assms(1)] as by auto
  have dist: "distinct as" using chain_distinct [OF assms(1)] .
  define c1 where "c1 = c\<lparr>len := r, tot_len := r\<rparr>"
  define s2 where "s2 = upd (s\<lparr>pbufs := add_tot (pbufs s) as1 (n - tot_len b)\<rparr>) z c1"
  define s3 where "s3 = free_spec s2 as2"
  have s2_as2: "pbufs s2 x = pbufs s x" if "x \<in> set as2" for x
    using that dist as by (auto simp: s2_def add_tot_def fun_upd_apply)
  have s2_as1: "\<exists>d. pbufs s x = Some d \<and> pbufs s2 x = Some (d\<lparr>tot_len := tot_len d - ?sh\<rparr>)"
    if "x \<in> set as1" for x
    using that dist as chain_live [OF assms(1), of x] by (auto simp: s2_def fun_upd_apply)
  have c2: "chain (pbufs s) (pnext c) as2"
    using chain_append [of "pbufs s" "Some p" as1 z as2] assms(1) as c by simp
  have c3: "chain (pbufs s2) (pnext c) as2"
    using c2 by (rule chain_cong [rotated]) (use s2_as2 chain_live [OF c2] in auto)
  have std: "\<forall>a \<in> set as2. ref (the (pbufs s2 a)) > 0 \<and> std s2 a"
    using assms(3) as s2_as2 by (auto simp: releasable_def std_def s2_def)
  have free: "(if pnext c1 \<noteq> None then bindR (pbuf_free E s2 (pnext c1)) (\<lambda>(s3, _). ret s3)
      else ret s2) = ret s3"
  proof (cases "pnext c")
    case None
    with c3 show ?thesis by (simp add: c1_def s3_def)
  next
    case (Some q)
    have "pbuf_free E s2 (Some q) = ret (s3, of_nat (length (gone (pbufs s2) as2)))"
      unfolding s3_def using c3 std set_gone [of "pbufs s2" as2] Some by (intro pbuf_free_spec) auto
    with Some show ?thesis by (simp add: c1_def)
  qed
  have s3: "pbufs s3 x = pbufs s2 x" if "x \<notin> set as2" for x
    unfolding s3_def using that by (rule pbufs_free_spec_other)
  have z: "pbufs s3 z = Some c1" using dist as s3 [of z] by (simp add: s2_def)
  have s1z: "pbufs (s\<lparr>pbufs := add_tot (pbufs s) as1 (n - tot_len b)\<rparr>) z = Some c"
    using dist as c by simp
  let ?s' = "upd s3 z (c1\<lparr>pnext := None\<rparr>)"
  have s'_as1: "\<exists>d. pbufs s x = Some d \<and> pbufs ?s' x = Some (d\<lparr>tot_len := tot_len d - ?sh\<rparr>)"
    if "x \<in> set as1" for x
  proof -
    from that dist as have "x \<notin> set as2" "x \<noteq> z" by auto
    then show ?thesis using s2_as1 [OF that] s3 [of x] by simp
  qed
  have "pnext c1 = pnext c" by (simp add: c1_def)
  then have "pbuf_realloc E s (Some p) n = ret ?s'"
    using b(1) \<open>n < tot_len b\<close> loop s1z free z
    by (simp add: pbuf_realloc_def not_le mem_trim_def Let_def flip: c1_def s2_def split: if_split_asm)
  moreover have "chain (pbufs ?s') (Some p) (as1 @ [z])"
    using assms(1) unfolding as
    by (rule chain_replace_tail) (simp, use s'_as1 in force)
  moreover have "tot_ok (pbufs ?s') (as1 @ [z])"
  proof (rule tot_ok_shrink [where H = "pbufs s" and sh = ?sh and r = r and bs = as2])
    show "len (the (pbufs ?s' x)) = len (the (pbufs s x)) \<and>
        tot_len (the (pbufs ?s' x)) = tot_len (the (pbufs s x)) - ?sh" if "x \<in> set as1" for x
      using s'_as1 [OF that] by auto
  qed (use sh r assms(2) as c in \<open>auto simp: c1_def word_le_nat_alt\<close>)
  moreover have "data ?s' (as1 @ [z]) = data s3 (as1 @ [z])"
    by (rule data_same) (use z in \<open>auto simp: fun_upd_apply\<close>)
  moreover have "data s3 (as1 @ [z]) = data s2 (as1 @ [z])"
    unfolding s3_def
  proof (rule free_tail_data)
    show "\<forall>a \<in> set as2. \<forall>x \<in> set (as1 @ [z]).
        pbuf_get_allocsrc (the (pbufs s2 a)) = ALLOC_SRC_HEAP \<longrightarrow>
        apart a (the (blocks s2 a)) (payload (the (pbufs s2 x))) (unat (len (the (pbufs s2 x))))"
    proof (intro ballI impI)
      fix a x assume a: "a \<in> set as2" and x: "x \<in> set (as1 @ [z])"
        and heap: "pbuf_get_allocsrc (the (pbufs s2 a)) = ALLOC_SRC_HEAP"
      have "payload (the (pbufs s2 x)) = payload (the (pbufs s x))"
        "unat (len (the (pbufs s2 x))) \<le> unat (len (the (pbufs s x)))"
        using x s2_as1 [of x] r(2) c by (auto simp: s2_def c1_def word_le_nat_alt)
      moreover have "apart a (the (blocks s a)) (payload (the (pbufs s x))) (unat (len (the (pbufs s x))))"
      proof -
        have "a \<in> set as" "x \<in> set as" "a \<noteq> x" using a x dist as by auto
        with assms(4) heap s2_as2 [OF a] show ?thesis by (simp add: isolated_def)
      qed
      ultimately show "apart a (the (blocks s2 a)) (payload (the (pbufs s2 x)))
          (unat (len (the (pbufs s2 x))))"
        by (auto simp: apart_def s2_def)
    qed
  qed (use dist as std in auto)
  moreover have "data s2 (as1 @ [z]) = take (unat n) (data s as)"
  proof -
    have "data s2 as1 = data s as1"
      by (rule data_same) (simp add: s2_def, use s2_as1 in force)
    moreover have "seg s2 z = take (unat r) (seg s z)"
      using r(2) c by (simp add: seg_def s2_def c1_def word_le_nat_alt take_bytes_at)
    ultimately show ?thesis using r by (simp add: as word_le_nat_alt)
  qed
  ultimately show ?thesis using as by (intro exI [of _ ?s'] exI [of _ as1]) auto
qed

section \<open>Headers\<close>

lemma ucast_small: "(n :: usize) \<le> 0xFFFF \<Longrightarrow> unat (ucast n :: u16) = unat n"
  by (simp add: unsigned_ucast_eq unsigned_take_bit_eq take_bit_nat_eq_self_iff word_le_nat_alt)

lemma pbuf_remove_header_spec:
  assumes "chain (pbufs s) (Some a) (a # as)" and "tot_ok (pbufs s) (a # as)"
    and "unat n \<le> unat (len (the (pbufs s a)))"
  shows "\<exists>s'. pbuf_remove_header s (Some a) n = ret (s', 0) \<and> memory s' = memory s \<and>
    (\<forall>x. x \<noteq> a \<longrightarrow> pbufs s' x = pbufs s x) \<and> blocks s' = blocks s \<and>
    chain (pbufs s') (Some a) (a # as) \<and> tot_ok (pbufs s') (a # as) \<and>
    data s' (a # as) = drop (unat n) (data s (a # as))"
proof -
  obtain b where b: "pbufs s a = Some b" using assms(1) by auto
  have "a \<notin> set as" using chain_distinct [OF assms(1)] by simp
  have small: "n \<le> 0xFFFF" using assms(3) unat_u16_less [of "len (the (pbufs s a))"]
    by (simp add: word_le_nat_alt del: unat_u16_less)
  let ?m = "ucast n :: u16"
  have m: "unat ?m = unat n" using small by (rule ucast_small)
  have len: "?m \<le> len b" "?m \<le> tot_len b" using assms(2,3) b m by (simp_all add: word_le_nat_alt)
  let ?b = "b\<lparr>payload := payload b + unat n, len := len b - ?m, tot_len := tot_len b - ?m\<rparr>"
  have "seg (upd s a ?b) a = drop (unat n) (seg s a)"
    using b assms(3) len by (simp add: seg_def unat_sub m drop_bytes_at)
  moreover have "data (upd s a ?b) as = data s as"
    using \<open>a \<notin> set as\<close> by (intro data_cong) (auto simp: seg_upd)
  ultimately have upd: "chain (pbufs (upd s a ?b)) (Some a) (a # as)"
    "tot_ok (pbufs (upd s a ?b)) (a # as)"
    "data (upd s a ?b) (a # as) = drop (unat n) (data s (a # as))"
    using assms b \<open>a \<notin> set as\<close> len by (auto simp: unat_sub m)
  show ?thesis
  proof (cases "n = 0")
    case True
    with assms small show ?thesis by (auto simp: pbuf_remove_header_def)
  next
    case False
    then have "pbuf_remove_header s (Some a) n = ret (upd s a ?b, 0)"
      using b small len by (simp add: pbuf_remove_header_def Let_def not_less)
    with upd show ?thesis by (intro exI [of _ "upd s a ?b"]) auto
  qed
qed

text \<open>
  Adding a header moves the start of the payload back inside the pbuf's own memory; removing it
  restores the state.
\<close>

lemma pbuf_add_header_impl_cases:
  assumes "pbuf_add_header_impl s (Some a) n force = ret (s', 0)"
  shows "n = 0 \<and> s' = s \<or>
    (\<exists>b. pbufs s a = Some b \<and> 0 < n \<and> n \<le> 0xFFFF \<and> unat n \<le> payload b \<and>
       unat (tot_len b) + unat n < 65536 \<and>
       (type_internal b AND PBUF_TYPE_FLAG_STRUCT_DATA_CONTIGUOUS \<noteq> 0 \<longrightarrow>
          a + SIZEOF_STRUCT_PBUF \<le> payload b - unat n) \<and>
       s' = upd s a (b\<lparr>payload := payload b - unat n, len := len b + ucast n,
                      tot_len := tot_len b + ucast n\<rparr>))"
proof (cases "n = 0")
  case False
  have n: "n \<le> 0xFFFF"
    by (rule ccontr) (use assms in \<open>simp add: pbuf_add_header_impl_def not_le\<close>)
  obtain b where b: "pbufs s a = Some b"
    using assms leD [OF n] False by (cases "pbufs s a") (auto simp: pbuf_add_header_impl_def deref_def)
  let ?m = "ucast n :: u16"
  let ?b = "b\<lparr>payload := payload b - unat n, len := len b + ?m, tot_len := tot_len b + ?m\<rparr>"
  let ?c = "type_internal b AND PBUF_TYPE_FLAG_STRUCT_DATA_CONTIGUOUS = 0"
  have res: "(if ?m + tot_len b < ?m then ret (s, 1)
     else if \<not> ?c then (if payload b - unat n < a + SIZEOF_STRUCT_PBUF then ret (s, 1)
                        else ret (upd s a ?b, 0))
     else if force then (if payload b < unat n then fault Out_of_bounds else ret (upd s a ?b, 0))
     else ret (s, 1)) = ret (s', 0 :: u8)"
    using assms leD [OF n] False b by (simp add: pbuf_add_header_impl_def Let_def)
  then have "\<not> ?m + tot_len b < ?m" and *: "s' = upd s a ?b"
    "\<not> ?c \<longrightarrow> a + SIZEOF_STRUCT_PBUF \<le> payload b - unat n" "?c \<longrightarrow> unat n \<le> payload b"
    by (simp_all split: if_split_asm)
  then have "unat (tot_len b) + unat n < 65536"
    using unat_u16_less [of "tot_len b"] ucast_small [OF n] n
    by (auto simp: word_less_nat_alt word_le_nat_alt unat_word_ariths mod_if simp del: unat_u16_less
        split: if_split_asm)
  moreover have "unat n \<le> payload b" using * by linarith
  moreover have "0 < n" using False by (simp add: word_gt_0)
  ultimately show ?thesis using b n * by blast
qed (use assms in \<open>simp add: pbuf_add_header_impl_def\<close>)

lemma upd_upd [simp]: "upd (upd s a b) a c = upd s a c"
  by (simp add: upd_def)

lemma upd_same: "pbufs s a = Some b \<Longrightarrow> upd s a b = s"
  by (simp add: upd_def fun_upd_idem)

lemma pbuf_add_header_data:
  assumes "pbuf_add_header_impl s (Some a) n force = ret (s', 0)"
    and "chain (pbufs s) (Some a) (a # as)" and "tot_ok (pbufs s) (a # as)"
  shows "pbuf_remove_header s' (Some a) n = ret (s, 0) \<and> memory s' = memory s \<and>
    chain (pbufs s') (Some a) (a # as) \<and> tot_ok (pbufs s') (a # as) \<and>
    lens (pbufs s') (a # as) = unat n + lens (pbufs s) (a # as) \<and>
    drop (unat n) (data s' (a # as)) = data s (a # as)"
  using pbuf_add_header_impl_cases [OF assms(1)]
proof (elim disjE conjE exE)
  assume "n = 0" "s' = s"
  then show ?thesis using assms by (simp add: pbuf_remove_header_def)
next
  fix b :: pbuf
  let ?m = "ucast n :: u16"
  let ?b = "b\<lparr>payload := payload b - unat n, len := len b + ?m, tot_len := tot_len b + ?m\<rparr>"
  assume b: "pbufs s a = Some b" "0 < n" "n \<le> 0xFFFF" "unat n \<le> payload b"
    "unat (tot_len b) + unat n < 65536" "s' = upd s a ?b"
  have "a \<notin> set as" using chain_distinct [OF assms(2)] by simp
  have m: "unat ?m = unat n" using b(3) by (rule ucast_small)
  have "unat (len b) \<le> unat (tot_len b)" using assms(3) b by simp
  with b(5) m have len: "unat (len b + ?m) = unat (len b) + unat n"
    "unat (tot_len b + ?m) = unat (tot_len b) + unat n"
    by (simp_all add: unat_word_ariths)
  have "?m \<le> len b + ?m" using len m by (simp add: word_le_nat_alt)
  moreover have "n \<noteq> 0" "\<not> 0xFFFF < n" using b(2,3) by auto
  ultimately have "pbuf_remove_header s' (Some a) n = ret (s, 0)"
    using b by (simp add: pbuf_remove_header_def Let_def upd_same)
  moreover have "data s' as = data s as"
    using \<open>a \<notin> set as\<close> b(6) by (intro data_cong) (auto simp: seg_upd)
  moreover have "drop (unat n) (seg s' a) = seg s a"
    using b len by (simp add: seg_def drop_bytes_at)
  moreover have "length (seg s' a) = unat n + unat (len b)" using b len by simp
  ultimately show ?thesis
    using assms(2,3) b len \<open>a \<notin> set as\<close> by (simp del: length_seg)
qed

section \<open>Splitting off the first pbuf\<close>

lemma pbuf_dechain_run:
  assumes "chain (pbufs s) (Some p) (p # q # as)" and "tot_ok (pbufs s) (p # q # as)"
    and "releasable s (q # as)" and "pbufs s p = Some b"
  defines "s2 \<equiv> upd s p (b\<lparr>pnext := None, tot_len := len b\<rparr>)"
  shows "pbuf_dechain E s p = ret (free_spec s2 (q # as),
      if of_nat (length (gone (pbufs s) (q # as))) > (0 :: u8) then None else Some q)"
proof -
  have p: "p \<notin> set (q # as)" using chain_distinct [OF assms(1)] by simp
  obtain c where c: "pbufs s q = Some c" using assms(1) by auto
  have next_: "pnext b = Some q" and tail: "chain (pbufs s) (Some q) (q # as)"
    using assms(1,4) by simp_all
  have tot: "unat (tot_len b) = unat (len b) + unat (tot_len c)" using assms(2,4) c by simp
  then have "unat (tot_len c) = unat (tot_len b - len b)"
    by (simp add: unat_sub word_le_nat_alt)
  then have same: "tot_len b - len b = tot_len c" by (metis word_unat_eq_iff)
  have s2: "pbufs s2 x = pbufs s x" if "x \<in> set (q # as)" for x
    using that p by (auto simp: s2_def fun_upd_apply)
  have "chain (pbufs s2) (Some q) (q # as)" using tail p by (simp add: s2_def)
  moreover have "\<forall>a \<in> set (q # as). ref (the (pbufs s2 a)) > 0 \<and> std s2 a"
    using assms(3) s2 by (auto simp: releasable_def std_def s2_def)
  ultimately have free: "pbuf_free E s2 (Some q) =
      ret (free_spec s2 (q # as), of_nat (length (gone (pbufs s2) (q # as))))"
    using set_gone [of "pbufs s2" "q # as"] by (intro pbuf_free_spec) auto
  have "gone (pbufs s2) (q # as) = gone (pbufs s) (q # as)"
    using p by (simp add: s2_def)
  moreover have "pbufs (free_spec s2 (q # as)) p = Some (b\<lparr>pnext := None, tot_len := len b\<rparr>)"
    using p pbufs_free_spec_other [of p "q # as" s2] by (simp add: s2_def)
  moreover have "upd (upd s q (c\<lparr>tot_len := tot_len b - len b\<rparr>)) p
      (b\<lparr>pnext := None, tot_len := len b\<rparr>) = s2"
    using c same by (simp add: upd_same s2_def)
  ultimately show ?thesis
    using assms(4) next_ c tot free by (simp add: pbuf_dechain_def Let_def)
qed

section \<open>Dropping bytes at the front\<close>

lemma blocks_free_spec_other: "x \<notin> set as \<Longrightarrow> blocks (free_spec s as) x = blocks s x"
proof (induction as arbitrary: s)
  case (Cons a as)
  then have "blocks (std_free s a) x = blocks s x" by (simp add: std_free_def Let_def)
  with Cons show ?case by simp
qed simp

lemma releasable_cong:
  assumes "releasable s as"
    and "\<And>x. x \<in> set as \<Longrightarrow> pbufs s' x = pbufs s x \<and> blocks s' x = blocks s x"
  shows "releasable s' as"
  using assms by (auto simp: releasable_def std_def)

lemma isolated_cong:
  assumes "isolated s as"
    and "\<And>x. x \<in> set as \<Longrightarrow> pbufs s' x = pbufs s x \<and> blocks s' x = blocks s x"
  shows "isolated s' as"
  using assms by (simp add: isolated_def)

lemma pbuf_free_single:
  assumes "pbufs s a = Some b" and "releasable s (a # as)" and "isolated s (a # as)" and "a \<notin> set as"
  defines "s2 \<equiv> free_spec (upd s a (b\<lparr>pnext := None\<rparr>)) [a]"
  shows "\<exists>n. pbuf_free E (upd s a (b\<lparr>pnext := None\<rparr>)) (Some a) = ret (s2, n)"
    and "\<And>x. x \<noteq> a \<Longrightarrow> pbufs s2 x = pbufs s x \<and> blocks s2 x = blocks s x"
    and "data s2 as = data s as"
proof -
  let ?s1 = "upd s a (b\<lparr>pnext := None\<rparr>)"
  have std: "\<forall>a \<in> set [a]. ref (the (pbufs ?s1 a)) > 0" "std ?s1 a"
    using assms(1,2) by (auto simp: releasable_def std_def pbuf_get_allocsrc_def)
  have "pbuf_free E ?s1 (Some a) = ret (s2, of_nat (length (gone (pbufs ?s1) [a])))"
    unfolding s2_def using std by (intro pbuf_free_spec) auto
  then show "\<exists>n. pbuf_free E ?s1 (Some a) = ret (s2, n)" by blast
  show "pbufs s2 x = pbufs s x \<and> blocks s2 x = blocks s x" if "x \<noteq> a" for x
    using that pbufs_free_spec_other [of x "[a]" ?s1] blocks_free_spec_other [of x "[a]" ?s1]
    by (simp add: s2_def)
  have "data s2 as = data ?s1 as"
    unfolding s2_def
  proof (rule free_tail_data)
    show "\<forall>c \<in> set [a]. \<forall>x \<in> set as. pbuf_get_allocsrc (the (pbufs ?s1 c)) = ALLOC_SRC_HEAP \<longrightarrow>
        apart c (the (blocks ?s1 c)) (payload (the (pbufs ?s1 x))) (unat (len (the (pbufs ?s1 x))))"
      using assms(1,3,4) by (auto simp: isolated_def fun_upd_apply pbuf_get_allocsrc_def)
  qed (use assms(4) std in auto)
  also have "\<dots> = data s as" using assms(4) by (intro data_cong) (auto simp: seg_upd)
  finally show "data s2 as = data s as" .
qed

lemma pbuf_free_header_spec:
  assumes "chain (pbufs s) p as" and "tot_ok (pbufs s) as" and "releasable s as" and "isolated s as"
  shows "\<exists>s' q bs. pbuf_free_header E s p n = ret (s', q) \<and> chain (pbufs s') q bs \<and>
    tot_ok (pbufs s') bs \<and> suffix bs as \<and> data s' bs = drop (unat n) (data s as)"
  using assms
proof (induction as arbitrary: s p n)
  case Nil
  then show ?case by (intro exI [of _ s] exI [of _ None]) (simp add: pbuf_free_header.simps)
next
  case (Cons a as)
  obtain b where b: "p = Some a" "pbufs s a = Some b" "chain (pbufs s) (pnext b) as"
    using Cons.prems(1) by auto
  have a: "a \<notin> set as" using chain_distinct [OF Cons.prems(1)] by simp
  consider "n = 0" | "n \<noteq> 0" "len b \<le> n" | "n \<noteq> 0" "n < len b" by fastforce
  then show ?case
  proof cases
    case 1
    then have "pbuf_free_header E s p n = ret (s, p)" by (simp add: pbuf_free_header.simps)
    with Cons.prems 1 show ?thesis by (intro exI [of _ s] exI [of _ p] exI [of _ "a # as"]) simp
  next
    case 2
    let ?s2 = "free_spec (upd s a (b\<lparr>pnext := None\<rparr>)) [a]"
    note one = pbuf_free_single [OF b(2) Cons.prems(3,4) a]
    obtain k where k: "pbuf_free E (upd s a (b\<lparr>pnext := None\<rparr>)) (Some a) = ret (?s2, k)"
      using one(1) by blast
    have same: "pbufs ?s2 x = pbufs s x \<and> blocks ?s2 x = blocks s x" if "x \<in> set as" for x
      using one(2) that a by metis
    have "chain (pbufs ?s2) (pnext b) as"
      using b(3) by (rule chain_cong [rotated]) (use same chain_live [OF b(3)] in auto)
    moreover have "tot_ok (pbufs ?s2) as"
      using Cons.prems(2) same tot_ok_cong [of as "pbufs ?s2" "pbufs s"] by simp
    moreover have "releasable s as" "isolated s as"
      using Cons.prems(3,4) by (simp_all add: releasable_def isolated_def)
    then have "releasable ?s2 as" "isolated ?s2 as"
      using same by (blast intro: releasable_cong isolated_cong)+
    ultimately obtain s' q bs where IH: "pbuf_free_header E ?s2 (pnext b) (n - len b) = ret (s', q)"
      "chain (pbufs s') q bs" "tot_ok (pbufs s') bs" "suffix bs as"
      "data s' bs = drop (unat (n - len b)) (data ?s2 as)"
      using Cons.IH by blast
    have "pbuf_free_header E s p n = ret (s', q)"
      using 2 b k IH(1) by (subst pbuf_free_header.simps) simp
    moreover have "data s' bs = drop (unat n) (data s (a # as))"
      using IH(5) one(3) 2(2) b by (simp add: unat_sub word_le_nat_alt)
    ultimately show ?thesis using IH(2-4) by (blast intro: suffix_ConsI)
  next
    case 3
    have "unat (ucast n :: usize) = unat n" by simp
    then obtain s' where s': "pbuf_remove_header s (Some a) (ucast n) = ret (s', 0)"
      "chain (pbufs s') (Some a) (a # as)" "tot_ok (pbufs s') (a # as)"
      "data s' (a # as) = drop (unat n) (data s (a # as))"
      using pbuf_remove_header_spec [of s a as "ucast n"] Cons.prems(1,2) b 3
      by (auto simp: word_less_nat_alt)
    have "pbuf_free_header E s' (Some a) 0 = ret (s', Some a)" by (simp add: pbuf_free_header.simps)
    then have "pbuf_free_header E s p n = ret (s', Some a)"
      using 3(1) leD [of "len b" n] 3(2) b s'(1) by (subst pbuf_free_header.simps) auto
    with s' show ?thesis by blast
  qed
qed

end
