(* ===== verification/Pbuf_Data.thy ===== *)
theory Pbuf_Data
  imports Pbuf_Chain
begin

text \<open>
  The payload of a chain as one list of bytes: the functions of \<open>core/pbuf.c\<close> that read, write,
  compare, search and copy payload are specified on \<open>data\<close>, whatever the split of the bytes
  into pbufs is.
\<close>

section \<open>Positions in a chain\<close>

definition hd_ptr :: "nat list \<Rightarrow> nat option" where
  "hd_ptr as = (case as of [] \<Rightarrow> None | a # _ \<Rightarrow> Some a)"

lemma hd_ptr_simps [simp]: "hd_ptr [] = None" "hd_ptr (a # as) = Some a"
  by (simp_all add: hd_ptr_def)

lemma hd_ptr_None [simp]: "hd_ptr as = None \<longleftrightarrow> as = []"
  by (cases as) simp_all

lemma chain_hd_ptr: "chain H p as \<Longrightarrow> p = hd_ptr as"
  by (cases as) simp_all

lemma chain_suffix: "chain H p (as @ bs) \<Longrightarrow> chain H (hd_ptr bs) bs"
  by (induction as arbitrary: p) (auto dest: chain_hd_ptr)

lemma pbuf_skip_const_spec:
  "chain (pbufs s) p as \<Longrightarrow>
   \<exists>pre suf k. pbuf_skip_const s p off = ret (hd_ptr suf, k) \<and> as = pre @ suf \<and>
     unat off = lens (pbufs s) pre + unat k \<and>
     (suf \<noteq> [] \<longrightarrow> unat k < unat (len (the (pbufs s (hd suf)))))"
proof (induction as arbitrary: p off)
  case Nil
  then show ?case
    by (intro exI [of _ "[]"] exI [of _ "[]"]) (simp add: pbuf_skip_const.simps)
next
  case (Cons a as)
  then obtain b where b: "p = Some a" "pbufs s a = Some b" "chain (pbufs s) (pnext b) as" by auto
  show ?case
  proof (cases "len b \<le> off")
    case True
    from Cons.IH [OF b(3), of "off - len b"] obtain pre suf k where
      IH: "pbuf_skip_const s (pnext b) (off - len b) = ret (hd_ptr suf, k)" "as = pre @ suf"
      "unat (off - len b) = lens (pbufs s) pre + unat k"
      "suf \<noteq> [] \<longrightarrow> unat k < unat (len (the (pbufs s (hd suf))))" by blast
    have "pbuf_skip_const s p off = ret (hd_ptr suf, k)"
      using b True IH(1) by (subst pbuf_skip_const.simps) simp
    moreover have "unat off = lens (pbufs s) (a # pre) + unat k"
      using IH(3) True b by (simp add: unat_sub word_le_nat_alt)
    ultimately show ?thesis using IH(2,4) by (intro exI [of _ "a # pre"] exI [of _ suf] exI [of _ k]) simp
  next
    case False
    then have "pbuf_skip_const s p off = ret (hd_ptr (a # as), off)"
      using b by (subst pbuf_skip_const.simps) simp
    with False b show ?thesis
      by (intro exI [of _ "[]"] exI [of _ "a # as"] exI [of _ off]) (simp add: word_le_nat_alt)
  qed
qed

lemma nth_data: "k < unat (len (the (pbufs s a))) \<Longrightarrow>
    data s (pre @ a # suf) ! (lens (pbufs s) pre + k) = seg s a ! k"
  by (simp add: nth_append)

lemma readable_nth:
  "readable s as \<Longrightarrow> a \<in> set as \<Longrightarrow> k < unat (len (the (pbufs s a))) \<Longrightarrow>
     memory s (payload (the (pbufs s a)) + k) = Some (seg s a ! k)"
  unfolding readable_def mapped_def seg_def by fastforce

section \<open>Reading and writing one byte\<close>

lemma pbuf_try_get_at_spec:
  assumes "chain (pbufs s) p as" and "readable s as"
  shows "pbuf_try_get_at s p off =
    ret (if unat off < length (data s as) then uint (data s as ! unat off) else - 1)"
proof -
  obtain pre suf k where k: "pbuf_skip_const s p off = ret (hd_ptr suf, k)" "as = pre @ suf"
    "unat off = lens (pbufs s) pre + unat k"
    "suf \<noteq> [] \<longrightarrow> unat k < unat (len (the (pbufs s (hd suf))))"
    using pbuf_skip_const_spec [OF assms(1)] by blast
  show ?thesis
  proof (cases suf)
    case Nil
    with k show ?thesis by (simp add: pbuf_try_get_at_def)
  next
    case (Cons a suf')
    with k(2) obtain b where b: "pbufs s a = Some b" using chain_live [OF assms(1), of a] by auto
    with k Cons have "k < len b" by (simp add: word_less_nat_alt)
    have "memory s (payload b + unat k) = Some (seg s a ! unat k)"
      using readable_nth [OF assms(2), of a "unat k"] k Cons b by simp
    then have "mread (memory s) (payload b + unat k) 1 = ret [seg s a ! unat k]"
      by (simp add: mread_eq mapped_def bytes_at_def)
    moreover have "data s as ! unat off = seg s a ! unat k"
      using nth_data [of "unat k" s a pre suf'] k Cons by simp
    ultimately show ?thesis
      using k Cons b \<open>k < len b\<close> by (simp add: pbuf_try_get_at_def)
  qed
qed

lemma pbuf_get_at_spec:
  assumes "chain (pbufs s) p as" and "readable s as"
  shows "pbuf_get_at s p off = ret (if unat off < length (data s as) then data s as ! unat off else 0)"
  by (simp add: pbuf_get_at_def pbuf_try_get_at_spec [OF assms])

text \<open>The memory ranges of the payloads of a chain do not overlap.\<close>

definition apart_seg :: "pstate \<Rightarrow> nat \<Rightarrow> nat \<Rightarrow> nat \<Rightarrow> bool" where
  "apart_seg s a d n \<longleftrightarrow> apart d n (payload (the (pbufs s a))) (unat (len (the (pbufs s a))))"

primrec disjoint_segs :: "pstate \<Rightarrow> nat list \<Rightarrow> bool" where
  "disjoint_segs s [] \<longleftrightarrow> True"
| "disjoint_segs s (a # as) \<longleftrightarrow>
     (\<forall>x \<in> set as. apart_seg s x (payload (the (pbufs s a))) (unat (len (the (pbufs s a))))) \<and>
     disjoint_segs s as"

lemma apart_seg_sub: "apart_seg s a d n \<Longrightarrow> i + j \<le> n \<Longrightarrow> apart_seg s a (d + i) j"
  unfolding apart_seg_def by (rule apart_sub)

lemma data_put_apart:
  assumes "\<And>x. x \<in> set as \<Longrightarrow> apart_seg s x d (length xs)"
  shows "data (s\<lparr>memory := put_bytes (memory s) d xs\<rparr>) as = data s as"
  using assms by (intro data_cong) (auto simp: seg_def apart_seg_def bytes_at_put_other)

lemma readable_put:
  "mapped (memory s) d (length xs) \<Longrightarrow>
     readable (s\<lparr>memory := put_bytes (memory s) d xs\<rparr>) as = readable s as"
  by (simp add: readable_def mapped_put_bytes)

lemma disjoint_segs_memory [simp]: "disjoint_segs (s\<lparr>memory := m\<rparr>) as = disjoint_segs s as"
  by (induction as) (auto simp: apart_seg_def)

lemma apart_seg_memory [simp]: "apart_seg (s\<lparr>memory := m\<rparr>) a d n = apart_seg s a d n"
  by (simp add: apart_seg_def)

lemma disjoint_segs_append [simp]:
  "disjoint_segs s (as @ bs) \<longleftrightarrow> disjoint_segs s as \<and> disjoint_segs s bs \<and>
     (\<forall>a \<in> set as. \<forall>x \<in> set bs. apart_seg s x (payload (the (pbufs s a))) (unat (len (the (pbufs s a)))))"
  by (induction as) auto

lemma apart_seg_sym:
  "apart_seg s x (payload (the (pbufs s a))) (unat (len (the (pbufs s a)))) =
   apart_seg s a (payload (the (pbufs s x))) (unat (len (the (pbufs s x))))"
  unfolding apart_seg_def by (rule apart_sym)

text \<open>Writing inside the payload of one pbuf of the chain.\<close>

lemma data_put_seg:
  assumes "disjoint_segs s (pre @ a # suf)" and "k + length xs \<le> unat (len (the (pbufs s a)))"
  shows "data (s\<lparr>memory := put_bytes (memory s) (payload (the (pbufs s a)) + k) xs\<rparr>) (pre @ a # suf) =
    take (lens (pbufs s) pre + k) (data s (pre @ a # suf)) @ xs @
    drop (lens (pbufs s) pre + k + length xs) (data s (pre @ a # suf))"
proof -
  let ?s' = "s\<lparr>memory := put_bytes (memory s) (payload (the (pbufs s a)) + k) xs\<rparr>"
  have ap: "apart_seg s x (payload (the (pbufs s a)) + k) (length xs)" if "x \<in> set pre \<union> set suf" for x
  proof -
    have "apart_seg s x (payload (the (pbufs s a))) (unat (len (the (pbufs s a))))"
      using assms(1) that apart_seg_sym [of s x a] by auto
    then show ?thesis using assms(2) by (rule apart_seg_sub)
  qed
  have "data ?s' pre = data s pre" "data ?s' suf = data s suf"
    using ap by (auto intro: data_put_apart)
  moreover have "seg ?s' a = take k (seg s a) @ xs @ drop (k + length xs) (seg s a)"
    using assms(2) by (simp add: seg_def bytes_at_put_sub)
  ultimately show ?thesis using assms(2) by (simp add: add.assoc)
qed

lemma pbuf_put_at_spec:
  assumes "chain (pbufs s) p as" and "readable s as" and "disjoint_segs s as"
  shows "\<exists>m. pbuf_put_at s p off v = ret (s\<lparr>memory := m\<rparr>) \<and>
    data (s\<lparr>memory := m\<rparr>) as = (data s as)[unat off := v] \<and> dom m = dom (memory s)"
proof -
  obtain pre suf k where k: "pbuf_skip_const s p off = ret (hd_ptr suf, k)" "as = pre @ suf"
    "unat off = lens (pbufs s) pre + unat k"
    "suf \<noteq> [] \<longrightarrow> unat k < unat (len (the (pbufs s (hd suf))))"
    using pbuf_skip_const_spec [OF assms(1)] by blast
  show ?thesis
  proof (cases suf)
    case Nil
    with k have "pbuf_put_at s p off v = ret s" by (simp add: pbuf_put_at_def pbuf_skip_def)
    with k Nil show ?thesis by (intro exI [of _ "memory s"]) (simp add: list_update_beyond)
  next
    case (Cons a suf')
    with k(2) obtain b where b: "pbufs s a = Some b" using chain_live [OF assms(1), of a] by auto
    with k Cons have klen: "k < len b" "unat k < unat (len b)" by (simp_all add: word_less_nat_alt)
    let ?m = "put_bytes (memory s) (payload b + unat k) [v]"
    have "memory s (payload b + unat k) \<noteq> None"
      using readable_nth [OF assms(2), of a "unat k"] k Cons b by simp
    then have mapped: "mapped (memory s) (payload b + unat k) 1" by (simp add: mapped_def)
    then have "pbuf_put_at s p off v = ret (s\<lparr>memory := ?m\<rparr>)"
      using k Cons b klen by (simp add: pbuf_put_at_def pbuf_skip_def mwrite_eq)
    moreover have "data (s\<lparr>memory := ?m\<rparr>) as =
        take (unat off) (data s as) @ [v] @ drop (Suc (unat off)) (data s as)"
      using data_put_seg [of s pre a suf' "unat k" "[v]"] assms(3) k Cons b klen by simp
    moreover have "unat off < length (data s as)" using k Cons klen b by simp
    ultimately show ?thesis
      using mapped by (intro exI [of _ ?m]) (simp add: upd_conv_take_nth_drop dom_put_bytes)
  qed
qed

lemma tot_ok_bound: "tot_ok H as \<Longrightarrow> lens H as < 65536"
proof (cases as)
  case (Cons a as')
  assume "tot_ok H as"
  then show ?thesis using unat_u16_less [of "tot_len (the (H a))"] Cons by (simp del: unat_u16_less)
qed simp

section \<open>Comparison and search\<close>

text \<open>The contract of a comparison: 0 for equal bytes, else the position after the first difference.\<close>

definition memcmp_post :: "u8 list \<Rightarrow> u8 list \<Rightarrow> u16 \<Rightarrow> bool" where
  "memcmp_post xs ys r \<longleftrightarrow>
     (r = 0 \<longleftrightarrow> xs = ys) \<and>
     (r \<noteq> 0 \<longrightarrow> unat r \<le> length xs \<and> xs ! (unat r - 1) \<noteq> ys ! (unat r - 1) \<and>
        take (unat r - 1) xs = take (unat r - 1) ys)"

lemma pbuf_memcmp_loop_spec:
  assumes "chain (pbufs s) q as" and "readable s as" and "unat start + unat n \<le> length (data s as)"
    and "unat n \<le> length s2" and "length (data s as) < 65536" and "unat i \<le> unat n"
    and "take (unat i) (drop (unat start) (data s as)) = take (unat i) s2"
  shows "\<exists>r. pbuf_memcmp_loop s q start s2 i n = ret r \<and>
    memcmp_post (take (unat n) (drop (unat start) (data s as))) (take (unat n) s2) r"
  using assms(6,7)
proof (induction "unat n - unat i" arbitrary: i)
  case 0
  then have "i = n" by (simp add: word_unat_eq_iff)
  with 0 show ?case by (subst pbuf_memcmp_loop.simps) (simp add: memcmp_post_def)
next
  case (Suc d)
  let ?xs = "drop (unat start) (data s as)"
  have i: "unat i < unat n" "i < n" using Suc.hyps(2) by (simp_all add: word_less_nat_alt)
  then have i1: "unat (i + 1) = Suc (unat i)"
    using unat_u16_less [of n] by (simp add: unat_word_ariths del: unat_u16_less)
  have si: "unat (start + i) = unat start + unat i"
    using assms(3,5) i by (simp add: unat_word_ariths)
  have get: "pbuf_get_at s q (start + i) = ret (?xs ! unat i)"
    using pbuf_get_at_spec [OF assms(1,2), of "start + i"] si assms(3) i by simp
  show ?case
  proof (cases "?xs ! unat i = s2 ! unat i")
    case True
    have "take (unat (i + 1)) ?xs = take (unat (i + 1)) s2"
      using True Suc.prems(2) i assms(3,4) unfolding i1 by (simp add: take_Suc_conv_app_nth)
    then obtain r where "pbuf_memcmp_loop s q start s2 (i + 1) n = ret r"
      "memcmp_post (take (unat n) ?xs) (take (unat n) s2) r"
      using Suc.hyps(1) [of "i + 1"] Suc.hyps(2) i i1 by fastforce
    moreover have "pbuf_memcmp_loop s q start s2 i n = pbuf_memcmp_loop s q start s2 (i + 1) n"
      using i get True assms(4) by (subst pbuf_memcmp_loop.simps) simp
    ultimately show ?thesis by auto
  next
    case False
    have "unat i + 1 < 65536" using i unat_u16_less [of n] by (simp del: unat_u16_less)
    then have r: "of_nat (min (unat i + 1) 0xFFFF) = i + 1" "i + 1 \<noteq> 0"
      using i1 by (auto simp: word_unat_eq_iff unat_of_nat take_bit_nat_eq_self add.commute)
    have "pbuf_memcmp_loop s q start s2 i n = ret (i + 1)"
      using i get False assms(4) r by (subst pbuf_memcmp_loop.simps) simp
    moreover have "take (unat n) ?xs \<noteq> take (unat n) s2"
      using False i by (metis nth_take)
    ultimately show ?thesis
      using False i i1 r Suc.prems(2) assms(3,4) by (auto simp: memcmp_post_def min_def)
  qed
qed

lemma pbuf_memcmp_spec:
  assumes "chain (pbufs s) (Some p) as" and "tot_ok (pbufs s) as" and "readable s as"
    and "unat n \<le> length s2"
  shows "\<exists>r. pbuf_memcmp s (Some p) off s2 n = ret r \<and>
    (if unat off + unat n > length (data s as) then r = 0xFFFF
     else memcmp_post (take (unat n) (drop (unat off) (data s as))) (take (unat n) s2) r)"
proof -
  obtain b where b: "pbufs s p = Some b" "unat (tot_len b) = length (data s as)"
    using assms(1,2) by (auto simp: chain_Some)
  show ?thesis
  proof (cases "unat off + unat n > length (data s as)")
    case True
    with b show ?thesis by (simp add: pbuf_memcmp_def)
  next
    case False
    obtain pre suf k where k: "pbuf_skip_const s (Some p) off = ret (hd_ptr suf, k)" "as = pre @ suf"
      "unat off = lens (pbufs s) pre + unat k"
      using pbuf_skip_const_spec [OF assms(1)] by blast
    have "length (data s as) < 65536" using tot_ok_bound [OF assms(2)] by simp
    moreover have "drop (unat off) (data s as) = drop (unat k) (data s suf)" using k by simp
    ultimately obtain r where "pbuf_memcmp_loop s (hd_ptr suf) k s2 0 n = ret r"
      "memcmp_post (take (unat n) (drop (unat off) (data s as))) (take (unat n) s2) r"
      using pbuf_memcmp_loop_spec [of s "hd_ptr suf" suf k n s2 0] False k assms
        chain_suffix [of "pbufs s" "Some p" pre suf] by auto
    with b False k(1) show ?thesis by (simp add: pbuf_memcmp_def)
  qed
qed

text \<open>The contract of a search from \<open>i\<close>: the first position where the pattern occurs.\<close>

definition occurs_at :: "u8 list \<Rightarrow> u8 list \<Rightarrow> nat \<Rightarrow> bool" where
  "occurs_at pat xs i \<longleftrightarrow> i + length pat \<le> length xs \<and> take (length pat) (drop i xs) = pat"

definition memfind_post :: "u8 list \<Rightarrow> u8 list \<Rightarrow> nat \<Rightarrow> u16 \<Rightarrow> bool" where
  "memfind_post pat xs i r \<longleftrightarrow>
     (if \<exists>j \<ge> i. occurs_at pat xs j
      then i \<le> unat r \<and> occurs_at pat xs (unat r) \<and> (\<forall>j. i \<le> j \<longrightarrow> j < unat r \<longrightarrow> \<not> occurs_at pat xs j)
      else r = 0xFFFF)"

lemma memfind_post_Suc:
  assumes "\<not> occurs_at pat xs k" and "memfind_post pat xs (Suc k) r"
  shows "memfind_post pat xs k r"
proof -
  have *: "k \<le> j \<longleftrightarrow> Suc k \<le> j" if "occurs_at pat xs j" for j
    using that assms(1) by (metis Suc_leD le_antisym not_less_eq_eq)
  then have ex: "(\<exists>j \<ge> k. occurs_at pat xs j) \<longleftrightarrow> (\<exists>j \<ge> Suc k. occurs_at pat xs j)" by blast
  show ?thesis
    using assms(2) * unfolding memfind_post_def ex by (cases "\<exists>j \<ge> Suc k. occurs_at pat xs j") auto
qed

lemma pbuf_memfind_loop_spec:
  assumes "chain (pbufs s) (Some p) as" and "tot_ok (pbufs s) as" and "readable s as"
    and "unat n = length pat" and "length pat \<le> length (data s as)"
    and "unat mx = length (data s as) - length pat" and "0 < length pat" and "unat i \<le> Suc (unat mx)"
  shows "\<exists>r. pbuf_memfind_loop s (Some p) pat n i mx = ret r \<and> memfind_post pat (data s as) (unat i) r"
  using assms(8)
proof (induction "Suc (unat mx) - unat i" arbitrary: i)
  case 0
  then have "\<not> i \<le> mx" by (simp add: word_le_nat_alt)
  moreover have "\<not> (\<exists>j \<ge> unat i. occurs_at pat (data s as) j)"
    using 0 assms(5,6) by (auto simp: occurs_at_def)
  then have "memfind_post pat (data s as) (unat i) 0xFFFF" by (auto simp: memfind_post_def)
  ultimately show ?case by (subst pbuf_memfind_loop.simps) simp
next
  case (Suc d)
  then have i: "i \<le> mx" "unat i \<le> unat mx" by (simp_all add: word_le_nat_alt)
  have "unat mx < 65535"
    using tot_ok_bound [OF assms(2)] assms(6,7) by (simp del: length_greater_0_conv)
  with i have i1: "unat (i + 1) = Suc (unat i)" by (simp add: unat_word_ariths)
  have fits: "unat i + length pat \<le> length (data s as)" using i assms(5,6) by simp
  then obtain r where cmp: "pbuf_memcmp s (Some p) i pat n = ret r"
    "memcmp_post (take (length pat) (drop (unat i) (data s as))) pat r"
    using pbuf_memcmp_spec [OF assms(1-3), of n pat i] assms(4) by (auto simp: not_less)
  then have r: "r = 0 \<longleftrightarrow> occurs_at pat (data s as) (unat i)"
    using fits by (auto simp: memcmp_post_def occurs_at_def)
  show ?case
  proof (cases "r = 0")
    case True
    then have "pbuf_memfind_loop s (Some p) pat n i mx = ret i"
      using i cmp by (subst pbuf_memfind_loop.simps) simp
    with r True show ?thesis by (auto simp: memfind_post_def)
  next
    case False
    then have "pbuf_memfind_loop s (Some p) pat n i mx = pbuf_memfind_loop s (Some p) pat n (i + 1) mx"
      using i cmp by (subst pbuf_memfind_loop.simps) simp
    moreover obtain r' where "pbuf_memfind_loop s (Some p) pat n (i + 1) mx = ret r'"
      "memfind_post pat (data s as) (unat (i + 1)) r'"
      using Suc.hyps(1) [of "i + 1"] Suc.hyps(2) i i1 by fastforce
    ultimately show ?thesis using False r i1 by (auto intro: memfind_post_Suc)
  qed
qed

lemma pbuf_memfind_spec:
  assumes "chain (pbufs s) (Some p) as" and "tot_ok (pbufs s) as" and "readable s as"
    and "unat n = length pat" and "0 < length pat"
  shows "\<exists>r. pbuf_memfind s (Some p) pat n start = ret r \<and> memfind_post pat (data s as) (unat start) r"
proof -
  obtain b where b: "pbufs s p = Some b" "unat (tot_len b) = length (data s as)"
    using assms(1,2) by (auto simp: chain_Some)
  show ?thesis
  proof (cases "unat n + unat start \<le> unat (tot_len b)")
    case True
    then have "unat (tot_len b - n) = length (data s as) - length pat"
      using b assms(4) by (simp add: unat_sub word_le_nat_alt)
    then show ?thesis
      using pbuf_memfind_loop_spec [OF assms(1-4), of "tot_len b - n" start] True b assms(4,5)
      by (auto simp: pbuf_memfind_def Let_def)
  next
    case False
    then have "\<not> (\<exists>j \<ge> unat start. occurs_at pat (data s as) j)"
      using b assms(4) by (auto simp: occurs_at_def)
    then have "memfind_post pat (data s as) (unat start) 0xFFFF" by (auto simp: memfind_post_def)
    with False b show ?thesis by (simp add: pbuf_memfind_def Let_def)
  qed
qed

end
