(* ===== verification/Pbuf_Alloc.thy ===== *)
theory Pbuf_Alloc
  imports Pbuf_Chain
begin

text \<open>
  The \<open>PBUF_POOL\<close> case of \<open>pbuf_alloc\<close>: the loop hands out elements of the pool, links them
  into a chain and, when the pool runs out, gives the whole chain back. The proof follows the
  loop: \<open>partial_chain\<close> is its invariant, \<open>link_pool\<close> the effect of one iteration.
\<close>

section \<open>Allocation from the pool\<close>

text \<open>
  A pbuf as \<open>pbuf_alloc\<close> sets it up in a pool element, and the \<open>tot_len\<close> fields of a
  chain to which \<open>r\<close> bytes are still to be added.
\<close>

definition pool_pbuf :: "pheap \<Rightarrow> nat \<Rightarrow> bool" where
  "pool_pbuf H q \<longleftrightarrow> (\<exists>b. H q = Some b \<and> ref b = 1 \<and> flags b = 0 \<and> type_internal b = 0x82 \<and>
     q + SIZEOF_STRUCT_PBUF \<le> payload b \<and>
     payload b + unat (len b) \<le> q + SIZEOF_STRUCT_PBUF + unat PBUF_POOL_BUFSIZE_ALIGNED)"

primrec tot_plus :: "pheap \<Rightarrow> nat \<Rightarrow> nat list \<Rightarrow> bool" where
  "tot_plus H r [] \<longleftrightarrow> True"
| "tot_plus H r (a # as) \<longleftrightarrow> unat (tot_len (the (H a))) = lens H (a # as) + r \<and> tot_plus H r as"

lemma tot_plus_0 [simp]: "tot_plus H 0 as = tot_ok H as"
  by (induction as) auto

lemma tot_plus_fun_upd [simp]: "a \<notin> set as \<Longrightarrow> tot_plus (H(a := x)) r as = tot_plus H r as"
  by (induction as) auto

lemma tot_plus_cong:
  assumes "\<And>x. x \<in> set as \<Longrightarrow>
      len (the (H' x)) = len (the (H x)) \<and> tot_len (the (H' x)) = tot_len (the (H x))"
  shows "tot_plus H' r as = tot_plus H r as"
  using assms
proof (induction as)
  case (Cons a as)
  then have "lens H' as = lens H as" by (intro lens_cong) auto
  with Cons show ?case by auto
qed simp

lemma tot_plus_snoc:
  "tot_plus H r as \<Longrightarrow> unat (tot_len (the (H q))) = r \<Longrightarrow> unat (len (the (H q))) \<le> r \<Longrightarrow>
     tot_plus H (r - unat (len (the (H q)))) (as @ [q])"
  by (induction as) auto

lemma pool_free_chain:
  assumes "chain (pbufs s) (Some h) as" and "\<forall>x \<in> set as. pool_pbuf (pbufs s) x"
  shows "\<exists>s' n. pbuf_free E s (Some h) = ret (s', n) \<and>
    pbufs s' = pbufs s |` (- set as) \<and>
    tab (memp_pbuf_pool s') = rev as @ tab (memp_pbuf_pool s)"
proof -
  have ref: "ref (the (pbufs s x)) = 1 \<and> flags (the (pbufs s x)) = 0 \<and>
      pbuf_get_allocsrc (the (pbufs s x)) = ALLOC_SRC_MEMP_PBUF_POOL" if "x \<in> set as" for x
    using assms(2) that by (auto simp: pool_pbuf_def pbuf_get_allocsrc_def)
  then have gone: "gone (pbufs s) as = as" by (simp add: gone_def)
  have "\<forall>x \<in> set as. std s x" using ref by (auto simp: std_def)
  with gone ref have "pbuf_free E s (Some h) = ret (free_spec s as, of_nat (length as))"
    using pbuf_free_spec [OF assms(1)] by simp
  moreover have "distinct as" using assms(1) by (rule chain_distinct)
  then have "pbufs (free_spec s as) = pbufs s |` (- set as)"
    "tab (memp_pbuf_pool (free_spec s as)) = rev as @ tab (memp_pbuf_pool s)"
    using ref gone by (simp_all add: pbufs_free_spec pool_free_spec drop_ref_def)
  ultimately show ?thesis by blast
qed

lemma pbufs_pool_is_empty [simp]:
  "pbufs (pbuf_pool_is_empty E s) = pbufs s"
  "memp_pbuf_pool (pbuf_pool_is_empty E s) = memp_pbuf_pool s"
  "memory (pbuf_pool_is_empty E s) = memory s"
  "blocks (pbuf_pool_is_empty E s) = blocks s"
  by (simp_all add: pbuf_pool_is_empty_def Let_def)

text \<open>One step of the loop: the new pbuf is initialised and linked behind the chain so far.\<close>

definition link_pool :: "pstate \<Rightarrow> nat option \<Rightarrow> nat \<Rightarrow> nat \<Rightarrow> u16 \<Rightarrow> u16 \<Rightarrow> pstate" where
  "link_pool s p prev q rem_len offset =
     (let qlen = min rem_len (PBUF_POOL_BUFSIZE_ALIGNED - offset);
          s1 = pbuf_init_alloced_pbuf
                 (s\<lparr>memp_pbuf_pool := fst (do_memp_malloc_pool (memp_pbuf_pool s))\<rparr>) q
                 (q + SIZEOF_STRUCT_PBUF + unat offset) rem_len qlen PBUF_POOL 0
      in if p = None then s1 else upd s1 prev ((the (pbufs s1 prev))\<lparr>pnext := Some q\<rparr>))"

lemma pbuf_alloc_pool_step:
  assumes "tab (memp_pbuf_pool s) = q # qs" and "offset < PBUF_POOL_BUFSIZE_ALIGNED"
    and "p \<noteq> None \<Longrightarrow> pbufs s prev \<noteq> None \<and> prev \<noteq> q"
  shows "pbuf_alloc_pool E s p prev rem_len offset =
    (let qlen = min rem_len (PBUF_POOL_BUFSIZE_ALIGNED - offset);
         s2 = link_pool s p prev q rem_len offset;
         p' = (if p = None then Some q else p)
     in if rem_len - qlen > 0 then pbuf_alloc_pool E s2 p' q (rem_len - qlen) 0 else ret (s2, p'))"
proof -
  obtain d where d: "do_memp_malloc_pool (memp_pbuf_pool s) = (d, Some q)"
    using assms(1) by (simp add: do_memp_malloc_pool_def Let_def)
  let ?s1 = "pbuf_init_alloced_pbuf (s\<lparr>memp_pbuf_pool := d\<rparr>) q (q + SIZEOF_STRUCT_PBUF + unat offset)
      rem_len (min rem_len (PBUF_POOL_BUFSIZE_ALIGNED - offset)) PBUF_POOL 0"
  have "deref ?s1 (Some prev) = ret (the (pbufs ?s1 prev))" if "p \<noteq> None"
    using assms(3) [OF that] by (auto simp: pbuf_init_alloced_pbuf_def)
  moreover have "(0 < PBUF_POOL_BUFSIZE_ALIGNED - offset) = True"
    using assms(2) by (auto simp: word_gt_0)
  ultimately show ?thesis
    using d by (subst pbuf_alloc_pool.simps) (simp add: link_pool_def Let_def del: not_None_eq)
qed

lemma pbuf_alloc_pool_empty:
  assumes "tab (memp_pbuf_pool s) = []"
  shows "pbuf_alloc_pool E s p prev rem_len offset =
    (let s1 = pbuf_pool_is_empty E (s\<lparr>memp_pbuf_pool := fst (do_memp_malloc_pool (memp_pbuf_pool s))\<rparr>)
     in if p = None then ret (s1, None) else bindR (pbuf_free E s1 p) (\<lambda>(s2, _). ret (s2, None)))"
  using assms by (subst pbuf_alloc_pool.simps) (simp add: do_memp_malloc_pool_def Let_def)

lemma type_internal_POOL: "(0x182 :: u8) = 0x82"
  by simp

lemma pbufs_link_pool:
  assumes "p \<noteq> None \<Longrightarrow> prev \<noteq> q"
  shows "pbufs (link_pool s p prev q rem_len offset) =
    (let H = (pbufs s)(q \<mapsto> \<lparr>pnext = None, payload = q + SIZEOF_STRUCT_PBUF + unat offset,
        tot_len = rem_len, len = min rem_len (PBUF_POOL_BUFSIZE_ALIGNED - offset),
        type_internal = 0x82, flags = 0, ref = 1, if_idx = 0\<rparr>)
     in if p = None then H else H(prev \<mapsto> (the (pbufs s prev))\<lparr>pnext := Some q\<rparr>))"
  using assms by (simp add: link_pool_def Let_def pbuf_init_alloced_pbuf_def type_internal_POOL)

lemma tab_link_pool: "tab (memp_pbuf_pool (link_pool s p prev q rem_len offset)) = tl (tab (memp_pbuf_pool s))"
  by (simp add: link_pool_def Let_def pbuf_init_alloced_pbuf_def do_memp_malloc_pool_def
      split: list.splits)

definition partial_chain :: "pstate \<Rightarrow> nat option \<Rightarrow> nat \<Rightarrow> u16 \<Rightarrow> nat list \<Rightarrow> bool" where
  "partial_chain s p prev r as \<longleftrightarrow> chain (pbufs s) p as \<and> (as \<noteq> [] \<longrightarrow> prev = last as) \<and>
     tot_plus (pbufs s) (unat r) as \<and> (\<forall>x \<in> set as. pool_pbuf (pbufs s) x)"

lemma link_pool_chain:
  assumes "partial_chain s p prev r as" and "q \<notin> set as" and "offset < PBUF_POOL_BUFSIZE_ALIGNED"
  defines "qlen \<equiv> min r (PBUF_POOL_BUFSIZE_ALIGNED - offset)"
    and "s2 \<equiv> link_pool s p prev q r offset"
  shows "partial_chain s2 (if p = None then Some q else p) q (r - qlen) (as @ [q]) \<and>
    lens (pbufs s2) (as @ [q]) = lens (pbufs s) as + unat qlen \<and>
    (\<forall>x. x \<notin> set as \<longrightarrow> x \<noteq> q \<longrightarrow> pbufs s2 x = pbufs s x)"
proof -
  have as: "chain (pbufs s) p as" "as \<noteq> [] \<longrightarrow> prev = last as" "tot_plus (pbufs s) (unat r) as"
    "\<forall>x \<in> set as. pool_pbuf (pbufs s) x"
    using assms(1) by (auto simp: partial_chain_def)
  have prev: "p \<noteq> None \<Longrightarrow> as \<noteq> [] \<and> prev = last as \<and> prev \<noteq> q \<and> prev \<in> set as"
    using as(1,2) assms(2) by (cases as) auto
  then have ne: "p \<noteq> None \<Longrightarrow> prev \<noteq> q" by blast
  note H = pbufs_link_pool [of p prev q s r offset, OF ne, folded s2_def qlen_def]
  have old: "\<exists>b b'. pbufs s x = Some b \<and> pbufs s2 x = Some b' \<and> len b' = len b \<and>
      tot_len b' = tot_len b \<and> payload b' = payload b \<and> ref b' = ref b \<and> flags b' = flags b \<and>
      type_internal b' = type_internal b \<and> (x \<noteq> last as \<longrightarrow> pnext b' = pnext b)"
    if "x \<in> set as" for x
    using that chain_live [OF as(1) that] H prev assms(2) as(1)
    by (cases p) (auto simp: Let_def fun_upd_apply)
  have q: "\<exists>b. pbufs s2 q = Some b \<and> pnext b = None \<and> payload b = q + SIZEOF_STRUCT_PBUF + unat offset \<and>
      len b = qlen \<and> tot_len b = r \<and> flags b = 0 \<and> ref b = 1 \<and> type_internal b = 0x82"
    using H prev by (cases p) (auto simp: Let_def)
  have off: "unat (PBUF_POOL_BUFSIZE_ALIGNED - offset) = 590 - unat offset" "unat offset < 590"
    using assms(3) by (simp_all add: unat_sub less_imp_le word_less_nat_alt)
  have qlen: "unat qlen \<le> unat r" "unat qlen \<le> 590 - unat offset" "unat (r - qlen) = unat r - unat qlen"
    using off by (simp_all add: qlen_def min_def unat_sub word_le_nat_alt)
  have "pool_pbuf (pbufs s2) q" using q qlen off by (auto simp: pool_pbuf_def)
  moreover have "pool_pbuf (pbufs s2) x" if "x \<in> set as" for x
    using as(4) old [OF that] that by (auto simp: pool_pbuf_def)
  moreover have "chain (pbufs s2) (if p = None then Some q else p) (as @ [q])"
  proof (cases p)
    case None
    then show ?thesis using as(1) q by auto
  next
    case (Some h)
    with prev obtain as' where as': "as = as' @ [prev]" by (metis append_butlast_last_id option.distinct(1))
    have "chain (pbufs s2) (Some prev) (prev # [q])"
      using H Some prev q by (auto simp: Let_def)
    moreover have "distinct as" using as(1) by (rule chain_distinct)
    then have "pbufs s2 x \<noteq> None \<and> pnext (the (pbufs s2 x)) = pnext (the (pbufs s x))"
      if "x \<in> set as'" for x
      using old [of x] that as' by auto
    ultimately have "chain (pbufs s2) p (as' @ prev # [q])"
      using chain_replace_tail [of "pbufs s" p as' prev "[]" "pbufs s2" "[q]"] as(1) as' by blast
    then show ?thesis using Some as' by simp
  qed
  moreover have "lens (pbufs s2) as = lens (pbufs s) as"
    by (rule lens_cong) (use old in fastforce)
  moreover have "tot_plus (pbufs s2) (unat r) as = tot_plus (pbufs s) (unat r) as"
    by (rule tot_plus_cong) (use old in fastforce)
  then have "tot_plus (pbufs s2) (unat (r - qlen)) (as @ [q])"
    using tot_plus_snoc [of "pbufs s2" "unat r" as q] as(3) q qlen by auto
  moreover have "pbufs s2 x = pbufs s x" if "x \<notin> set as" "x \<noteq> q" for x
    using H that prev by (cases p) (auto simp: Let_def fun_upd_apply)
  ultimately show ?thesis using q by (auto simp: partial_chain_def)
qed

lemma pbuf_alloc_pool_spec:
  assumes "partial_chain s p prev r as" and "distinct (as @ tab (memp_pbuf_pool s))"
    and "\<forall>x \<in> set (tab (memp_pbuf_pool s)). pbufs s x = None" and "offset < PBUF_POOL_BUFSIZE_ALIGNED"
  shows "(\<exists>s' h bs. pbuf_alloc_pool E s p prev r offset = ret (s', Some h) \<and>
      chain (pbufs s') (Some h) (as @ bs) \<and> tot_ok (pbufs s') (as @ bs) \<and>
      lens (pbufs s') (as @ bs) = lens (pbufs s) as + unat r \<and>
      (\<forall>x \<in> set (as @ bs). pool_pbuf (pbufs s') x) \<and>
      bs @ tab (memp_pbuf_pool s') = tab (memp_pbuf_pool s) \<and>
      (\<forall>x. x \<notin> set (as @ bs) \<longrightarrow> pbufs s' x = pbufs s x)) \<or>
    (\<exists>s'. pbuf_alloc_pool E s p prev r offset = ret (s', None) \<and>
      set (tab (memp_pbuf_pool s')) = set as \<union> set (tab (memp_pbuf_pool s)) \<and>
      pbufs s' = pbufs s |` (- set as))"
  using assms
proof (induction "tab (memp_pbuf_pool s)" arbitrary: s p prev r as offset)
  case Nil
  let ?s1 = "pbuf_pool_is_empty E
      (s\<lparr>memp_pbuf_pool := fst (do_memp_malloc_pool (memp_pbuf_pool s))\<rparr>)"
  have s1: "pbufs ?s1 = pbufs s" "tab (memp_pbuf_pool ?s1) = []"
    using Nil.hyps by (simp_all add: do_memp_malloc_pool_def split: list.split)
  note run = pbuf_alloc_pool_empty [OF Nil.hyps [symmetric], of E p prev r offset]
  show ?case
  proof (cases p)
    case None
    then have "as = []" using Nil.prems(1) by (simp add: partial_chain_def)
    with None run s1 Nil.hyps show ?thesis by (simp add: Let_def restrict_map_def)
  next
    case (Some h)
    with Nil.prems(1) s1 have "chain (pbufs ?s1) (Some h) as" "\<forall>x \<in> set as. pool_pbuf (pbufs ?s1) x"
      by (simp_all add: partial_chain_def)
    from pool_free_chain [OF this, of E] obtain s' n where "pbuf_free E ?s1 (Some h) = ret (s', n)"
      "pbufs s' = pbufs ?s1 |` (- set as)" "tab (memp_pbuf_pool s') = rev as @ tab (memp_pbuf_pool ?s1)"
      by blast
    with Some run s1 Nil.hyps show ?thesis by (intro disjI2 exI [of _ s']) (simp add: Let_def)
  qed
next
  case (Cons q qs)
  define qlen where "qlen = min r (PBUF_POOL_BUFSIZE_ALIGNED - offset)"
  define s2 where "s2 = link_pool s p prev q r offset"
  define p' where "p' = (if p = None then Some q else p)"
  have tab: "tab (memp_pbuf_pool s) = q # qs" using Cons.hyps by simp
  then have q: "q \<notin> set as" "pbufs s q = None" using Cons.prems(2,3) by simp_all
  have prev: "p \<noteq> None \<Longrightarrow> pbufs s prev \<noteq> None \<and> prev \<noteq> q"
    using Cons.prems(1) q chain_live [of "pbufs s" p as prev]
    by (cases as) (auto simp: partial_chain_def)
  note run = pbuf_alloc_pool_step [where E = E and p = p and rem_len = r, OF tab Cons.prems(4) prev,
      folded qlen_def s2_def p'_def]
  note link = link_pool_chain [OF Cons.prems(1) q(1) Cons.prems(4), folded qlen_def s2_def p'_def]
  have tab2: "tab (memp_pbuf_pool s2) = qs" by (simp add: s2_def tab_link_pool tab)
  have sub: "unat (r - qlen) = unat r - unat qlen" "unat qlen \<le> unat r"
    by (simp_all add: qlen_def min_def unat_sub word_le_nat_alt)
  show ?case
  proof (cases "r - qlen > 0")
    case False
    then have "r - qlen = 0" by (simp add: word_gt_0)
    with run have "pbuf_alloc_pool E s p prev r offset = ret (s2, p')" by simp
    moreover obtain h where "p' = Some h" by (cases p) (auto simp: p'_def)
    moreover have "unat qlen = unat r" using sub \<open>r - qlen = 0\<close> by simp
    ultimately show ?thesis
      using link tab2 tab \<open>r - qlen = 0\<close>
      by (intro disjI1 exI [of _ s2] exI [of _ h] exI [of _ "[q]"]) (auto simp: partial_chain_def)
  next
    case True
    with run have eq: "pbuf_alloc_pool E s p prev r offset = pbuf_alloc_pool E s2 p' q (r - qlen) 0"
      by simp
    have frame: "pbufs s2 x = pbufs s x" if "x \<notin> set as" "x \<noteq> q" for x
      using link that by blast
    have "distinct ((as @ [q]) @ tab (memp_pbuf_pool s2))" using Cons.prems(2) tab tab2 by auto
    moreover have "\<forall>x \<in> set (tab (memp_pbuf_pool s2)). pbufs s2 x = None"
    proof
      fix x assume "x \<in> set (tab (memp_pbuf_pool s2))"
      with Cons.prems(2) tab tab2 have "x \<notin> set as" "x \<noteq> q" "x \<in> set (tab (memp_pbuf_pool s))" by auto
      with Cons.prems(3) frame show "pbufs s2 x = None" by simp
    qed
    moreover have "partial_chain s2 p' q (r - qlen) (as @ [q])" using link by blast
    ultimately have IH: "(\<exists>s' h bs. pbuf_alloc_pool E s2 p' q (r - qlen) 0 = ret (s', Some h) \<and>
      chain (pbufs s') (Some h) ((as @ [q]) @ bs) \<and> tot_ok (pbufs s') ((as @ [q]) @ bs) \<and>
      lens (pbufs s') ((as @ [q]) @ bs) = lens (pbufs s2) (as @ [q]) + unat (r - qlen) \<and>
      (\<forall>x \<in> set ((as @ [q]) @ bs). pool_pbuf (pbufs s') x) \<and>
      bs @ tab (memp_pbuf_pool s') = tab (memp_pbuf_pool s2) \<and>
      (\<forall>x. x \<notin> set ((as @ [q]) @ bs) \<longrightarrow> pbufs s' x = pbufs s2 x)) \<or>
    (\<exists>s'. pbuf_alloc_pool E s2 p' q (r - qlen) 0 = ret (s', None) \<and>
      set (tab (memp_pbuf_pool s')) = set (as @ [q]) \<union> set (tab (memp_pbuf_pool s2)) \<and>
      pbufs s' = pbufs s2 |` (- set (as @ [q])))"
      using tab2 by (intro Cons.hyps(1)) auto
    show ?thesis
      using IH
    proof (elim disjE exE conjE)
      fix s' h bs
      assume *: "pbuf_alloc_pool E s2 p' q (r - qlen) 0 = ret (s', Some h)"
        "chain (pbufs s') (Some h) ((as @ [q]) @ bs)" "tot_ok (pbufs s') ((as @ [q]) @ bs)"
        "lens (pbufs s') ((as @ [q]) @ bs) = lens (pbufs s2) (as @ [q]) + unat (r - qlen)"
        "\<forall>x \<in> set ((as @ [q]) @ bs). pool_pbuf (pbufs s') x"
        "bs @ tab (memp_pbuf_pool s') = tab (memp_pbuf_pool s2)"
        "\<forall>x. x \<notin> set ((as @ [q]) @ bs) \<longrightarrow> pbufs s' x = pbufs s2 x"
      then show ?thesis
        using eq link sub tab tab2 frame
        by (intro disjI1 exI [of _ s'] exI [of _ h] exI [of _ "q # bs"]) simp
    next
      fix s'
      assume *: "pbuf_alloc_pool E s2 p' q (r - qlen) 0 = ret (s', None)"
        "set (tab (memp_pbuf_pool s')) = set (as @ [q]) \<union> set (tab (memp_pbuf_pool s2))"
        "pbufs s' = pbufs s2 |` (- set (as @ [q]))"
      moreover have "pbufs s2 |` (- set (as @ [q])) = pbufs s |` (- set as)"
        using frame q(2) by (auto simp: restrict_map_def)
      ultimately show ?thesis
        using eq tab tab2 by (intro disjI2 exI [of _ s']) auto
    qed
  qed
qed

end
