(* ===== verification/Pbuf_Copy.thy ===== *)
theory Pbuf_Copy
  imports Pbuf_Data Pbuf_Alloc
begin

text \<open>
  Copying between a chain and a flat buffer (\<open>pbuf_copy_partial\<close>, \<open>pbuf_take\<close>,
  \<open>pbuf_take_at\<close>), between chains (\<open>pbuf_copy_partial_pbuf\<close>, \<open>pbuf_copy\<close>) and into a
  newly allocated pbuf (\<open>pbuf_clone\<close>, \<open>pbuf_coalesce\<close>).
\<close>

section \<open>From a chain to a buffer\<close>

lemma put_bytes_append:
  "put_bytes (put_bytes m d xs) (d + length xs) ys = put_bytes m d (xs @ ys)"
  by (rule ext) (auto simp: put_bytes_def nth_append)

lemma memcpy_eq:
  "mapped (memory s) src n \<Longrightarrow> mapped (memory s) dst n \<Longrightarrow>
     memcpy s dst src n = ret (s\<lparr>memory := put_bytes (memory s) dst (bytes_at (memory s) src n)\<rparr>)"
  by (simp add: memcpy_def memcpy_bytes_eq)

lemma copy_partial_loop_spec:
  assumes "chain (pbufs s) p as" and "readable s as"
    and "mapped (memory s) (d + unat left) (unat n)"
    and "\<forall>a \<in> set as. apart_seg s a (d + unat left) (unat n)"
    and "unat left + unat n < 65536"
  shows "copy_partial_loop s p d n off left left =
    ret (s\<lparr>memory := put_bytes (memory s) (d + unat left) (take (unat n) (drop (unat off) (data s as)))\<rparr>,
         left + of_nat (length (take (unat n) (drop (unat off) (data s as)))))"
  using assms
proof (induction as arbitrary: s p n off left)
  case Nil
  then show ?case by (simp add: copy_partial_loop.simps)
next
  case (Cons a as)
  obtain b where b: "p = Some a" "pbufs s a = Some b" "chain (pbufs s) (pnext b) as"
    using Cons.prems(1) by auto
  have seg: "seg s a = bytes_at (memory s) (payload b) (unat (len b))" using b by (simp add: seg_def)
  consider "n = 0" | "n \<noteq> 0" "off \<noteq> 0" "len b \<le> off" | "n \<noteq> 0" "off = 0 \<or> \<not> len b \<le> off" by blast
  then show ?case
  proof cases
    case 1
    then show ?thesis by (simp add: copy_partial_loop.simps)
  next
    case 2
    then have "copy_partial_loop s p d n off left left =
        copy_partial_loop s (pnext b) d n (off - len b) left left"
      using b by (subst copy_partial_loop.simps) simp
    also have "\<dots> = ret (s\<lparr>memory := put_bytes (memory s) (d + unat left)
          (take (unat n) (drop (unat (off - len b)) (data s as)))\<rparr>,
        left + of_nat (length (take (unat n) (drop (unat (off - len b)) (data s as)))))"
      using Cons.prems b by (intro Cons.IH) auto
    also have "drop (unat (off - len b)) (data s as) = drop (unat off) (data s (a # as))"
      using 2 b by (simp add: unat_sub word_le_nat_alt)
    finally show ?thesis .
  next
    case 3
    have off: "unat off \<le> unat (len b)" using 3 by (auto simp: word_le_nat_alt)
    define k where "k = (if len b - off > n then n else len b - off)"
    have k: "unat k = min (unat n) (unat (len b) - unat off)"
      using off by (auto simp: k_def unat_sub word_le_nat_alt word_less_nat_alt min_def)
    let ?xs = "take (unat k) (drop (unat off) (seg s a))"
    have xs: "bytes_at (memory s) (payload b + unat off) (unat k) = ?xs" "length ?xs = unat k"
      using k off by (simp_all add: seg drop_bytes_at take_bytes_at)
    have mapd: "mapped (memory s) (d + unat left) (unat k)"
      using Cons.prems(3) k mapped_mono [of "memory s" "d + unat left" "unat n" 0 "unat k"] by simp
    have maps: "mapped (memory s) (payload b + unat off) (unat k)"
      using Cons.prems(2) b k off mapped_mono [of "memory s" "payload b" "unat (len b)" "unat off" "unat k"]
      by simp
    define s1 where "s1 = s\<lparr>memory := put_bytes (memory s) (d + unat left) ?xs\<rparr>"
    have ap: "\<forall>x \<in> set as. apart_seg s x (d + unat left) (unat k)"
      using Cons.prems(4) k apart_seg_sub [of s _ "d + unat left" "unat n" 0 "unat k"] by auto
    have data: "data s1 as = data s as"
      using ap xs(2) unfolding s1_def by (intro data_put_apart) simp
    have l: "unat (left + k) = unat left + unat k" and nk: "unat (n - k) = unat n - unat k"
      using Cons.prems(5) k by (simp_all add: unat_word_ariths unat_sub word_le_nat_alt)
    have "copy_partial_loop s p d n off left left =
        copy_partial_loop s1 (pnext b) d (n - k) 0 (left + k) (left + k)"
      using 3 b memcpy_eq [OF maps mapd] xs
      by (subst copy_partial_loop.simps) (auto simp: Let_def s1_def simp flip: k_def)
    also have "\<dots> = ret (s1\<lparr>memory := put_bytes (memory s1) (d + unat (left + k))
          (take (unat (n - k)) (drop (unat (0 :: u16)) (data s1 as)))\<rparr>,
        left + k + of_nat (length (take (unat (n - k)) (drop (unat (0 :: u16)) (data s1 as)))))"
    proof (rule Cons.IH)
      show "mapped (memory s1) (d + unat (left + k)) (unat (n - k))"
        using Cons.prems(3) k mapd xs(2) mapped_mono [of "memory s" "d + unat left" "unat n" "unat k" "unat (n - k)"]
        by (simp add: s1_def mapped_put_bytes l nk add.assoc)
      show "\<forall>a \<in> set as. apart_seg s1 a (d + unat (left + k)) (unat (n - k))"
        using Cons.prems(4) k apart_seg_sub [of s _ "d + unat left" "unat n" "unat k" "unat (n - k)"]
        by (auto simp: s1_def l nk add.assoc)
      show "readable s1 as" using Cons.prems(2) mapd xs(2) by (simp add: s1_def readable_put)
    qed (use b Cons.prems(5) l nk k in \<open>auto simp: s1_def\<close>)
    also have "take (unat (n - k)) (drop (unat (0 :: u16)) (data s1 as)) =
        take (unat n - unat k) (data s as)"
      by (simp add: nk data)
    also have "s1\<lparr>memory := put_bytes (memory s1) (d + unat (left + k)) (take (unat n - unat k) (data s as))\<rparr> =
        s\<lparr>memory := put_bytes (memory s) (d + unat left) (?xs @ take (unat n - unat k) (data s as))\<rparr>"
      using put_bytes_append [of "memory s" "d + unat left" ?xs] xs(2) by (simp add: s1_def l add.assoc)
    also have "?xs @ take (unat n - unat k) (data s as) = take (unat n) (drop (unat off) (data s (a # as)))"
      using off k b by (auto simp: min_def)
    also have "left + k + of_nat (length (take (unat n - unat k) (data s as))) =
        left + of_nat (length (take (unat n) (drop (unat off) (data s (a # as)))))"
    proof -
      have "length (take (unat n) (drop (unat off) (data s (a # as)))) =
          unat k + length (take (unat n - unat k) (data s as))"
        using off k b by (auto simp: min_def)
      then show ?thesis by simp
    qed
    finally show ?thesis .
  qed
qed

lemma pbuf_copy_partial_spec:
  assumes "chain (pbufs s) (Some p) as" and "readable s as" and "d \<noteq> 0"
    and "mapped (memory s) d (unat n)" and "\<forall>a \<in> set as. apart_seg s a d (unat n)"
    and "xs = take (unat n) (drop (unat off) (data s as))"
  shows "pbuf_copy_partial s (Some p) d n off =
    ret (s\<lparr>memory := put_bytes (memory s) d xs\<rparr>, of_nat (length xs))"
  using copy_partial_loop_spec [OF assms(1,2), of d 0 n off] assms(3-6)
  by (simp add: pbuf_copy_partial_def)

section \<open>From a buffer to a chain\<close>

lemma pbuf_take_loop_spec:
  assumes "chain (pbufs s) p as" and "readable s as" and "disjoint_segs s as"
    and "n \<le> lens (pbufs s) as" and "mapped (memory s) (d + c) n"
    and "\<forall>a \<in> set as. apart_seg s a (d + c) n"
  shows "\<exists>m. pbuf_take_loop s p d n c = ret (s\<lparr>memory := m\<rparr>, c + n) \<and> dom m = dom (memory s) \<and>
    data (s\<lparr>memory := m\<rparr>) as = bytes_at (memory s) (d + c) n @ drop n (data s as) \<and>
    (\<forall>k. (\<forall>a \<in> set as. apart_seg s a k 1) \<longrightarrow> m k = memory s k)"
  using assms
proof (induction as arbitrary: s p n c)
  case Nil
  then show ?case by (intro exI [of _ "memory s"]) (simp add: pbuf_take_loop.simps)
next
  case (Cons a as)
  obtain b where b: "p = Some a" "pbufs s a = Some b" "chain (pbufs s) (pnext b) as"
    using Cons.prems(1) by auto
  show ?case
  proof (cases "n = 0")
    case True
    then have "pbuf_take_loop s p d n c = ret (s, c)" by (simp add: pbuf_take_loop.simps)
    with True show ?thesis by (intro exI [of _ "memory s"]) simp
  next
    case False
    define k where "k = min n (unat (len b))"
    have k: "(if n > unat (len b) then unat (len b) else n) = k" "k \<le> n" "k \<le> unat (len b)"
      by (simp_all add: k_def)
    let ?xs = "bytes_at (memory s) (d + c) k"
    let ?m1 = "put_bytes (memory s) (payload b) ?xs"
    let ?s1 = "s\<lparr>memory := ?m1\<rparr>"
    have map1: "mapped (memory s) (d + c) k" "mapped (memory s) (payload b) k"
      using Cons.prems(2,5) b k mapped_mono [of "memory s" "d + c" n 0 k]
        mapped_mono [of "memory s" "payload b" "unat (len b)" 0 k] by auto
    have step: "pbuf_take_loop s p d n c = pbuf_take_loop ?s1 (pnext b) d (n - k) (c + k)"
      using False b memcpy_eq [OF map1] k(1)
      by (subst pbuf_take_loop.simps) (simp add: Let_def)
    have ap: "apart_seg s x (payload b) k" if "x \<in> set as" for x
      using Cons.prems(3) that b k apart_seg_sub [of s x "payload b" "unat (len b)" 0 k] by auto
    then have data1: "data ?s1 as = data s as" by (intro data_put_apart) simp
    have src: "bytes_at ?m1 (d + (c + k)) (n - k) = bytes_at (memory s) (d + (c + k)) (n - k)"
    proof (rule bytes_at_put_other)
      have "apart (d + c) n (payload b) (unat (len b))" using Cons.prems(6) b by (simp add: apart_seg_def)
      then show "apart (payload b) (length ?xs) (d + (c + k)) (n - k)"
        using k by (auto simp: apart_def)
    qed
    have "\<exists>m. pbuf_take_loop ?s1 (pnext b) d (n - k) (c + k) =
          ret (?s1\<lparr>memory := m\<rparr>, c + k + (n - k)) \<and> dom m = dom (memory ?s1) \<and>
        data (?s1\<lparr>memory := m\<rparr>) as =
          bytes_at (memory ?s1) (d + (c + k)) (n - k) @ drop (n - k) (data ?s1 as) \<and>
        (\<forall>j. (\<forall>a \<in> set as. apart_seg ?s1 a j 1) \<longrightarrow> m j = memory ?s1 j)"
    proof (rule Cons.IH)
      show "n - k \<le> lens (pbufs ?s1) as" using Cons.prems(4) b by (simp add: k_def)
      show "mapped (memory ?s1) (d + (c + k)) (n - k)"
        using Cons.prems(5) map1 mapped_mono [of "memory s" "d + c" n k "n - k"] k
        by (simp add: mapped_put_bytes add.assoc)
      show "\<forall>a \<in> set as. apart_seg ?s1 a (d + (c + k)) (n - k)"
        using Cons.prems(6) apart_seg_sub [of s _ "d + c" n k "n - k"] k by (auto simp: add.assoc)
      show "readable ?s1 as" using Cons.prems(2) map1 by (simp add: readable_put)
    qed (use b Cons.prems(3) in auto)
    then obtain m where m: "pbuf_take_loop ?s1 (pnext b) d (n - k) (c + k) =
          ret (?s1\<lparr>memory := m\<rparr>, c + k + (n - k))" "dom m = dom (memory ?s1)"
        "data (?s1\<lparr>memory := m\<rparr>) as =
          bytes_at (memory ?s1) (d + (c + k)) (n - k) @ drop (n - k) (data ?s1 as)"
        "\<And>j. (\<forall>a \<in> set as. apart_seg ?s1 a j 1) \<Longrightarrow> m j = memory ?s1 j"
      by blast
    have "seg (s\<lparr>memory := m\<rparr>) a = ?xs @ drop k (seg s a)"
    proof -
      have "bytes_at m (payload b) (unat (len b)) = bytes_at ?m1 (payload b) (unat (len b))"
      proof (rule nth_equalityI)
        fix j assume j: "j < length (bytes_at m (payload b) (unat (len b)))"
        have "apart_seg ?s1 x (payload b + j) 1" if "x \<in> set as" for x
          using Cons.prems(3) that b j apart_seg_sub [of s x "payload b" "unat (len b)" j 1] by auto
        then have "m (payload b + j) = ?m1 (payload b + j)" using m(4) [of "payload b + j"] by simp
        then show "bytes_at m (payload b) (unat (len b)) ! j = bytes_at ?m1 (payload b) (unat (len b)) ! j"
          using j by simp
      qed simp
      then show ?thesis
        using bytes_at_put_sub [of 0 ?xs "unat (len b)" "memory s" "payload b"] k b by (simp add: seg_def)
    qed
    moreover have "data (s\<lparr>memory := m\<rparr>) as = bytes_at (memory s) (d + c + k) (n - k) @ drop (n - k) (data s as)"
      using m(3) src data1 by (simp add: add.assoc)
    moreover have "bytes_at (memory s) (d + c) n = ?xs @ bytes_at (memory s) (d + c + k) (n - k)"
      using k by (intro bytes_at_split)
    moreover have "k < unat (len b) \<Longrightarrow> n = k" by (auto simp: k_def)
    ultimately have "data (s\<lparr>memory := m\<rparr>) (a # as) =
        bytes_at (memory s) (d + c) n @ drop n (data s (a # as))"
      using b k by (cases "k < unat (len b)") auto
    moreover have "m j = memory s j" if "\<forall>x \<in> set (a # as). apart_seg s x j 1" for j
    proof -
      have "m j = ?m1 j" using m(4) [of j] that by simp
      also have "\<dots> = memory s j"
        using that b k by (auto simp: put_bytes_def apart_seg_def apart_def)
      finally show ?thesis .
    qed
    moreover have "pbuf_take_loop s p d n c = ret (s\<lparr>memory := m\<rparr>, c + n)"
      using step m(1) k by simp
    moreover have "dom m = dom (memory s)" using m(2) map1 by (simp add: dom_put_bytes)
    ultimately show ?thesis by blast
  qed
qed

lemma pbuf_take_spec:
  assumes "chain (pbufs s) (Some p) as" and "tot_ok (pbufs s) as" and "readable s as"
    and "disjoint_segs s as" and "d \<noteq> 0" and "mapped (memory s) d (unat n)"
    and "\<forall>a \<in> set as. apart_seg s a d (unat n)" and "unat n \<le> lens (pbufs s) as"
  shows "\<exists>m. pbuf_take s (Some p) d n = ret (s\<lparr>memory := m\<rparr>, ERR_OK) \<and> dom m = dom (memory s) \<and>
    data (s\<lparr>memory := m\<rparr>) as = bytes_at (memory s) d (unat n) @ drop (unat n) (data s as) \<and>
    (\<forall>k. (\<forall>a \<in> set as. apart_seg s a k 1) \<longrightarrow> m k = memory s k)"
proof -
  obtain b where b: "pbufs s p = Some b" "n \<le> tot_len b"
    using assms(1,2,8) by (auto simp: chain_Some word_le_nat_alt)
  obtain m where "pbuf_take_loop s (Some p) d (unat n) 0 = ret (s\<lparr>memory := m\<rparr>, unat n)"
    "dom m = dom (memory s)"
    "data (s\<lparr>memory := m\<rparr>) as = bytes_at (memory s) d (unat n) @ drop (unat n) (data s as)"
    "\<forall>k. (\<forall>a \<in> set as. apart_seg s a k 1) \<longrightarrow> m k = memory s k"
    using pbuf_take_loop_spec [OF assms(1,3,4,8), of d 0] assms(6,7) by auto
  with b assms(5) show ?thesis by (intro exI [of _ m]) (simp add: pbuf_take_def)
qed

lemma seg_frame:
  assumes "\<And>k. \<forall>a \<in> set as. apart_seg s a k 1 \<Longrightarrow> m k = memory s k"
    and "\<forall>a \<in> set as. apart_seg s a (payload (the (pbufs s x))) (unat (len (the (pbufs s x))))"
  shows "seg (s\<lparr>memory := m\<rparr>) x = seg s x"
proof -
  let ?p = "payload (the (pbufs s x))"
  have "m (?p + i) = memory s (?p + i)" if "i < unat (len (the (pbufs s x)))" for i
    using assms(2) that by (intro assms(1)) (auto intro: apart_seg_sub)
  then show ?thesis by (auto simp: seg_def intro: nth_equalityI)
qed

lemma take_at_tail_hyps:
  assumes "readable s as" and "disjoint_segs s as" and "d \<noteq> 0" and "mapped (memory s) d n"
    and "\<forall>a \<in> set as. apart_seg s a d n" and "as = pre @ a # bs" and "pbufs s a = Some b"
    and "mapped (memory s) d f" and "mapped (memory s) (payload b + k) f"
    and "f + j \<le> n" and "k + f \<le> unat (len b)"
  defines "s1 \<equiv> s\<lparr>memory := put_bytes (memory s) (payload b + k) (bytes_at (memory s) d f)\<rparr>"
  shows "readable s1 bs" and "mapped (memory s1) (d + f) j"
    and "\<forall>a \<in> set bs. apart_seg s1 a (d + f) j"
    and "bytes_at (memory s1) (d + f) j = bytes_at (memory s) (d + f) j"
proof -
  show "readable s1 bs" using assms(1,6,9) by (simp add: s1_def readable_put)
  show "mapped (memory s1) (d + f) j"
    using mapped_mono [OF assms(4), of f j] assms(9,10) by (simp add: s1_def mapped_put_bytes)
  show "\<forall>a \<in> set bs. apart_seg s1 a (d + f) j"
    using assms(5,6,10) by (auto simp: s1_def intro: apart_seg_sub)
  have "apart d n (payload b) (unat (len b))" using assms(5,6,7) by (simp add: apart_seg_def)
  then show "bytes_at (memory s1) (d + f) j = bytes_at (memory s) (d + f) j"
    using assms(10,11) unfolding s1_def by (simp, intro bytes_at_put_other) (auto simp: apart_def)
qed

lemma pbuf_take_at_spec:
  assumes "chain (pbufs s) (Some p) as" and "tot_ok (pbufs s) as" and "readable s as"
    and "disjoint_segs s as" and "d \<noteq> 0" and "mapped (memory s) d (unat n)"
    and "\<forall>a \<in> set as. apart_seg s a d (unat n)"
  shows "\<exists>s' e. pbuf_take_at s (Some p) d n off = ret (s', e) \<and>
    (if unat off < lens (pbufs s) as \<and> unat off + unat n \<le> lens (pbufs s) as
     then e = ERR_OK \<and> pbufs s' = pbufs s \<and> dom (memory s') = dom (memory s) \<and>
       data s' as = take (unat off) (data s as) @ bytes_at (memory s) d (unat n) @
         drop (unat off + unat n) (data s as)
     else e = ERR_MEM \<and> s' = s)"
proof -
  obtain pre suf k where k: "pbuf_skip_const s (Some p) off = ret (hd_ptr suf, k)" "as = pre @ suf"
    "unat off = lens (pbufs s) pre + unat k"
    "suf \<noteq> [] \<longrightarrow> unat k < unat (len (the (pbufs s (hd suf))))"
    using pbuf_skip_const_spec [OF assms(1)] by blast
  show ?thesis
  proof (cases suf)
    case Nil
    with k show ?thesis by (simp add: pbuf_take_at_def pbuf_skip_def)
  next
    case (Cons a bs)
    obtain b where b: "pbufs s a = Some b" using chain_live [OF assms(1), of a] k Cons by auto
    have tail: "chain (pbufs s) (pnext b) bs"
      using chain_append [of "pbufs s" "Some p" pre a bs] assms(1) k(2) Cons b by simp
    have tot: "unat (tot_len b) = unat (len b) + lens (pbufs s) bs" "tot_ok (pbufs s) bs"
      using tot_ok_appendD [of "pbufs s" pre "a # bs"] assms(2) k(2) Cons b by simp_all
    have klen: "unat k < unat (len b)" "k < len b" using k(4) Cons b by (simp_all add: word_less_nat_alt)
    show ?thesis
    proof (cases "unat k + unat n \<le> unat (tot_len b)")
      case False
      with k Cons b tot show ?thesis by (simp add: pbuf_take_at_def pbuf_skip_def)
    next
      case True
      define f where "f = min (len b - k) n"
      have f: "unat f = min (unat (len b) - unat k) (unat n)" "unat (n - f) = unat n - unat f"
        using klen by (simp_all add: f_def min_def unat_sub word_le_nat_alt split: if_splits)
      let ?xs = "bytes_at (memory s) d (unat f)"
      define s1 where "s1 = s\<lparr>memory := put_bytes (memory s) (payload b + unat k) ?xs\<rparr>"
      have maps: "mapped (memory s) d (unat f)" "mapped (memory s) (payload b + unat k) (unat f)"
        using assms(3,6) b f k(2) Cons mapped_mono [of "memory s" d "unat n" 0 "unat f"] klen
          mapped_mono [of "memory s" "payload b" "unat (len b)" "unat k" "unat f"] by auto
      have run: "pbuf_take_at s (Some p) d n off =
          (if n - f > 0 then pbuf_take s1 (pnext b) (d + unat f) (n - f) else ret (s1, ERR_OK))"
        using k(1) Cons b True klen memcpy_eq [OF maps]
        by (simp add: pbuf_take_at_def pbuf_skip_def Let_def f_def [symmetric] s1_def)
      have d1: "data s1 as = take (unat off) (data s as) @ ?xs @ drop (unat off + unat f) (data s as)"
        using data_put_seg [of s pre a bs "unat k" ?xs] assms(4) k Cons b f by (simp add: s1_def)
      have inb: "unat off < lens (pbufs s) as" "unat off + unat n \<le> lens (pbufs s) as"
        using k Cons b klen True tot by simp_all
      show ?thesis
      proof (cases "n - f = 0")
        case True
        then have "pbuf_take_at s (Some p) d n off = ret (s1, ERR_OK)" unfolding run by simp
        moreover have "unat f = unat n" using True by simp
        then have "data s1 as = take (unat off) (data s as) @ bytes_at (memory s) d (unat n) @
            drop (unat off + unat n) (data s as)" using d1 by simp
        moreover have "pbufs s1 = pbufs s" "dom (memory s1) = dom (memory s)"
          using maps by (simp_all add: s1_def dom_put_bytes)
        ultimately show ?thesis using inb by (intro exI [of _ s1] exI [of _ ERR_OK]) simp
      next
        case False
        then have "unat f < unat n" using f(2) by (metis diff_is_0_eq not_le unat_eq_zero)
        then have off: "unat off + unat f = lens (pbufs s) (pre @ [a])" using f(1) k(3) klen b by simp
        have rest: "unat (n - f) \<le> lens (pbufs s1) bs" "bs \<noteq> []"
          using f \<open>unat f < unat n\<close> True tot klen by (auto simp: s1_def)
        then obtain q where q: "pnext b = Some q" using tail by (cases bs) auto
        have "unat f + unat (n - f) \<le> unat n" "unat k + unat f \<le> unat (len b)" using f klen by simp_all
        note hyps = take_at_tail_hyps [OF assms(3-7) k(2) [unfolded Cons] b maps this, folded s1_def]
        obtain m where m: "pbuf_take s1 (Some q) (d + unat f) (n - f) = ret (s1\<lparr>memory := m\<rparr>, ERR_OK)"
          "dom m = dom (memory s1)"
          "data (s1\<lparr>memory := m\<rparr>) bs =
             bytes_at (memory s1) (d + unat f) (unat (n - f)) @ drop (unat (n - f)) (data s1 bs)"
          "\<And>k. \<forall>a \<in> set bs. apart_seg s1 a k 1 \<Longrightarrow> m k = memory s1 k"
          using hyps(1-3) pbuf_take_spec [of s1 q bs "d + unat f" "n - f"] tail q tot(2) rest
            assms(4,5) k(2) Cons by (auto simp: s1_def)
        let ?s' = "s1\<lparr>memory := m\<rparr>"
        have "seg ?s' x = seg s1 x" if "x \<in> set (pre @ [a])" for x
          using m(4) assms(4) k(2) Cons that by (intro seg_frame [of bs]) (auto simp: s1_def)
        then have "data ?s' (pre @ [a]) = data s1 (pre @ [a])" by (intro data_cong)
        then have "data ?s' as = take (unat off + unat f) (data s1 as) @
            bytes_at (memory s) (d + unat f) (unat (n - f)) @
            drop (unat off + unat f + unat (n - f)) (data s1 as)"
          using m(3) hyps(4) k(2) Cons off by (simp add: s1_def)
        also have "\<dots> = take (unat off) (data s as) @ bytes_at (memory s) d (unat n) @
            drop (unat off + unat n) (data s as)"
          using bytes_at_split [of "unat f" "unat n" "memory s" d] f inb \<open>unat f < unat n\<close>
          unfolding d1 by (simp add: add.commute)
        finally have "data ?s' as = \<dots>" .
        moreover have "pbuf_take_at s (Some p) d n off = ret (?s', ERR_OK)"
          using run False q m(1) by (simp add: word_gt_0)
        moreover have "dom m = dom (memory s)" using m(2) maps by (simp add: s1_def dom_put_bytes)
        ultimately show ?thesis
          using inb by (intro exI [of _ ?s'] exI [of _ ERR_OK]) (simp add: s1_def)
      qed
    qed
  qed
qed

section \<open>From chain to chain\<close>

text \<open>
  The state of the loop of \<open>pbuf_copy_partial_pbuf\<close>: positions \<open>ot\<close> and \<open>off\<close> inside the
  first pbufs of the rest \<open>ts\<close> of the target and of the rest \<open>fs\<close> of the source.
\<close>

definition copy_pre :: "pstate \<Rightarrow> nat list \<Rightarrow> nat list \<Rightarrow> nat \<Rightarrow> nat \<Rightarrow> nat \<Rightarrow> bool" where
  "copy_pre s ts fs n ot off \<longleftrightarrow>
     chain (pbufs s) (hd_ptr ts) ts \<and> chain (pbufs s) (hd_ptr fs) fs \<and>
     tot_ok (pbufs s) ts \<and> tot_ok (pbufs s) fs \<and>
     (\<forall>a \<in> set ts \<union> set fs. 0 < unat (len (the (pbufs s a)))) \<and>
     readable s ts \<and> readable s fs \<and> disjoint_segs s ts \<and>
     (\<forall>t \<in> set ts. \<forall>f \<in> set fs. apart_seg s f (payload (the (pbufs s t))) (unat (len (the (pbufs s t))))) \<and>
     ts \<noteq> [] \<and> fs \<noteq> [] \<and>
     ot < unat (len (the (pbufs s (hd ts)))) \<and> off < unat (len (the (pbufs s (hd fs)))) \<and>
     ot + n \<le> lens (pbufs s) ts \<and> off + n \<le> lens (pbufs s) fs"

definition advance :: "pheap \<Rightarrow> nat list \<Rightarrow> nat \<Rightarrow> nat list \<times> nat" where
  "advance H as k = (if k = unat (len (the (H (hd as)))) then (tl as, 0) else (as, k))"

lemma no_queue:
  assumes "chain H (hd_ptr as) as" and "tot_ok H as" and "\<forall>a \<in> set as. 0 < unat (len (the (H a)))"
    and "as = a # as'" and "H a = Some b" and "len b = tot_len b"
  shows "pnext b = None"
proof -
  have "lens H as' = 0" using assms(2,4-6) by simp
  then have "as' = []" using assms(3,4) by (cases as') auto
  with assms(1,4,5) show ?thesis by simp
qed

lemma queue_check:
  assumes "chain (pbufs s) (hd_ptr as) as" and "tot_ok (pbufs s) as"
    and "\<forall>a \<in> set as. 0 < unat (len (the (pbufs s a)))"
  shows "(if hd_ptr as = None then ret False else bindR (deref s (hd_ptr as)) (\<lambda>b.
      ret (len b = tot_len b \<and> pnext b \<noteq> None))) = ret False"
proof (cases as)
  case (Cons a as')
  then obtain b where "pbufs s a = Some b" using assms(1) by auto
  with Cons no_queue [OF assms Cons] show ?thesis by auto
qed simp

lemma chain_hd: "chain H p as \<Longrightarrow> chain H (hd_ptr as) as"
  using chain_hd_ptr by blast

lemma advance_chain:
  assumes "chain H (Some a) (a # as)" and "H a = Some b" and "tot_ok H (a # as)"
    and "k \<le> unat (len b)"
  shows "(if k = unat (len b) then pnext b else Some a) = hd_ptr (fst (advance H (a # as) k))"
    and "chain H (hd_ptr (fst (advance H (a # as) k))) (fst (advance H (a # as) k))"
    and "tot_ok H (fst (advance H (a # as) k))" and "set (fst (advance H (a # as) k)) \<subseteq> set (a # as)"
    and "lens H (fst (advance H (a # as) k)) + k = lens H (a # as) + snd (advance H (a # as) k)"
  using assms by (auto simp: advance_def dest: chain_hd_ptr intro: chain_hd)

lemma copy_step:
  fixes ot off :: usize
  assumes "copy_pre s (t # ts) (f # fs) (unat n) (unat ot) (unat off)"
    and "pbufs s t = Some bt" and "pbufs s f = Some bf"
    and "k = min (unat n) (min (unat (len bt) - unat ot) (unat (len bf) - unat off))"
    and "s1 = s\<lparr>memory := put_bytes (memory s) (payload bt + unat ot)
                (bytes_at (memory s) (payload bf + unat off) k)\<rparr>"
    and "(ts1, ot1) = advance (pbufs s) (t # ts) (unat ot + k)"
    and "(fs1, off1) = advance (pbufs s) (f # fs) (unat off + k)"
  shows "copy_partial_pbuf_loop s (Some t) (Some f) n ot off =
    (if unat n = k then ret (s1, ERR_OK)
     else copy_partial_pbuf_loop s1 (hd_ptr ts1) (hd_ptr fs1) (n - of_nat k) (of_nat ot1) (of_nat off1))"
proof -
  have pre: "chain (pbufs s) (Some t) (t # ts)" "chain (pbufs s) (Some f) (f # fs)"
    "tot_ok (pbufs s) (t # ts)" "tot_ok (pbufs s) (f # fs)"
    "\<forall>a \<in> set (t # ts) \<union> set (f # fs). 0 < unat (len (the (pbufs s a)))"
    "unat ot < unat (len bt)" "unat off < unat (len bf)"
    "mapped (memory s) (payload bt) (unat (len bt))" "mapped (memory s) (payload bf) (unat (len bf))"
    "unat ot + unat n \<le> lens (pbufs s) (t # ts)" "unat off + unat n \<le> lens (pbufs s) (f # fs)"
    using assms(1-3) by (auto simp: copy_pre_def)
  define room where "room = ucast (len bt) - ot"
  define avail where "avail = ucast (len bf) - off"
  have room: "unat room = unat (len bt) - unat ot" "unat avail = unat (len bf) - unat off"
    using pre(6,7) by (simp_all add: room_def avail_def unat_sub word_le_nat_alt)
  define w where "w = min (ucast n) (if room \<ge> avail then avail else room)"
  have w: "unat w = k"
    using room assms(4) by (auto simp: w_def min_def word_le_nat_alt)
  have k: "k \<le> unat n" "unat ot + k \<le> unat (len bt)" "unat off + k \<le> unat (len bf)"
    using assms(4) pre(6,7) by simp_all
  have small: "unat ot + k < 65536" "unat off + k < 65536" "k < 65536"
    using k unat_u16_less [of "len bt"] unat_u16_less [of "len bf"] by linarith+
  have sums: "unat (ot + w) = unat ot + k" "unat (off + w) = unat off + k"
    using w k small by (simp_all add: unat_word_ariths)
  have n1: "ucast w = (of_nat k :: u16)" "unat (n - of_nat k) = unat n - k"
  proof -
    have "unat (of_nat k :: u16) = k" using small(3) by (simp add: unat_of_nat take_bit_nat_eq_self)
    moreover have "unat (ucast w :: u16) = k"
      using ucast_small [of w] w small(3) by (simp add: word_le_nat_alt)
    ultimately show "ucast w = (of_nat k :: u16)" "unat (n - of_nat k) = unat n - k"
      using k(1) by (simp_all add: word_unat_eq_iff unat_sub word_le_nat_alt)
  qed
  have maps: "mapped (memory s) (payload bf + unat off) k" "mapped (memory s) (payload bt + unat ot) k"
    using mapped_mono [OF pre(9), of "unat off" k] mapped_mono [OF pre(8), of "unat ot" k] k by simp_all
  note cpy = memcpy_eq [OF maps, folded assms(5)]
  note at = advance_chain [OF pre(1) assms(2) pre(3) k(2), folded assms(6), simplified]
  note af = advance_chain [OF pre(2) assms(3) pre(4) k(3), folded assms(7), simplified]
  have to: "ot + w \<le> ucast (len bt)" "off + w \<le> ucast (len bf)"
    "(ot + w = ucast (len bt)) = (unat ot + k = unat (len bt))"
    "(ucast (len bf) \<le> off + w) = (unat off + k = unat (len bf))"
    using sums k by (auto simp: word_le_nat_alt word_unat_eq_iff)
  have ot1: "(if ot + w = ucast (len bt) then 0 else ot + w) = of_nat ot1"
    "(if ucast (len bf) \<le> off + w then 0 else off + w) = of_nat off1"
  proof -
    have "of_nat (unat ot + k) = ot + w" "of_nat (unat off + k) = off + w"
      by (simp_all flip: sums)
    then show "(if ot + w = ucast (len bt) then 0 else ot + w) = of_nat ot1"
      "(if ucast (len bf) \<le> off + w then 0 else off + w) = of_nat off1"
      using assms(2,3,6,7) to(3,4) by (auto simp: advance_def)
  qed
  have pos: "\<forall>a \<in> set ts1. 0 < unat (len (the (pbufs s1 a)))" "\<forall>a \<in> set fs1. 0 < unat (len (the (pbufs s1 a)))"
    using pre(5) at(4) af(4) assms(5) by auto
  have qt: "(if hd_ptr ts1 = None then ret False else bindR (deref s1 (hd_ptr ts1)) (\<lambda>b.
      ret (len b = tot_len b \<and> pnext b \<noteq> None))) = ret False"
    using at pos assms(5) by (intro queue_check) auto
  have qf: "(if hd_ptr fs1 = None then ret False else bindR (deref s1 (hd_ptr fs1)) (\<lambda>b.
      ret (len b = tot_len b \<and> pnext b \<noteq> None))) = ret False"
    using af pos assms(5) by (intro queue_check) auto
  have fin: "(n - of_nat k = 0) = (unat n = k)" using n1(2) k(1) by (simp add: word_unat_eq_iff)
  have ne: "unat n \<noteq> k \<Longrightarrow> ts1 \<noteq> [] \<and> fs1 \<noteq> []"
    using at(5) af(5) pre(10,11) k by auto
  have "memcpy s (payload bt + unat ot) (payload bf + unat off) (unat w) = ret s1"
    using cpy w by simp
  note cpy' = this
  have mv: "(if ucast (len bf) \<le> off + w then pnext bf else Some f) = hd_ptr fs1"
    "(if ot + w = ucast (len bt) then pnext bt else Some t) = hd_ptr ts1"
    using at(1) af(1) to(3,4) by simp_all
  have e: "\<not> (hd_ptr fs1 = None \<and> unat n \<noteq> k)" "\<not> (hd_ptr ts1 = None \<and> unat n \<noteq> k)"
    using ne by auto
  show ?thesis
    by (subst copy_partial_pbuf_loop.simps)
      (simp only: Let_def deref_Some [OF assms(2)] deref_Some [OF assms(3)] bindR_simps
        room_def [symmetric] avail_def [symmetric] w_def [symmetric] cpy' lwip_assert_simps(1) to(1,2)
        mv ot1 n1(1) e if_False qf qt fin if_not_P, simp)
qed

lemma copy_data_step:
  assumes "copy_pre s (t # ts) (f # fs) n ot off" and "pbufs s t = Some bt" and "pbufs s f = Some bf"
    and "k = min n (min (unat (len bt) - ot) (unat (len bf) - off))"
    and "s1 = s\<lparr>memory := put_bytes (memory s) (payload bt + ot)
                (bytes_at (memory s) (payload bf + off) k)\<rparr>"
    and "(ts1, ot1) = advance (pbufs s) (t # ts) (ot + k)"
    and "(fs1, off1) = advance (pbufs s) (f # fs) (off + k)"
  shows "n \<noteq> k \<Longrightarrow> copy_pre s1 ts1 fs1 (n - k) ot1 off1"
    and "data s1 (t # ts) = take ot (data s (t # ts)) @ take k (drop off (data s (f # fs))) @
           drop (ot + k) (data s (t # ts))"
    and "\<And>x. x \<in> set (f # fs) \<Longrightarrow> seg s1 x = seg s x"
    and "drop off1 (data s fs1) = drop (off + k) (data s (f # fs))"
    and "\<exists>pre. t # ts = pre @ ts1 \<and> lens (pbufs s) pre + ot1 = ot + k"
    and "dom (memory s1) = dom (memory s)"
    and "\<And>j. apart_seg s t j 1 \<Longrightarrow> memory s1 j = memory s j"
proof -
  note pre = assms(1) [unfolded copy_pre_def]
  have k: "k \<le> n" "ot + k \<le> unat (len bt)" "off + k \<le> unat (len bf)"
    using assms(2-4) pre by auto
  let ?xs = "bytes_at (memory s) (payload bf + off) k"
  have xs: "?xs = take k (drop off (data s (f # fs)))"
    using k(3) assms(3) by (simp add: seg_def drop_bytes_at take_bytes_at)
  have maps: "mapped (memory s) (payload bt + ot) (length ?xs)"
    using pre assms(2) k(2) mapped_mono [of "memory s" "payload bt" "unat (len bt)" ot k] by simp
  have ap: "apart_seg s x (payload bt + ot) (length ?xs)" if "x \<in> set (f # fs)" for x
  proof -
    have "apart_seg s x (payload bt) (unat (len bt))" using pre that assms(2) by auto
    then show ?thesis using k(2) by (intro apart_seg_sub) auto
  qed
  show "seg s1 x = seg s x" if "x \<in> set (f # fs)" for x
    using data_put_apart [of "[x]" s "payload bt + ot" ?xs] ap that by (simp add: assms(5))
  show "data s1 (t # ts) = take ot (data s (t # ts)) @ take k (drop off (data s (f # fs))) @
      drop (ot + k) (data s (t # ts))"
    using data_put_seg [of s "[]" t ts ot ?xs] pre assms(2,5) k(2) unfolding xs [symmetric] by simp
  show "drop off1 (data s fs1) = drop (off + k) (data s (f # fs))"
    using assms(3,7) k(3) by (auto simp: advance_def split: if_splits)
  show "\<exists>pre. t # ts = pre @ ts1 \<and> lens (pbufs s) pre + ot1 = ot + k"
    using assms(2,6) k(2) by (cases "ot + k = unat (len bt)")
      (auto simp: advance_def intro: exI [of _ "[t]"] exI [of _ "[]"])
  show "dom (memory s1) = dom (memory s)"
    using dom_put_bytes [OF maps] by (simp add: assms(5))
  show "memory s1 j = memory s j" if "apart_seg s t j 1" for j
    using that assms(2,5) k(2) by (auto simp: put_bytes_def apart_seg_def apart_def)
  show "copy_pre s1 ts1 fs1 (n - k) ot1 off1" if "n \<noteq> k"
  proof -
    note at = advance_chain [of "pbufs s" t ts bt "ot + k", folded assms(6), simplified]
    note af = advance_chain [of "pbufs s" f fs bf "off + k", folded assms(7), simplified]
    have c: "chain (pbufs s) (hd_ptr ts1) ts1" "tot_ok (pbufs s) ts1" "set ts1 \<subseteq> set (t # ts)"
      "lens (pbufs s) ts1 + (ot + k) = lens (pbufs s) (t # ts) + ot1"
      "chain (pbufs s) (hd_ptr fs1) fs1" "tot_ok (pbufs s) fs1" "set fs1 \<subseteq> set (f # fs)"
      "lens (pbufs s) fs1 + (off + k) = lens (pbufs s) (f # fs) + off1"
      using at af pre assms(2,3) k by auto
    have ne: "ts1 \<noteq> []" "fs1 \<noteq> []" using c(4,8) that k pre by auto
    have "readable s1 as = readable s as" for as
      unfolding assms(5) using maps by (rule readable_put)
    then have "readable s1 (t # ts)" "readable s1 (f # fs)" using pre by blast+
    then have "readable s1 ts1" "readable s1 fs1" using c(3,7) by (auto simp: readable_def)
    moreover have "disjoint_segs s1 ts1"
      using pre assms(5,6) by (auto simp: advance_def split: if_splits)
    moreover have "ot1 < unat (len (the (pbufs s (hd ts1))))" "off1 < unat (len (the (pbufs s (hd fs1))))"
      using assms(2,3,6,7) k pre ne by (auto simp: advance_def split: if_splits)
    moreover have "\<forall>t \<in> set ts1. \<forall>f \<in> set fs1. apart_seg s f (payload (the (pbufs s t)))
        (unat (len (the (pbufs s t))))"
      using pre c(3,7) by blast
    moreover have "\<forall>a \<in> set ts1 \<union> set fs1. 0 < unat (len (the (pbufs s a)))" using pre c(3,7) by blast
    moreover have "ot1 + (n - k) \<le> lens (pbufs s) ts1" "off1 + (n - k) \<le> lens (pbufs s) fs1"
      using c(4,8) pre k by auto
    ultimately show ?thesis
      using c(1,2,5,6) ne by (simp add: copy_pre_def assms(5))
  qed
qed

lemma splice_splice:
  assumes "k \<le> length F" and "a \<le> length D" and "k \<le> n"
    and "D1 = take a D @ take k F @ drop (a + k) D"
  shows "take (a + k) D1 @ take (n - k) (drop k F) @ drop (a + k + (n - k)) D1 =
    take a D @ take n F @ drop (a + n) D"
proof -
  have "take n F = take k F @ take (n - k) (drop k F)"
    using assms(3) by (metis le_add_diff_inverse take_add)
  then show ?thesis using assms by (simp add: add.commute)
qed

lemma copy_loop_spec:
  fixes ot off :: usize
  assumes "copy_pre s ts fs (unat n) (unat ot) (unat off)"
  shows "\<exists>m. copy_partial_pbuf_loop s (hd_ptr ts) (hd_ptr fs) n ot off = ret (s\<lparr>memory := m\<rparr>, ERR_OK) \<and>
    data (s\<lparr>memory := m\<rparr>) ts = take (unat ot) (data s ts) @
      take (unat n) (drop (unat off) (data s fs)) @ drop (unat ot + unat n) (data s ts) \<and>
    data (s\<lparr>memory := m\<rparr>) fs = data s fs \<and> dom m = dom (memory s) \<and>
    (\<forall>j. (\<forall>a \<in> set ts. apart_seg s a j 1) \<longrightarrow> m j = memory s j)"
  using assms
proof (induction "length ts + length fs" arbitrary: s ts fs n ot off rule: less_induct)
  case less
  obtain t ts' f fs' where ts: "ts = t # ts'" "fs = f # fs'"
    using less.prems by (cases ts; cases fs) (auto simp: copy_pre_def)
  obtain bt bf where b: "pbufs s t = Some bt" "pbufs s f = Some bf"
    using less.prems ts by (auto simp: copy_pre_def)
  define k where "k = min (unat n) (min (unat (len bt) - unat ot) (unat (len bf) - unat off))"
  define s1 where "s1 = s\<lparr>memory := put_bytes (memory s) (payload bt + unat ot)
      (bytes_at (memory s) (payload bf + unat off) k)\<rparr>"
  obtain ts1 ot1 where ts1: "(ts1, ot1) = advance (pbufs s) (t # ts') (unat ot + k)"
    by (metis surj_pair)
  obtain fs1 off1 where fs1: "(fs1, off1) = advance (pbufs s) (f # fs') (unat off + k)"
    by (metis surj_pair)
  note run = copy_step [OF less.prems [unfolded ts] b k_def s1_def ts1 fs1]
  note step = copy_data_step [OF less.prems [unfolded ts] b k_def s1_def ts1 fs1]
  show ?case
  proof (cases "unat n = k")
    case True
    then have "copy_partial_pbuf_loop s (Some t) (Some f) n ot off = ret (s1, ERR_OK)" using run by simp
    moreover have "s1 = s\<lparr>memory := memory s1\<rparr>" by (simp add: s1_def)
    moreover have "data s1 (f # fs') = data s (f # fs')" using step(3) by (rule data_cong)
    ultimately show ?thesis
      using step(2,6,7) True unfolding ts hd_ptr_simps by (metis list.set_intros(1))
  next
    case False
    have k: "k \<le> unat n" "k < 65536" using k_def unat_u16_less [of n] by linarith+
    then have nk: "unat (n - of_nat k) = unat n - k"
      by (simp add: unat_sub word_le_nat_alt unat_of_nat take_bit_nat_eq_self)
    note pre1 = step(1) [OF False]
    then have "ot1 < 65536" "off1 < 65536"
      using unat_u16_less [of "len (the (pbufs s1 (hd ts1)))"]
        unat_u16_less [of "len (the (pbufs s1 (hd fs1)))"] by (auto simp: copy_pre_def intro: less_trans)
    then have o1: "unat (of_nat ot1 :: usize) = ot1" "unat (of_nat off1 :: usize) = off1"
      by (simp_all add: unat_of_nat take_bit_nat_eq_self)
    have lt: "unat ot < unat (len bt)" "unat off < unat (len bf)"
      using less.prems ts b by (auto simp: copy_pre_def)
    have shorter: "length ts1 + length fs1 < length ts + length fs"
      using lt False ts1 fs1 b ts unfolding k_def by (auto simp: advance_def min_def split: if_splits)
    obtain m where m: "copy_partial_pbuf_loop s1 (hd_ptr ts1) (hd_ptr fs1) (n - of_nat k)
        (of_nat ot1) (of_nat off1) = ret (s1\<lparr>memory := m\<rparr>, ERR_OK)"
      "data (s1\<lparr>memory := m\<rparr>) ts1 = take ot1 (data s1 ts1) @
        take (unat n - k) (drop off1 (data s1 fs1)) @ drop (ot1 + (unat n - k)) (data s1 ts1)"
      "dom m = dom (memory s1)" "\<And>j. \<forall>a \<in> set ts1. apart_seg s1 a j 1 \<Longrightarrow> m j = memory s1 j"
      using less.hyps [OF shorter, of s1 "n - of_nat k" "of_nat ot1" "of_nat off1"] pre1 nk o1 by auto
    let ?s' = "s\<lparr>memory := m\<rparr>"
    have s': "s1\<lparr>memory := m\<rparr> = ?s'" by (simp add: s1_def)
    obtain pre where pre: "t # ts' = pre @ ts1" "lens (pbufs s) pre + ot1 = unat ot + k"
      using step(5) by blast
    have frame: "seg ?s' x = seg s1 x"
      if "\<forall>a \<in> set ts1. apart_seg s a (payload (the (pbufs s x))) (unat (len (the (pbufs s x))))" for x
      using seg_frame [of ts1 s1 m x] m(4) that unfolding s' by (simp add: s1_def)
    have disj: "disjoint_segs s (pre @ ts1)" using less.prems ts pre by (simp add: copy_pre_def)
    have "data ?s' pre = data s1 pre"
      using disj by (intro data_cong frame) auto
    moreover have fs_seg: "seg ?s' x = seg s x" if "x \<in> set (f # fs')" for x
      using less.prems that pre ts step(3) [OF that] apart_seg_sym [of s]
      by (subst frame) (auto simp: copy_pre_def)
    moreover have "data s1 fs1 = data s fs1"
    proof (rule data_cong)
      show "seg s1 x = seg s x" if "x \<in> set fs1" for x
        using that fs1 by (intro step(3)) (auto simp: advance_def split: if_splits)
    qed
    ultimately have "data ?s' (t # ts') = take (unat ot + k) (data s1 (t # ts')) @
        take (unat n - k) (drop (unat off + k) (data s (f # fs'))) @
        drop (unat ot + k + (unat n - k)) (data s1 (t # ts'))"
      using m(2) step(4) unfolding s' pre(1) data_append by (simp add: s1_def flip: pre(2))
    also have "\<dots> = take (unat ot) (data s ts) @ take (unat n) (drop (unat off) (data s fs)) @
        drop (unat ot + unat n) (data s ts)"
    proof -
      have "k \<le> length (drop (unat off) (data s fs))" "unat ot \<le> length (data s ts)"
        using lt b ts by (simp_all add: k_def)
      from splice_splice [OF this k(1) step(2) [folded ts]] show ?thesis
        unfolding ts drop_drop add.commute [of k "unat off"] .
    qed
    finally have "data ?s' ts = \<dots>" unfolding ts .
    moreover have "data ?s' fs = data s fs" unfolding ts using fs_seg by (rule data_cong)
    moreover have "copy_partial_pbuf_loop s (hd_ptr ts) (hd_ptr fs) n ot off = ret (?s', ERR_OK)"
      using run False m(1) unfolding s' ts by simp
    moreover have "dom m = dom (memory s)" using m(3) step(6) by simp
    moreover have "m j = memory s j" if "\<forall>a \<in> set ts. apart_seg s a j 1" for j
    proof -
      have "\<forall>a \<in> set ts1. apart_seg s1 a j 1" using that pre(1) ts by (auto simp: s1_def)
      then have "m j = memory s1 j" by (rule m(4))
      with step(7) [of j] that ts show ?thesis by simp
    qed
    ultimately show ?thesis by blast
  qed
qed

lemma pbuf_copy_partial_pbuf_spec:
  assumes "copy_pre s (t # ts) (f # fs) (unat n) (unat off) 0"
  shows "\<exists>m. pbuf_copy_partial_pbuf s (Some t) (Some f) n off = ret (s\<lparr>memory := m\<rparr>, ERR_OK) \<and>
    data (s\<lparr>memory := m\<rparr>) (t # ts) = take (unat off) (data s (t # ts)) @
      take (unat n) (data s (f # fs)) @ drop (unat off + unat n) (data s (t # ts)) \<and>
    data (s\<lparr>memory := m\<rparr>) (f # fs) = data s (f # fs) \<and> dom m = dom (memory s) \<and>
    (\<forall>j. (\<forall>a \<in> set (t # ts). apart_seg s a j 1) \<longrightarrow> m j = memory s j)"
proof -
  obtain bt bf where b: "pbufs s t = Some bt" "pbufs s f = Some bf"
    using assms by (auto simp: copy_pre_def)
  then have "n \<le> tot_len bf" "unat off + unat n \<le> unat (tot_len bt)"
    using assms by (auto simp: copy_pre_def word_le_nat_alt)
  then have "pbuf_copy_partial_pbuf s (Some t) (Some f) n off =
      copy_partial_pbuf_loop s (Some t) (Some f) n (ucast off) 0"
    using b by (simp add: pbuf_copy_partial_pbuf_def)
  then show ?thesis
    using copy_loop_spec [of s "t # ts" "f # fs" n "ucast off" 0] assms by simp
qed

section \<open>Cloning\<close>

text \<open>
  What the stack relies on of the kernel's \<open>malloc\<close>: a block it returns is disjoint from the
  memory, the blocks and the \<open>struct pbuf\<close>s in use.
\<close>

definition malloc_fresh :: "penv \<Rightarrow> pstate \<Rightarrow> bool" where
  "malloc_fresh E s \<longleftrightarrow> (\<forall>n a xs. malloc E s n = Some (a, xs) \<longrightarrow>
     (\<forall>k. a \<le> k \<longrightarrow> k < a + n \<longrightarrow> memory s k = None) \<and>
     (\<forall>x. pbufs s x \<noteq> None \<longrightarrow> apart a n x SIZEOF_STRUCT_PBUF) \<and>
     (\<forall>x m. blocks s x = Some m \<longrightarrow> apart a n x m) \<and> blocks s a = None)"

lemma type_internal_RAM: "(0x280 :: u8) = 0x80"
  by simp

lemma apartI:
  assumes "\<And>i. i < l \<Longrightarrow> \<not> (d \<le> p + i \<and> p + i < d + n)"
  shows "apart d n p l"
proof (rule ccontr)
  assume "\<not> apart d n p l"
  then have *: "0 < n" "0 < l" "d < p + l" "p < d + n" by (auto simp: apart_def)
  show False
  proof (cases "d \<le> p")
    case True
    with * assms [of 0] show False by simp
  next
    case False
    with * have "d - p < l" by linarith
    with * False assms [of "d - p"] show False by simp
  qed
qed

lemma pbuf_alloc_RAM:
  assumes "malloc_fresh E s" and "pbuf_alloc E s layer n PBUF_RAM = ret (s1, Some q)"
  shows "pbufs s q = None" and "pbufs s1 = (pbufs s)(q \<mapsto> \<lparr>pnext = None,
      payload = q + SIZEOF_STRUCT_PBUF + unat layer, tot_len = n, len = n, type_internal = 0x80,
      flags = 0, ref = 1, if_idx = 0\<rparr>)"
    and "mapped (memory s1) (q + SIZEOF_STRUCT_PBUF) (unat layer + unat n)"
    and "\<And>k. memory s k \<noteq> None \<Longrightarrow> memory s1 k = memory s k \<and>
      \<not> (q \<le> k \<and> k < q + SIZEOF_STRUCT_PBUF + unat layer + unat n)"
    and "\<And>x. x \<noteq> q \<Longrightarrow> blocks s1 x = blocks s x"
    and "\<And>x m. blocks s x = Some m \<Longrightarrow> apart q (SIZEOF_STRUCT_PBUF + unat layer + unat n) x m"
    and "\<And>x. pbufs s x \<noteq> None \<Longrightarrow> x \<noteq> q"
proof -
  let ?pl = "ucast layer + ucast n :: usize"
  let ?al = "of_nat SIZEOF_STRUCT_PBUF + ?pl :: usize"
  let ?N = "SIZEOF_STRUCT_PBUF + unat layer + unat n"
  have pl: "unat ?pl = unat layer + unat n"
    using unat_u16_less [of layer] unat_u16_less [of n]
    by (simp add: unat_word_ariths del: unat_u16_less)
  then have al: "unat ?al = ?N"
    using unat_u16_less [of layer] unat_u16_less [of n]
    by (simp add: unat_word_ariths del: unat_u16_less)
  have "\<not> ?pl < ucast n" "\<not> ?al < ucast n" using pl al by (simp_all add: word_less_nat_alt)
  then obtain xs where m: "malloc E s ?N = Some (q, xs)"
    and s1: "s1 = pbuf_init_alloced_pbuf (fst (mem_malloc E s ?N)) q
        (q + SIZEOF_STRUCT_PBUF + unat layer) n n PBUF_RAM 0"
    using assms(2) al by (auto simp: pbuf_alloc_def Let_def mem_malloc_def split: option.splits)
  have fresh: "\<And>k. q \<le> k \<Longrightarrow> k < q + ?N \<Longrightarrow> memory s k = None"
    "\<And>x. pbufs s x \<noteq> None \<Longrightarrow> apart q ?N x SIZEOF_STRUCT_PBUF"
    "\<And>x m. blocks s x = Some m \<Longrightarrow> apart q ?N x m"
    using assms(1) m unfolding malloc_fresh_def by blast+
  show "x \<noteq> q" if "pbufs s x \<noteq> None" for x using fresh(2) [OF that] by (auto simp: apart_def)
  then show "pbufs s q = None" by blast
  show "pbufs s1 = (pbufs s)(q \<mapsto> \<lparr>pnext = None,
      payload = q + SIZEOF_STRUCT_PBUF + unat layer, tot_len = n, len = n, type_internal = 0x80,
      flags = 0, ref = 1, if_idx = 0\<rparr>)"
    using m by (simp add: s1 mem_malloc_def pbuf_init_alloced_pbuf_def type_internal_RAM)
  show "mapped (memory s1) (q + SIZEOF_STRUCT_PBUF) (unat layer + unat n)"
    using m by (auto simp: s1 mem_malloc_def pbuf_init_alloced_pbuf_def mapped_def)
  show "memory s1 k = memory s k \<and> \<not> (q \<le> k \<and> k < q + SIZEOF_STRUCT_PBUF + unat layer + unat n)" if "memory s k \<noteq> None" for k
    using m fresh(1) [of k] that by (auto simp: s1 mem_malloc_def pbuf_init_alloced_pbuf_def)
  show "blocks s1 x = blocks s x" if "x \<noteq> q" for x
    using m that by (simp add: s1 mem_malloc_def pbuf_init_alloced_pbuf_def)
  show "apart q ?N x m" if "blocks s x = Some m" for x m using fresh(3) [OF that] .
qed

lemma pbuf_alloc_RAM_returns: "\<exists>s1 q. pbuf_alloc E s layer n PBUF_RAM = ret (s1, q) \<and> (q = None \<longrightarrow> s1 = s)"
  by (auto simp: pbuf_alloc_def Let_def mem_malloc_def split: option.split)

lemma copy_single_step:
  fixes ot :: usize
  assumes "chain (pbufs s) (Some f) (f # fs)" and "readable s (f # fs)" and "pbufs s f = Some bf"
    and "pbufs s t = Some bt" and "pnext bt = None" and "unat ot + lens (pbufs s) (f # fs) = unat (len bt)"
    and "unat n = lens (pbufs s) (f # fs)" and "mapped (memory s) (payload bt) (unat (len bt))"
  defines "s1 \<equiv> s\<lparr>memory := put_bytes (memory s) (payload bt + unat ot) (seg s f)\<rparr>"
  shows "copy_partial_pbuf_loop s (Some t) (Some f) n ot 0 =
    (if fs \<noteq> [] \<and> len (the (pbufs s (hd fs))) = tot_len (the (pbufs s (hd fs))) \<and> tl fs \<noteq> [] then ret (s1, ERR_VAL)
     else if lens (pbufs s) fs = 0 then ret (s1, ERR_OK)
     else copy_partial_pbuf_loop s1 (Some t) (hd_ptr fs) (n - len bf) (ot + ucast (len bf)) 0)"
proof -
  let ?k = "ucast (len bf) :: usize"
  have k: "unat ?k = unat (len bf)" "unat (ucast n :: usize) = unat n" "unat (ucast (len bt) :: usize) = unat (len bt)"
    by simp_all
  have le: "unat (len bf) \<le> unat n" "unat ot + unat (len bf) \<le> unat (len bt)" "unat ot \<le> unat (len bt)"
    using assms(3,6,7) by simp_all
  have room: "unat (ucast (len bt) - ot :: usize) = unat (len bt) - unat ot"
    using le(3) k(3) by (simp add: unat_sub word_le_nat_alt)
  have "unat (len bf) \<le> unat (len bt) - unat ot" using le(2) by linarith
  then have "?k \<le> ucast (len bt) - ot" using room k by (simp add: word_le_nat_alt)
  moreover have "min (ucast n) ?k = ?k" using le(1) k by (intro min_absorb2) (simp add: word_le_nat_alt)
  ultimately have kk: "min (ucast n) (if ucast (len bf) - 0 \<le> ucast (len bt) - ot then ucast (len bf) - 0 else ucast (len bt) - ot) = ?k"
    by simp
  have cpy: "memcpy s (payload bt + unat ot) (payload bf + unat (0 :: usize)) (unat ?k) = ret s1"
  proof -
    have "mapped (memory s) (payload bt + unat ot) (unat (len bf))" by (rule mapped_mono [OF assms(8) le(2)])
    moreover have "mapped (memory s) (payload bf) (unat (len bf))" using assms(2,3) by simp
    ultimately show ?thesis by (simp add: memcpy_eq s1_def seg_def assms(3))
  qed
  have ot1: "unat (ot + ?k) = unat ot + unat (len bf)"
    using le(2) unat_u16_less [of "len bt"] by (simp add: unat_word_ariths del: unat_u16_less)
  have as: "ot + ?k \<le> ucast (len bt)" "0 + ?k \<le> ucast (len bf)" "0 + ?k \<ge> ucast (len bf)"
    using ot1 le(2) by (simp_all add: word_le_nat_alt)
  have uu: "(ucast ?k :: u16) = len bf" by (rule bit_word_eqI) (auto simp: bit_simps)
  have n1: "unat (n - ucast ?k) = lens (pbufs s) fs" "n - ucast ?k = n - len bf"
    using le(1) assms(3,7) unfolding uu by (simp_all add: unat_sub word_le_nat_alt)
  have end_iff: "ot + ?k = ucast (len bt) \<longleftrightarrow> lens (pbufs s) fs = 0"
    using ot1 assms(3,6) by (simp add: word_unat_eq_iff) linarith
  have nz: "n - len bf \<noteq> 0 \<longleftrightarrow> lens (pbufs s) fs \<noteq> 0" using n1 by (simp add: word_unat_eq_iff)
  have next_f: "pnext bf = hd_ptr fs" "chain (pbufs s) (hd_ptr fs) fs" using assms(1,3) chain_hd_ptr chain_hd by auto
  have hd: "pbufs s (hd fs) = Some (the (pbufs s (hd fs)))" "pnext (the (pbufs s (hd fs))) = hd_ptr (tl fs)" if "fs \<noteq> []"
    using next_f(2) that by (cases fs; auto dest: chain_hd_ptr)+
  have t1: "pbufs s1 = pbufs s" by (simp add: s1_def)
  have mv: "(if ucast (len bf) \<le> 0 + ?k then pnext bf else Some f) = hd_ptr fs"
    "(if ucast (len bf) \<le> 0 + ?k then 0 else 0 + ?k) = 0"
    "(if ot + ?k = ucast (len bt) then pnext bt else Some t) = (if lens (pbufs s) fs = 0 then None else Some t)"
    "(if ot + ?k = ucast (len bt) then 0 else ot + ?k) = (if lens (pbufs s) fs = 0 then 0 else ot + ?k)"
    using as(3) next_f(1) assms(5) end_iff by simp_all
  have qt: "(if (if lens (pbufs s) fs = 0 then None else Some t) = None then ret False
      else bindR (deref s1 (if lens (pbufs s) fs = 0 then None else Some t)) (\<lambda>b. ret (len b = tot_len b \<and> pnext b \<noteq> None))) = ret False"
    using assms(4,5) t1 by simp
  have qf: "(if hd_ptr fs = None then ret False else bindR (deref s1 (hd_ptr fs)) (\<lambda>b. ret (len b = tot_len b \<and> pnext b \<noteq> None))) =
      ret (fs \<noteq> [] \<and> len (the (pbufs s (hd fs))) = tot_len (the (pbufs s (hd fs))) \<and> tl fs \<noteq> [])"
    using hd t1 by (cases fs) (auto simp del: not_None_eq)
  have e: "(hd_ptr fs = None \<and> n - len bf \<noteq> 0) = False"
    "((if lens (pbufs s) fs = 0 then None else Some t) = None \<and> n - len bf \<noteq> 0) = False"
    using nz by auto
  show ?thesis
    by (subst copy_partial_pbuf_loop.simps)
      (simp only: Let_def deref_Some [OF assms(3)] deref_Some [OF assms(4)] bindR_simps kk cpy lwip_assert_simps(1) as(1,2)
        mv n1(2) e if_False qf qt, use nz in auto)
qed

lemma copy_single:
  fixes ot :: usize
  assumes "chain (pbufs s) (Some f) (f # fs)" and "tot_ok (pbufs s) (f # fs)" and "readable s (f # fs)"
    and "pbufs s t = Some bt" and "pnext bt = None" and "unat ot + lens (pbufs s) (f # fs) = unat (len bt)"
    and "unat n = lens (pbufs s) (f # fs)" and "mapped (memory s) (payload bt) (unat (len bt))"
    and "\<forall>x \<in> set (f # fs). apart_seg s x (payload bt) (unat (len bt))"
  shows "if length fs \<le> 1 \<or> len (the (pbufs s (last (f # fs)))) \<noteq> 0
    then copy_partial_pbuf_loop s (Some t) (Some f) n ot 0 =
      ret (s\<lparr>memory := put_bytes (memory s) (payload bt + unat ot) (data s (f # fs))\<rparr>, ERR_OK)
    else \<exists>s'. copy_partial_pbuf_loop s (Some t) (Some f) n ot 0 = ret (s', ERR_VAL)"
  using assms
proof (induction fs arbitrary: s f n ot)
  case Nil
  then show ?case using copy_single_step [OF Nil(1,3) _ Nil(4-8)] by auto
next
  case (Cons g gs)
  obtain bf where bf: "pbufs s f = Some bf" using Cons.prems(1) by auto
  note step = copy_single_step [OF Cons.prems(1,3) bf Cons.prems(4-8)]
  have tot: "unat (tot_len (the (pbufs s g))) = unat (len (the (pbufs s g))) + lens (pbufs s) gs" using Cons.prems(2) by simp
  have empty: "len (the (pbufs s (last (g # gs)))) = 0" if "lens (pbufs s) gs = 0" "gs \<noteq> []"
    using that by (induction gs rule: rev_induct) (auto simp: unat_eq_0)
  show ?case
  proof (cases "lens (pbufs s) gs = 0 \<and> gs \<noteq> []")
    case True
    then have "len (the (pbufs s g)) = tot_len (the (pbufs s g))" using tot by (simp add: word_unat_eq_iff)
    with True step empty show ?thesis by (cases gs) auto
  next
    case False
    let ?s1 = "s\<lparr>memory := put_bytes (memory s) (payload bt + unat ot) (seg s f)\<rparr>"
    have ck: "\<not> (len (the (pbufs s g)) = tot_len (the (pbufs s g)) \<and> gs \<noteq> [])"
      using False tot by (auto simp: word_unat_eq_iff)
    show ?thesis
    proof (cases "lens (pbufs s) (g # gs) = 0")
      case True
      then have "gs = []" "data s (g # gs) = []" using False by (auto simp: seg_def)
      with True step ck show ?thesis by auto
    next
      case nonzero: False
      let ?ot = "ot + ucast (len bf)"
      have le: "unat ot + unat (len bf) \<le> unat (len bt)" using Cons.prems(6) bf by simp
      have ot1: "unat ?ot = unat ot + unat (len bf)"
        using le unat_u16_less [of "len bt"] by (simp add: unat_word_ariths del: unat_u16_less)
      have lf: "length (seg s f) = unat (len bf)" using bf by (simp add: seg_def)
      have ap: "\<forall>x \<in> set (g # gs). apart_seg s x (payload bt + unat ot) (length (seg s f))"
        using Cons.prems(9) apart_seg_sub [of s _ "payload bt" "unat (len bt)" "unat ot" "unat (len bf)"] le lf by auto
      have map: "mapped (memory s) (payload bt + unat ot) (length (seg s f))"
        unfolding lf by (rule mapped_mono [OF Cons.prems(8) le])
      have d1: "data ?s1 (g # gs) = data s (g # gs)" by (rule data_put_apart) (use ap in blast)
      have ih: "if length gs \<le> 1 \<or> len (the (pbufs ?s1 (last (g # gs)))) \<noteq> 0
        then copy_partial_pbuf_loop ?s1 (Some t) (Some g) (n - len bf) ?ot 0 =
          ret (?s1\<lparr>memory := put_bytes (memory ?s1) (payload bt + unat ?ot) (data ?s1 (g # gs))\<rparr>, ERR_OK)
        else \<exists>s'. copy_partial_pbuf_loop ?s1 (Some t) (Some g) (n - len bf) ?ot 0 = ret (s', ERR_VAL)"
      proof (rule Cons.IH)
        show "chain (pbufs ?s1) (Some g) (g # gs)" using Cons.prems(1) bf by auto
        show "unat ?ot + lens (pbufs ?s1) (g # gs) = unat (len bt)" using Cons.prems(6) bf ot1 by simp
        show "unat (n - len bf) = lens (pbufs ?s1) (g # gs)"
          using Cons.prems(7) bf by (simp add: unat_sub word_le_nat_alt)
        have "readable s (g # gs)" using Cons.prems(3) by simp
        then show "readable ?s1 (g # gs)" by (simp only: readable_put [OF map])
        show "mapped (memory ?s1) (payload bt) (unat (len bt))" using Cons.prems(8) map by (simp add: mapped_put_bytes)
      qed (use Cons.prems in \<open>simp_all\<close>)
      have "copy_partial_pbuf_loop s (Some t) (Some f) n ot 0 =
          copy_partial_pbuf_loop ?s1 (Some t) (Some g) (n - len bf) ?ot 0"
        using step ck nonzero by auto
      moreover have "put_bytes (memory ?s1) (payload bt + unat ?ot) (data ?s1 (g # gs)) =
          put_bytes (memory s) (payload bt + unat ot) (data s (f # g # gs))"
        unfolding d1 ot1 using put_bytes_append [of "memory s" "payload bt + unat ot" "seg s f" "data s (g # gs)"] lf
        by (simp add: add.assoc)
      moreover have "length gs = 1 \<Longrightarrow> len (the (pbufs s (last (g # gs)))) \<noteq> 0"
        using False by (cases gs) (auto simp: unat_eq_0)
      ultimately show ?thesis using ih by (cases gs) (auto split: if_splits)
    qed
  qed
qed

text \<open>
  The loop of \<open>pbuf_copy_partial_pbuf\<close> takes a pbuf that holds all the remaining bytes and still has a successor for
  the end of a packet in a packet queue.
\<close>

definition trailing_empty :: "pheap \<Rightarrow> nat list \<Rightarrow> bool" where
  "trailing_empty H as \<longleftrightarrow> 2 < length as \<and> len (the (H (last as))) = 0"

lemma pbuf_clone_spec:
  assumes "chain (pbufs s) (Some p) as" and "tot_ok (pbufs s) as" and "readable s as" and "malloc_fresh E s"
    and "pbuf_alloc E s layer (tot_len (the (pbufs s p))) PBUF_RAM = ret (s1, Some q')"
  shows "if trailing_empty (pbufs s) as then pbuf_clone E s layer PBUF_RAM (Some p) = fault Assertion
    else \<exists>s'. pbuf_clone E s layer PBUF_RAM (Some p) = ret (s', Some q') \<and>
      pbufs s q' = None \<and> chain (pbufs s') (Some q') [q'] \<and> tot_ok (pbufs s') [q'] \<and>
      readable s' [q'] \<and> data s' [q'] = data s as \<and> data s' as = data s as \<and>
      (\<forall>x. x \<noteq> q' \<longrightarrow> pbufs s' x = pbufs s x \<and> blocks s' x = blocks s x) \<and>
      (\<forall>x m. blocks s x = Some m \<longrightarrow> apart_seg s' q' x m)"
proof -
  obtain as' where as: "as = p # as'" using assms(1) by (auto simp: chain_Some)
  obtain b where b: "pbufs s p = Some b" "unat (tot_len b) = lens (pbufs s) as"
    using assms(1,2) by (auto simp: chain_Some)
  note alloc = assms(5) [unfolded b option.sel]
  note ram = pbuf_alloc_RAM [OF assms(4) alloc]
  have old: "pbufs s1 x = pbufs s x" if "x \<in> set as" for x
    using chain_live [OF assms(1) that] ram(2) ram(7) [of x] by auto
  have mem: "memory s1 (payload (the (pbufs s x)) + i) = memory s (payload (the (pbufs s x)) + i) \<and>
      memory s (payload (the (pbufs s x)) + i) \<noteq> None"
    if "x \<in> set as" "i < unat (len (the (pbufs s x)))" for x i
    using readable_nth [OF assms(3) that] ram(4) by auto
  have "seg s1 x = seg s x" if "x \<in> set as" for x
    using mem [OF that] old [OF that] by (auto simp: seg_def intro!: nth_equalityI)
  then have d1: "data s1 as = data s as" by (rule data_cong)
  let ?d = "q' + SIZEOF_STRUCT_PBUF + unat layer"
  obtain bt where bt: "pbufs s1 q' = Some bt" "pnext bt = None" "payload bt = ?d" "len bt = tot_len b" "tot_len bt = tot_len b"
    using ram(2) by simp
  have map: "mapped (memory s1) ?d (unat (tot_len b))"
    using mapped_mono [OF ram(3), of "unat layer" "unat (tot_len b)"] by simp
  have ap: "apart_seg s1 f ?d (unat (tot_len b))" if "f \<in> set as" for f
    unfolding apart_seg_def old [OF that]
  proof (rule apartI)
    fix i assume "i < unat (len (the (pbufs s f)))"
    from mem [OF that this] ram(4) [of "payload (the (pbufs s f)) + i"]
    show "\<not> (?d \<le> payload (the (pbufs s f)) + i \<and> payload (the (pbufs s f)) + i < ?d + unat (tot_len b))" by auto
  qed
  let ?s2 = "s1\<lparr>memory := put_bytes (memory s1) ?d (data s as)\<rparr>"
  have ch: "chain (pbufs s1) (Some p) as"
    using assms(1) by (rule chain_cong [rotated]) (use old chain_live [OF assms(1)] in auto)
  have tot: "tot_ok (pbufs s1) as" "lens (pbufs s1) as = lens (pbufs s) as"
    using assms(2) old tot_ok_cong [of as "pbufs s1" "pbufs s"] lens_cong [of as "pbufs s1" "pbufs s"] by simp_all
  have rd: "readable s1 as" using mem old by (auto simp: readable_def mapped_def)
  have copy: "pbuf_copy_partial_pbuf s1 (Some q') (Some p) (tot_len b) 0 =
      copy_partial_pbuf_loop s1 (Some q') (Some p) (tot_len b) 0 0"
    using bt b old [of p] as by (simp add: pbuf_copy_partial_pbuf_def)
  have loop: "if length as' \<le> 1 \<or> len (the (pbufs s1 (last as))) \<noteq> 0
    then copy_partial_pbuf_loop s1 (Some q') (Some p) (tot_len b) 0 0 = ret (?s2, ERR_OK)
    else \<exists>s'. copy_partial_pbuf_loop s1 (Some q') (Some p) (tot_len b) 0 0 = ret (s', ERR_VAL)"
    using copy_single [of s1 p as' q' bt 0 "tot_len b"] ch tot rd bt b(2) map ap d1 unfolding as by simp
  have te: "trailing_empty (pbufs s) as \<longleftrightarrow> \<not> (length as' \<le> 1 \<or> len (the (pbufs s1 (last as))) \<noteq> 0)"
    using old [of "last as"] as by (auto simp: trailing_empty_def)
  show ?thesis
  proof (cases "trailing_empty (pbufs s) as")
    case True
    then obtain s' where "copy_partial_pbuf_loop s1 (Some q') (Some p) (tot_len b) 0 0 = ret (s', ERR_VAL)"
      using loop te by auto
    with True show ?thesis
      using b alloc copy old [of p] as by (simp add: pbuf_clone_def pbuf_copy_def lwip_assert_def)
  next
    case False
    then have ok: "copy_partial_pbuf_loop s1 (Some q') (Some p) (tot_len b) 0 0 = ret (?s2, ERR_OK)"
      using loop te by auto
    have run: "pbuf_clone E s layer PBUF_RAM (Some p) = ret (?s2, Some q')"
      using b alloc copy ok old [of p] as by (simp add: pbuf_clone_def pbuf_copy_def lwip_assert_def)
    have len: "length (data s as) = unat (tot_len b)" using b(2) by simp
    have "data ?s2 [q'] = data s as"
      using bt len by (simp add: seg_def bytes_at_put_same [of _ _ "data s as", unfolded len])
    moreover have "data ?s2 as = data s as"
      unfolding d1 [symmetric] by (rule data_put_apart) (use ap len d1 in simp)
    moreover have "readable ?s2 [q']" using bt map len by (simp add: mapped_put_bytes)
    moreover have "apart_seg ?s2 q' x k" if "blocks s x = Some k" for x k
      using ram(6) [OF that] bt by (auto simp: apart_seg_def apart_def)
    moreover have "chain (pbufs ?s2) (Some q') [q']" "tot_ok (pbufs ?s2) [q']" using bt by simp_all
    moreover have "pbufs ?s2 x = pbufs s x \<and> blocks ?s2 x = blocks s x" if "x \<noteq> q'" for x
      using that ram(2,5) by simp
    ultimately show ?thesis using False run ram(1) by auto
  qed
qed

lemma pbuf_coalesce_spec:
  assumes "chain (pbufs s) (Some p) as" and "tot_ok (pbufs s) as" and "readable s as" and "malloc_fresh E s"
    and "releasable s as"
  shows "if length as = 1 \<or> (\<exists>s1. pbuf_alloc E s layer (tot_len (the (pbufs s p))) PBUF_RAM = ret (s1, None))
    then pbuf_coalesce E s (Some p) layer = ret (s, Some p)
    else if trailing_empty (pbufs s) as then pbuf_coalesce E s (Some p) layer = fault Assertion
    else \<exists>s' q. pbuf_coalesce E s (Some p) layer = ret (s', Some q) \<and> pbufs s q = None \<and>
      chain (pbufs s') (Some q) [q] \<and> tot_ok (pbufs s') [q] \<and> data s' [q] = data s as \<and>
      (\<forall>x. x \<noteq> q \<longrightarrow> pbufs s' x = pbufs (free_spec s as) x)"
proof -
  obtain b where b: "pbufs s p = Some b" using assms(1) by (auto simp: chain_Some)
  have single: "pnext b = None \<longleftrightarrow> length as = 1"
    using assms(1) b by (cases as) (auto simp: chain_Some dest: chain_hd_ptr)
  obtain s0 q where alloc: "pbuf_alloc E s layer (tot_len (the (pbufs s p))) PBUF_RAM = ret (s0, q)" "q = None \<longrightarrow> s0 = s"
    using pbuf_alloc_RAM_returns by blast
  consider "length as = 1" | "length as \<noteq> 1" "q = None" | q' where "length as \<noteq> 1" "q = Some q'" by (cases q) auto
  then show ?thesis
  proof cases
    case 1
    then show ?thesis using b single by (simp add: pbuf_coalesce_def)
  next
    case 2
    then have "pbuf_clone E s layer PBUF_RAM (Some p) = ret (s, None)" using alloc b by (simp add: pbuf_clone_def)
    with 2 alloc b single show ?thesis by (auto simp: pbuf_coalesce_def)
  next
    case 3
    note clone = pbuf_clone_spec [OF assms(1-4) alloc(1) [unfolded 3]]
    have some: "\<not> (length as = 1 \<or> (\<exists>s1. pbuf_alloc E s layer (tot_len (the (pbufs s p))) PBUF_RAM = ret (s1, None)))"
      using 3 alloc by simp
    show ?thesis
    proof (cases "trailing_empty (pbufs s) as")
      case True
      with clone some b single 3 show ?thesis by (auto simp: pbuf_coalesce_def)
    next
      case False
      then obtain s1 where cl: "pbuf_clone E s layer PBUF_RAM (Some p) = ret (s1, Some q')"
        "pbufs s q' = None" "chain (pbufs s1) (Some q') [q']" "tot_ok (pbufs s1) [q']" "readable s1 [q']"
        "data s1 [q'] = data s as" "\<And>x. x \<noteq> q' \<Longrightarrow> pbufs s1 x = pbufs s x \<and> blocks s1 x = blocks s x"
        "\<And>x m. blocks s x = Some m \<Longrightarrow> apart_seg s1 q' x m"
        using clone by auto
      have "q' \<notin> set as" using cl(2) chain_live [OF assms(1), of q'] by auto
      then have same: "pbufs s1 x = pbufs s x \<and> blocks s1 x = blocks s x" if "x \<in> set as" for x
        using cl(7) that by metis
      have "chain (pbufs s1) (Some p) as"
        using assms(1) by (rule chain_cong [rotated]) (use same chain_live [OF assms(1)] in auto)
      moreover have rel: "releasable s1 as" using assms(5) same by (rule releasable_cong)
      ultimately have free: "pbuf_free E s1 (Some p) =
          ret (free_spec s1 as, of_nat (length (gone (pbufs s1) as)))"
        using set_gone [of "pbufs s1" as] by (intro pbuf_free_spec) (auto simp: releasable_def)
      have dist: "distinct as" using assms(1) by (rule chain_distinct)
      have q': "pbufs (free_spec s1 as) q' = pbufs s1 q'"
        using \<open>q' \<notin> set as\<close> by (rule pbufs_free_spec_other)
      have "data (free_spec s1 as) [q'] = data s1 [q']"
      proof (rule free_tail_data)
        show "\<forall>a \<in> set as. \<forall>x \<in> set [q']. pbuf_get_allocsrc (the (pbufs s1 a)) = ALLOC_SRC_HEAP \<longrightarrow>
            apart a (the (blocks s1 a)) (payload (the (pbufs s1 x))) (unat (len (the (pbufs s1 x))))"
          using cl(8) rel same by (fastforce simp: releasable_def std_def apart_seg_def)
      qed (use dist \<open>q' \<notin> set as\<close> rel in \<open>auto simp: releasable_def\<close>)
      moreover have "pbuf_coalesce E s (Some p) layer = ret (free_spec s1 as, Some q')"
        using b 3(1) single cl(1) free by (auto simp: pbuf_coalesce_def)
      moreover have "chain (pbufs (free_spec s1 as)) (Some q') [q']" "tot_ok (pbufs (free_spec s1 as)) [q']"
        using cl(3,4) q' by simp_all
      moreover have "pbufs (free_spec s1 as) x = pbufs (free_spec s as) x" if "x \<noteq> q'" for x
      proof -
        have "gone (pbufs s1) as = gone (pbufs s) as"
          unfolding gone_def using same by (intro takeWhile_cong) auto
        moreover have "pbufs s1 x = pbufs s x" using cl(7) that by metis
        ultimately show ?thesis
          using dist by (simp add: pbufs_free_spec drop_ref_def restrict_map_def fun_upd_apply
              split: list.split)
      qed
      ultimately show ?thesis using False some cl(2,6) by auto
    qed
  qed
qed

end
