(* ===== verification/Pbuf_Props.thy ===== *)
theory Pbuf_Props
  imports Pbuf_Copy
begin

text \<open>
  The properties of the packet buffers, each with a witness on the chains of the example state
  \<open>ex_state\<close>: two pbufs at 1000 and 1100 that hold five bytes, and one at 1200 that holds four.
\<close>

section \<open>An example state\<close>

definition ex_pbuf :: "nat option \<Rightarrow> nat \<Rightarrow> u16 \<Rightarrow> u16 \<Rightarrow> pbuf" where
  "ex_pbuf nxt pl tot l = \<lparr>pnext = nxt, payload = pl, tot_len = tot, len = l, type_internal = 1,
     flags = 0, ref = 1, if_idx = 0\<rparr>"

definition ex_pool :: memp_desc where
  "ex_pool = \<lparr>esize = 614, num = 3, base = 5000, tab = [5000, 5614, 6228], st_err = 0, st_avail = 3,
     st_used = 0, st_max = 0\<rparr>"

definition ex_state :: pstate where
  "ex_state = \<lparr>
     pbufs = [1000 \<mapsto> ex_pbuf (Some 1100) 2000 5 3, 1100 \<mapsto> ex_pbuf None 2100 2 2,
              1200 \<mapsto> ex_pbuf None 2200 4 4],
     memory = (\<lambda>k. if k < 10000 then Some (of_nat k) else None), blocks = Map.empty,
     memp_pbuf = ex_pool, memp_pbuf_pool = ex_pool, custom_free_function = Map.empty,
     memp_frag_pbuf = ex_pool, original = Map.empty, pbuf_free_ooseq_pending = 0\<rparr>"

definition ex_env :: penv where
  "ex_env = \<lparr>malloc = (\<lambda>s n. Some (20000, replicate n 0)), run_custom_free = (\<lambda>f p s. ret s),
     tcpip_try_callback = (\<lambda>s. ERR_OK)\<rparr>"

lemma ex_state_simps [simp]:
  "pbufs ex_state 1000 = Some (ex_pbuf (Some 1100) 2000 5 3)"
  "pbufs ex_state 1100 = Some (ex_pbuf None 2100 2 2)"
  "pbufs ex_state 1200 = Some (ex_pbuf None 2200 4 4)"
  "memory ex_state k = (if k < 10000 then Some (of_nat k) else None)" "blocks ex_state k = None"
  by (simp_all add: ex_state_def)

lemma ex_pbuf_simps [simp]:
  "pnext (ex_pbuf nxt pl tot l) = nxt" "payload (ex_pbuf nxt pl tot l) = pl"
  "tot_len (ex_pbuf nxt pl tot l) = tot" "len (ex_pbuf nxt pl tot l) = l"
  "type_internal (ex_pbuf nxt pl tot l) = 1" "flags (ex_pbuf nxt pl tot l) = 0"
  "ref (ex_pbuf nxt pl tot l) = 1"
  by (simp_all add: ex_pbuf_def)

lemma ex_allocsrc [simp]: "pbuf_get_allocsrc (ex_pbuf nxt pl tot l) = ALLOC_SRC_MEMP_PBUF"
  by (simp add: pbuf_get_allocsrc_def)

lemma ex_chain:
  "chain (pbufs ex_state) (Some 1000) [1000, 1100]" "chain (pbufs ex_state) (Some 1200) [1200]"
  "tot_ok (pbufs ex_state) [1000, 1100]" "tot_ok (pbufs ex_state) [1200]"
  "lens (pbufs ex_state) [1000, 1100] = 5" "lens (pbufs ex_state) [1200] = 4"
  by simp_all

lemma ex_readable: "readable ex_state [1000, 1100]" "readable ex_state [1200]"
  by (simp_all add: readable_def mapped_def)

lemma ex_disjoint: "disjoint_segs ex_state [1000, 1100]"
  by (simp add: apart_seg_def apart_def)

lemma ex_releasable: "releasable ex_state [1000, 1100]" "isolated ex_state [1000, 1100]"
  by (simp_all add: releasable_def isolated_def std_def)

section \<open>Properties\<close>

text \<open>
  C2: \<open>pbuf_free\<close> on a chain deallocates exactly the pbufs at its head that have a single
  reference and returns their number, takes one reference from the next pbuf, leaves every other
  pbuf unchanged, and gives the pool pbufs it deallocates back to the pool.
\<close>

theorem pbuf_free_chain:
  assumes "chain (pbufs s) (Some p) as" and "releasable s as"
    and "g = takeWhile (\<lambda>a. ref (the (pbufs s a)) = 1) as" and "rest = drop (length g) as"
  shows "\<exists>s'. pbuf_free E s (Some p) = ret (s', of_nat (length g)) \<and>
    (\<forall>x \<in> set g. pbufs s' x = None) \<and>
    (rest \<noteq> [] \<longrightarrow> pbufs s' (hd rest) =
       Some ((the (pbufs s (hd rest)))\<lparr>ref := ref (the (pbufs s (hd rest))) - 1\<rparr>)) \<and>
    (\<forall>x. x \<notin> set g \<longrightarrow> \<not> (rest \<noteq> [] \<and> x = hd rest) \<longrightarrow> pbufs s' x = pbufs s x) \<and>
    tab (memp_pbuf_pool s') =
      rev (filter (\<lambda>a. pbuf_get_allocsrc (the (pbufs s a)) = ALLOC_SRC_MEMP_PBUF_POOL) g)
      @ tab (memp_pbuf_pool s)"
proof -
  have g: "gone (pbufs s) as = g" by (simp add: gone_def assms(3))
  have dist: "distinct as" using assms(1) by (rule chain_distinct)
  have "as = g @ rest" using assms(3,4) by (metis append_take_drop_id takeWhile_eq_take)
  then have disj: "rest \<noteq> [] \<Longrightarrow> hd rest \<notin> set g" using dist by (cases rest) auto
  have "pbuf_free E s (Some p) = ret (free_spec s as, of_nat (length g))"
    using pbuf_free_spec [OF assms(1), of E] assms(2) set_gone [of "pbufs s" as]
    unfolding g by (auto simp: releasable_def)
  moreover note H = pbufs_free_spec [OF dist, of s, unfolded g, folded assms(4)]
    and pool_free_spec [OF dist, of s, unfolded g]
  moreover have "\<forall>x \<in> set g. pbufs (free_spec s as) x = None"
    using disj unfolding H by (cases rest) (auto simp: drop_ref_def fun_upd_apply restrict_map_def)
  ultimately show ?thesis
    using disj by (intro exI [of _ "free_spec s as"])
      (cases rest, auto simp: drop_ref_def fun_upd_apply restrict_map_def)
qed

theorem pbuf_free_chain_witness:
  "\<exists>s'. pbuf_free ex_env ex_state (Some 1000) = ret (s', 2) \<and> pbufs s' 1000 = None \<and>
     pbufs s' 1100 = None \<and> pbufs s' 1200 = pbufs ex_state 1200"
  using pbuf_free_chain [OF ex_chain(1) ex_releasable(1) refl refl, of ex_env] by auto

text \<open>
  C5: \<open>pbuf_cat\<close> of two disjoint well-formed chains whose total length fits in 16 bits
  returns with the tail linked behind the head: the \<open>tot_len\<close> invariant holds for the whole
  chain, its payload is the concatenation of the two payloads, and the pbufs of the tail and of
  all other chains are unchanged.
\<close>

theorem pbuf_cat_joins:
  assumes "chain (pbufs s) (Some h) as" and "chain (pbufs s) (Some t) bs"
    and "set as \<inter> set bs = {}" and "tot_ok (pbufs s) as" and "tot_ok (pbufs s) bs"
    and "lens (pbufs s) as + lens (pbufs s) bs < 65536"
  shows "\<exists>s'. pbuf_cat s (Some h) (Some t) = ret s' \<and> memory s' = memory s \<and>
    chain (pbufs s') (Some h) (as @ bs) \<and> tot_ok (pbufs s') (as @ bs) \<and>
    data s' (as @ bs) = data s as @ data s bs \<and>
    (\<forall>x. x \<notin> set as \<longrightarrow> pbufs s' x = pbufs s x)"
  using assms by (rule pbuf_cat_spec)

theorem pbuf_cat_joins_witness:
  "\<exists>s'. pbuf_cat ex_state (Some 1000) (Some 1200) = ret s' \<and>
     chain (pbufs s') (Some 1000) [1000, 1100, 1200] \<and> tot_ok (pbufs s') [1000, 1100, 1200] \<and>
     data s' [1000, 1100, 1200] = data ex_state [1000, 1100] @ data ex_state [1200]"
  using pbuf_cat_joins [OF ex_chain(1,2) _ ex_chain(3,4)] by fastforce

text \<open>
  C6: \<open>pbuf_realloc\<close> to fewer bytes leaves a well-formed chain of the first pbufs whose payload
  is exactly the first \<open>new_len\<close> bytes of the old payload.
\<close>

theorem pbuf_realloc_takes:
  assumes "chain (pbufs s) (Some p) as" and "tot_ok (pbufs s) as" and "releasable s as"
    and "isolated s as" and "unat new_len < lens (pbufs s) as"
  shows "\<exists>s' bs. pbuf_realloc E s (Some p) new_len = ret s' \<and> prefix bs as \<and>
    chain (pbufs s') (Some p) bs \<and> tot_ok (pbufs s') bs \<and>
    data s' bs = take (unat new_len) (data s as)"
proof -
  obtain s' as1 z as2 where r: "pbuf_realloc E s (Some p) new_len = ret s'" "as = as1 @ z # as2"
    "chain (pbufs s') (Some p) (as1 @ [z])" "tot_ok (pbufs s') (as1 @ [z])"
    "data s' (as1 @ [z]) = take (unat new_len) (data s as)"
    using pbuf_realloc_spec [OF assms, of E] by blast
  moreover have "prefix (as1 @ [z]) as" using r(2) by (simp add: prefix_def)
  ultimately show ?thesis by blast
qed

theorem pbuf_realloc_takes_witness:
  "\<exists>s' bs. pbuf_realloc ex_env ex_state (Some 1000) 2 = ret s' \<and> prefix bs [1000, 1100] \<and>
    chain (pbufs s') (Some 1000) bs \<and> tot_ok (pbufs s') bs \<and>
    data s' bs = take 2 (data ex_state [1000, 1100])"
  using pbuf_realloc_takes [OF ex_chain(1,3) ex_releasable, of 2 ex_env] by simp

text \<open>
  C7: a header added in front of the payload by \<open>pbuf_add_header\<close> (or its forced variant) keeps
  the chain well-formed and the old payload behind the header, and \<open>pbuf_remove_header\<close> with
  the same size restores the state.
\<close>

theorem pbuf_header_roundtrip:
  assumes "pbuf_add_header_impl s (Some a) n force = ret (s', 0)"
    and "chain (pbufs s) (Some a) (a # as)" and "tot_ok (pbufs s) (a # as)"
  shows "pbuf_remove_header s' (Some a) n = ret (s, 0) \<and> memory s' = memory s \<and>
    chain (pbufs s') (Some a) (a # as) \<and> tot_ok (pbufs s') (a # as) \<and>
    lens (pbufs s') (a # as) = unat n + lens (pbufs s) (a # as) \<and>
    drop (unat n) (data s' (a # as)) = data s (a # as)"
  using assms by (rule pbuf_add_header_data)

theorem pbuf_header_roundtrip_witness:
  "\<exists>s'. pbuf_add_header_impl ex_state (Some 1000) 14 True = ret (s', 0) \<and>
     pbuf_remove_header s' (Some 1000) 14 = ret (ex_state, 0) \<and>
     drop 14 (data s' [1000, 1100]) = data ex_state [1000, 1100]"
proof -
  have "\<exists>s'. pbuf_add_header_impl ex_state (Some 1000) 14 True = ret (s', 0)"
    by (simp add: pbuf_add_header_impl_def Let_def)
  then obtain s' where s': "pbuf_add_header_impl ex_state (Some 1000) 14 True = ret (s', 0)" ..
  from pbuf_header_roundtrip [OF this ex_chain(1,3)] s' show ?thesis by auto
qed

text \<open>
  C8: \<open>pbuf_free_header\<close> removes exactly the first \<open>size\<close> bytes of the payload: it returns a
  well-formed chain of the last pbufs whose payload is the rest, also when whole pbufs are
  released or when the chain is shorter.
\<close>

theorem pbuf_free_header_drops:
  assumes "chain (pbufs s) p as" and "tot_ok (pbufs s) as" and "releasable s as" and "isolated s as"
  shows "\<exists>s' q bs. pbuf_free_header E s p n = ret (s', q) \<and> chain (pbufs s') q bs \<and>
    tot_ok (pbufs s') bs \<and> suffix bs as \<and> data s' bs = drop (unat n) (data s as)"
  using assms by (rule pbuf_free_header_spec)

theorem pbuf_free_header_drops_witness:
  "\<exists>s' q bs. pbuf_free_header ex_env ex_state (Some 1000) 4 = ret (s', q) \<and> chain (pbufs s') q bs \<and>
    tot_ok (pbufs s') bs \<and> suffix bs [1000, 1100] \<and> data s' bs = drop 4 (data ex_state [1000, 1100])"
  using pbuf_free_header_drops [OF ex_chain(1,3) ex_releasable, of ex_env 4] by simp

text \<open>
  C9: allocation of a chain from the pool is all or nothing. Either \<open>pbuf_alloc\<close> returns a
  well-formed chain of exactly \<open>length\<close> bytes made of the first free elements of the pool,
  every payload inside its own element, and touches no other pbuf; or it returns \<open>NULL\<close>, no
  pbuf is changed and the pool has the same free elements as before.
\<close>

theorem pbuf_alloc_pool_all_or_nothing:
  assumes "distinct (tab (memp_pbuf_pool s))" and "layer < PBUF_POOL_BUFSIZE_ALIGNED"
    and "\<forall>x \<in> set (tab (memp_pbuf_pool s)). pbufs s x = None"
  shows "(\<exists>s' h bs. pbuf_alloc E s layer leng PBUF_POOL = ret (s', Some h) \<and>
      chain (pbufs s') (Some h) bs \<and> tot_ok (pbufs s') bs \<and> lens (pbufs s') bs = unat leng \<and>
      (\<forall>x \<in> set bs. pool_pbuf (pbufs s') x) \<and>
      bs @ tab (memp_pbuf_pool s') = tab (memp_pbuf_pool s) \<and>
      (\<forall>x. x \<notin> set bs \<longrightarrow> pbufs s' x = pbufs s x)) \<or>
    (\<exists>s'. pbuf_alloc E s layer leng PBUF_POOL = ret (s', None) \<and>
      set (tab (memp_pbuf_pool s')) = set (tab (memp_pbuf_pool s)) \<and> pbufs s' = pbufs s)"
proof -
  have "partial_chain s None 0 leng []" by (simp add: partial_chain_def)
  from pbuf_alloc_pool_spec [OF this, of layer E] assms show ?thesis
    by (simp add: pbuf_alloc_def restrict_map_def)
qed

lemma ex_alloc_pool: "pbuf_alloc ex_env ex_state 14 100 PBUF_POOL \<noteq> ret (s', None)"
  unfolding pbuf_alloc_def
  by (simp, subst pbuf_alloc_pool.simps) (simp add: ex_state_def ex_pool_def do_memp_malloc_pool_def Let_def)

theorem pbuf_alloc_pool_all_or_nothing_witness:
  "\<exists>s' h bs. pbuf_alloc ex_env ex_state 14 100 PBUF_POOL = ret (s', Some h) \<and> chain (pbufs s') (Some h) bs \<and>
     lens (pbufs s') bs = 100 \<and> bs @ tab (memp_pbuf_pool s') = [5000, 5614, 6228]"
proof -
  have "distinct (tab (memp_pbuf_pool ex_state))" "(14 :: u16) < PBUF_POOL_BUFSIZE_ALIGNED"
    "\<forall>x \<in> set (tab (memp_pbuf_pool ex_state)). pbufs ex_state x = None" "tab (memp_pbuf_pool ex_state) = [5000, 5614, 6228]"
    by (simp_all add: ex_state_def ex_pool_def)
  then show ?thesis using pbuf_alloc_pool_all_or_nothing [of ex_state 14 ex_env 100] ex_alloc_pool by auto
qed

text \<open>
  C10: \<open>pbuf_take_at\<close> stores the bytes of a buffer at an offset of the payload, whatever the
  split into pbufs, and leaves the payload before and behind them; it fails with \<open>ERR_MEM\<close>
  and changes nothing when the offset is outside the payload or the bytes do not fit.
\<close>

theorem pbuf_take_at_splices:
  assumes "chain (pbufs s) (Some p) as" and "tot_ok (pbufs s) as" and "readable s as"
    and "disjoint_segs s as" and "d \<noteq> 0" and "mapped (memory s) d (unat n)"
    and "\<forall>a \<in> set as. apart_seg s a d (unat n)"
  shows "\<exists>s' e. pbuf_take_at s (Some p) d n off = ret (s', e) \<and>
    (if unat off < length (data s as) \<and> unat off + unat n \<le> length (data s as)
     then e = ERR_OK \<and> pbufs s' = pbufs s \<and>
       data s' as = take (unat off) (data s as) @ bytes_at (memory s) d (unat n) @
         drop (unat off + unat n) (data s as)
     else e = ERR_MEM \<and> s' = s)"
  using pbuf_take_at_spec [OF assms, of off] by (auto split: if_split_asm)

theorem pbuf_take_at_splices_witness:
  "\<exists>s' e. pbuf_take_at ex_state (Some 1000) 3000 3 2 = ret (s', e) \<and> e = ERR_OK \<and>
     data s' [1000, 1100] = take 2 (data ex_state [1000, 1100]) @
       bytes_at (memory ex_state) 3000 3 @ drop 5 (data ex_state [1000, 1100])"
proof -
  have "mapped (memory ex_state) 3000 (unat (3 :: u16))" by (simp add: mapped_def)
  moreover have "\<forall>a \<in> set [1000, 1100]. apart_seg ex_state a 3000 (unat (3 :: u16))"
    by (simp add: apart_seg_def apart_def)
  ultimately show ?thesis
    using pbuf_take_at_splices [OF ex_chain(1,3) ex_readable(1) ex_disjoint, of 3000 3 2] by auto
qed

text \<open>
  C11: bytes stored with \<open>pbuf_take_at\<close> are read back by \<open>pbuf_copy_partial\<close> at the same offset:
  the call copies all \<open>n\<close> bytes and the target buffer holds what the source buffer held.
\<close>

theorem pbuf_take_copy_roundtrip:
  assumes "chain (pbufs s) (Some p) as" and "tot_ok (pbufs s) as" and "readable s as"
    and "disjoint_segs s as" and "src \<noteq> 0" and "mapped (memory s) src (unat n)"
    and "\<forall>a \<in> set as. apart_seg s a src (unat n)"
    and "unat off < length (data s as)" and "unat off + unat n \<le> length (data s as)"
    and "dst \<noteq> 0" and "mapped (memory s) dst (unat n)"
    and "\<forall>a \<in> set as. apart_seg s a dst (unat n)"
  shows "\<exists>s1 s2. pbuf_take_at s (Some p) src n off = ret (s1, ERR_OK) \<and>
    pbuf_copy_partial s1 (Some p) dst n off = ret (s2, n) \<and>
    bytes_at (memory s2) dst (unat n) = bytes_at (memory s) src (unat n)"
proof -
  obtain s1 where s1: "pbuf_take_at s (Some p) src n off = ret (s1, ERR_OK)" "pbufs s1 = pbufs s"
    "dom (memory s1) = dom (memory s)"
    "data s1 as = take (unat off) (data s as) @ bytes_at (memory s) src (unat n) @
         drop (unat off + unat n) (data s as)"
    using pbuf_take_at_spec [OF assms(1-7), of off] assms(8,9) by auto
  have same: "mapped (memory s1) a k = mapped (memory s) a k" for a k
    using s1(3) by (auto simp: mapped_def domIff set_eq_iff)
  let ?xs = "take (unat n) (drop (unat off) (data s1 as))"
  have xs: "?xs = bytes_at (memory s) src (unat n)" using s1(4) assms(8,9) by simp
  have "pbuf_copy_partial s1 (Some p) dst n off =
      ret (s1\<lparr>memory := put_bytes (memory s1) dst ?xs\<rparr>, of_nat (length ?xs))"
    using assms(1,3,10-12) s1(2) same
    by (intro pbuf_copy_partial_spec [OF _ _ _ _ _ refl]) (auto simp: readable_def apart_seg_def)
  moreover have "of_nat (length ?xs) = n" unfolding xs by simp
  moreover have "bytes_at (put_bytes (memory s1) dst ?xs) dst (unat n) = ?xs"
    using bytes_at_put_same [of "memory s1" dst ?xs] unfolding xs by simp
  ultimately show ?thesis
    using s1(1) xs by (intro exI [of _ s1] exI [of _ "s1\<lparr>memory := put_bytes (memory s1) dst ?xs\<rparr>"]) simp
qed

theorem pbuf_take_copy_roundtrip_witness:
  "\<exists>s1 s2. pbuf_take_at ex_state (Some 1000) 3000 3 1 = ret (s1, ERR_OK) \<and>
     pbuf_copy_partial s1 (Some 1000) 4000 3 1 = ret (s2, 3) \<and>
     bytes_at (memory s2) 4000 3 = bytes_at (memory ex_state) 3000 3"
proof -
  have "mapped (memory ex_state) 3000 (unat (3 :: u16))" "mapped (memory ex_state) 4000 (unat (3 :: u16))"
    by (simp_all add: mapped_def)
  moreover have "\<forall>a \<in> set [1000, 1100]. apart_seg ex_state a 3000 (unat (3 :: u16))"
    "\<forall>a \<in> set [1000, 1100]. apart_seg ex_state a 4000 (unat (3 :: u16))"
    by (simp_all add: apart_seg_def apart_def)
  ultimately show ?thesis
    using pbuf_take_copy_roundtrip [OF ex_chain(1,3) ex_readable(1) ex_disjoint, of 3000 3 1 4000] by simp
qed

text \<open>
  C12: \<open>pbuf_memfind\<close> returns the first position at or after \<open>start_offset\<close> where the pattern
  occurs in the payload, also across pbufs, and \<open>0xFFFF\<close> when there is none.
\<close>

theorem pbuf_memfind_first:
  assumes "chain (pbufs s) (Some p) as" and "tot_ok (pbufs s) as" and "readable s as"
    and "unat mem_len = length mem" and "mem \<noteq> []"
  shows "\<exists>r. pbuf_memfind s (Some p) mem mem_len start = ret r \<and>
    (if \<exists>j \<ge> unat start. occurs_at mem (data s as) j
     then r = of_nat (LEAST j. unat start \<le> j \<and> occurs_at mem (data s as) j)
     else r = 0xFFFF)"
proof -
  obtain r where r: "pbuf_memfind s (Some p) mem mem_len start = ret r"
    "memfind_post mem (data s as) (unat start) r"
    using pbuf_memfind_spec [OF assms(1-4)] assms(5) by auto
  have "r = of_nat (LEAST j. unat start \<le> j \<and> occurs_at mem (data s as) j)"
    if "\<exists>j \<ge> unat start. occurs_at mem (data s as) j"
  proof -
    have "unat start \<le> unat r" "occurs_at mem (data s as) (unat r)"
      "\<And>j. unat start \<le> j \<Longrightarrow> j < unat r \<Longrightarrow> \<not> occurs_at mem (data s as) j"
      using r(2) that by (auto simp: memfind_post_def)
    then have "(LEAST j. unat start \<le> j \<and> occurs_at mem (data s as) j) = unat r"
      by (intro Least_equality) (auto simp: not_less [symmetric])
    then show ?thesis by simp
  qed
  with r show ?thesis by (auto simp: memfind_post_def)
qed

theorem pbuf_memfind_first_witness:
  "\<exists>r. pbuf_memfind ex_state (Some 1000) [0xD2, 0x34] 2 0 = ret r \<and>
    (if \<exists>j \<ge> unat (0 :: u16). occurs_at [0xD2, 0x34] (data ex_state [1000, 1100]) j
     then r = of_nat (LEAST j. unat (0 :: u16) \<le> j \<and> occurs_at [0xD2, 0x34] (data ex_state [1000, 1100]) j)
     else r = 0xFFFF)"
  by (rule pbuf_memfind_first [OF ex_chain(1,3) ex_readable(1)]) simp_all

text \<open>
  C13: \<open>pbuf_coalesce\<close> returns the chain it was given, unchanged, when it is a single pbuf or there is no memory
  for a copy. Otherwise it returns a single new pbuf
  with the same payload, and the old chain is released as by \<open>pbuf_free\<close>, unless the chain has three
  pbufs or more and the last one is empty: then \<open>pbuf_copy\<close> takes the chain for a packet queue, and the assertion of
  \<open>pbuf_clone\<close> that the copy succeeds fails. Empty pbufs elsewhere in the chain do no harm.
\<close>

theorem pbuf_coalesce_keeps_data:
  assumes "chain (pbufs s) (Some p) as" and "tot_ok (pbufs s) as" and "readable s as"
    and "malloc_fresh E s" and "releasable s as"
  shows "if length as = 1 \<or> (\<exists>s1. pbuf_alloc E s layer (tot_len (the (pbufs s p))) PBUF_RAM = ret (s1, None))
    then pbuf_coalesce E s (Some p) layer = ret (s, Some p)
    else if 2 < length as \<and> len (the (pbufs s (last as))) = 0
    then pbuf_coalesce E s (Some p) layer = fault Assertion
    else \<exists>s' q. pbuf_coalesce E s (Some p) layer = ret (s', Some q) \<and> pbufs s q = None \<and>
      chain (pbufs s') (Some q) [q] \<and> tot_ok (pbufs s') [q] \<and> data s' [q] = data s as \<and>
      (\<forall>x. x \<noteq> q \<longrightarrow> pbufs s' x = pbufs (free_spec s as) x)"
  using pbuf_coalesce_spec [OF assms, of layer] unfolding trailing_empty_def .

lemma ex_malloc_fresh: "malloc_fresh ex_env ex_state"
  unfolding malloc_fresh_def
  by (auto simp: ex_env_def ex_state_def apart_def fun_upd_apply split: if_splits)

text \<open>The example chain with an empty pbuf behind it.\<close>

definition ex_trailing :: pstate where
  "ex_trailing = ex_state\<lparr>pbufs := (pbufs ex_state)(1100 \<mapsto> ex_pbuf (Some 1300) 2100 2 2, 1300 \<mapsto> ex_pbuf None 2300 0 0)\<rparr>"

lemma ex_trailing_ok:
  "chain (pbufs ex_trailing) (Some 1000) [1000, 1100, 1300]" "tot_ok (pbufs ex_trailing) [1000, 1100, 1300]"
  "readable ex_trailing [1000, 1100, 1300]" "releasable ex_trailing [1000, 1100, 1300]"
  by (simp_all add: ex_trailing_def mapped_def releasable_def std_def)

lemma ex_trailing_fresh: "malloc_fresh ex_env ex_trailing"
  unfolding malloc_fresh_def
  by (auto simp: ex_env_def ex_trailing_def ex_state_def apart_def fun_upd_apply split: if_splits)

lemma ex_alloc_5: "pbuf_alloc ex_env s 54 5 PBUF_RAM \<noteq> ret (s1, None)"
  by (simp add: pbuf_alloc_def Let_def mem_malloc_def ex_env_def)

theorem pbuf_coalesce_keeps_data_witness:
  "(\<exists>s' q. pbuf_coalesce ex_env ex_state (Some 1000) 54 = ret (s', Some q) \<and>
     chain (pbufs s') (Some q) [q] \<and> tot_ok (pbufs s') [q] \<and> data s' [q] = data ex_state [1000, 1100]) \<and>
   pbuf_coalesce ex_env ex_trailing (Some 1000) 54 = fault Assertion"
proof
  show "\<exists>s' q. pbuf_coalesce ex_env ex_state (Some 1000) 54 = ret (s', Some q) \<and>
      chain (pbufs s') (Some q) [q] \<and> tot_ok (pbufs s') [q] \<and> data s' [q] = data ex_state [1000, 1100]"
    using pbuf_coalesce_keeps_data [OF ex_chain(1,3) ex_readable(1) ex_malloc_fresh ex_releasable(1), of 54]
    by (simp add: ex_alloc_5 del: chain.simps tot_ok.simps data.simps) blast
  have "tot_len (the (pbufs ex_trailing 1000)) = 5" "len (the (pbufs ex_trailing 1300)) = 0"
    by (simp_all add: ex_trailing_def)
  then show "pbuf_coalesce ex_env ex_trailing (Some 1000) 54 = fault Assertion"
    using pbuf_coalesce_keeps_data [OF ex_trailing_ok(1-3) ex_trailing_fresh ex_trailing_ok(4), of 54]
    by (simp add: ex_alloc_5)
qed

text \<open>
  C24: \<open>pbuf_dechain\<close> on a chain whose tail has fewer than 256 pbufs splits off the first pbuf with
  its payload. It returns the tail, with its payload and the \<open>tot_len\<close> invariant, when the tail
  is still referenced elsewhere, and \<open>NULL\<close> when the first pbuf of the tail was deallocated.
\<close>

theorem pbuf_dechain_splits:
  assumes "chain (pbufs s) (Some p) (p # q # as)" and "tot_ok (pbufs s) (p # q # as)"
    and "releasable s (q # as)" and "isolated s (p # q # as)" and "length as < 255"
  shows "\<exists>s' r. pbuf_dechain E s p = ret (s', r) \<and> chain (pbufs s') (Some p) [p] \<and>
    tot_ok (pbufs s') [p] \<and> data s' [p] = data s [p] \<and>
    (if ref (the (pbufs s q)) = 1 then r = None \<and> pbufs s' q = None
     else r = Some q \<and> chain (pbufs s') (Some q) (q # as) \<and> tot_ok (pbufs s') (q # as) \<and>
       data s' (q # as) = data s (q # as))"
proof -
  obtain b where b: "pbufs s p = Some b" using assms(1) by auto
  let ?b = "b\<lparr>pnext := None, tot_len := len b\<rparr>"
  let ?s2 = "upd s p ?b"
  let ?s' = "free_spec ?s2 (q # as)"
  let ?g = "gone (pbufs s) (q # as)"
  have dist: "distinct (p # q # as)" using assms(1) by (rule chain_distinct)
  note run = pbuf_dechain_run [OF assms(1-3) b, of E]
  have "length ?g < 256"
    using assms(5) length_takeWhile_le [of "\<lambda>a. ref (the (pbufs s a)) = 1" as] by (simp add: gone_def)
  then have count: "of_nat (length ?g) > (0 :: u8) \<longleftrightarrow> ?g \<noteq> []"
    by (simp add: word_less_nat_alt unat_of_nat take_bit_nat_eq_self)
  have p: "pbufs ?s' p = Some ?b"
    using dist pbufs_free_spec_other [of p "q # as" ?s2] by simp
  have "data ?s' [p] = data ?s2 [p]"
  proof (rule free_tail_data)
    show "\<forall>a \<in> set (q # as). \<forall>x \<in> set [p]. pbuf_get_allocsrc (the (pbufs ?s2 a)) = ALLOC_SRC_HEAP \<longrightarrow>
        apart a (the (blocks ?s2 a)) (payload (the (pbufs ?s2 x))) (unat (len (the (pbufs ?s2 x))))"
    proof (intro ballI impI)
      fix a x assume a: "a \<in> set (q # as)" and x: "x \<in> set [p]"
        and heap: "pbuf_get_allocsrc (the (pbufs ?s2 a)) = ALLOC_SRC_HEAP"
      from a x dist have ne: "a \<noteq> p" "a \<in> set (p # q # as)" "p \<in> set (p # q # as)" "x = p" by auto
      then have "apart a (the (blocks s a)) (payload (the (pbufs s p))) (unat (len (the (pbufs s p))))"
        using heap by (intro isolatedD [OF assms(4)]) auto
      then show "apart a (the (blocks ?s2 a)) (payload (the (pbufs ?s2 x))) (unat (len (the (pbufs ?s2 x))))"
        using ne b by simp
    qed
    show "\<forall>a \<in> set (q # as). std ?s2 a"
      using assms(3) dist by (auto simp: releasable_def std_def fun_upd_apply)
  qed (use dist in auto)
  also have "\<dots> = data s [p]" using b by (simp add: seg_def)
  finally have data: "data ?s' [p] = data s [p]" .
  have here: "chain (pbufs ?s') (Some p) [p]" "tot_ok (pbufs ?s') [p]" using p by simp_all
  show ?thesis
  proof (cases "ref (the (pbufs s q)) = 1")
    case True
    have "pbufs ?s' q = None"
      using True dist pbufs_free_spec_other [of q as "std_free ?s2 q"] by simp
    with True run count data here show ?thesis by (intro exI [of _ ?s'] exI [of _ None]) simp
  next
    case False
    then have s': "?s' = upd ?s2 q ((the (pbufs s q))\<lparr>ref := ref (the (pbufs s q)) - 1\<rparr>)"
      using dist by simp
    have "chain (pbufs ?s') (Some q) (q # as)"
      using assms(1) dist b unfolding s' by auto
    moreover have "tot_ok (pbufs ?s') (q # as)" using assms(2) dist unfolding s' by simp
    moreover have "data ?s' (q # as) = data s (q # as)"
      using dist unfolding s' by (intro data_cong) (auto simp: seg_def fun_upd_apply)
    ultimately show ?thesis
      using False run data here by (intro exI [of _ ?s'] exI [of _ "Some q"]) simp
  qed
qed

theorem pbuf_dechain_splits_witness:
  "\<exists>s' r. pbuf_dechain ex_env ex_state 1000 = ret (s', r) \<and> chain (pbufs s') (Some 1000) [1000] \<and>
    tot_ok (pbufs s') [1000] \<and> data s' [1000] = data ex_state [1000] \<and> r = None \<and> pbufs s' 1100 = None"
proof -
  have "releasable ex_state [1100]" using ex_releasable(1) by (simp add: releasable_def)
  from pbuf_dechain_splits [OF ex_chain(1,3) this ex_releasable(2), of ex_env] show ?thesis
    by auto
qed

lemma of_nat_256_u8: "of_nat 256 = (0 :: u8)"
  by simp

text \<open>
  C25: the count of \<open>pbuf_free\<close> is 8 bits wide. When \<open>pbuf_dechain\<close> releases a tail of exactly 256
  pbufs the count is 0, and the function returns a pointer to the first of the deallocated pbufs.
\<close>

theorem pbuf_dechain_dangling:
  assumes "chain (pbufs s) (Some p) (p # q # as)" and "tot_ok (pbufs s) (p # q # as)"
    and "releasable s (q # as)" and "\<forall>a \<in> set (q # as). ref (the (pbufs s a)) = 1"
    and "length (q # as) = 256"
  shows "\<exists>s'. pbuf_dechain E s p = ret (s', Some q) \<and> pbufs s' q = None"
proof -
  obtain b where b: "pbufs s p = Some b" using assms(1) by auto
  let ?s' = "free_spec (upd s p (b\<lparr>pnext := None, tot_len := len b\<rparr>)) (q # as)"
  have dist: "distinct (p # q # as)" using assms(1) by (rule chain_distinct)
  have "gone (pbufs s) (q # as) = q # as"
    unfolding gone_def by (rule takeWhile_eq_all_conv [THEN iffD2, OF assms(4)])
  then have "of_nat (length (gone (pbufs s) (q # as))) = (0 :: u8)"
    unfolding assms(5) [symmetric] by (metis assms(5) of_nat_256_u8)
  then have "pbuf_dechain E s p = ret (?s', Some q)"
    using pbuf_dechain_run [OF assms(1-3) b, of E] by simp
  moreover have "pbufs ?s' q = None"
    using assms(4) dist pbufs_free_spec_other [of q as] by simp
  ultimately show ?thesis by blast
qed

text \<open>A chain of \<open>m\<close> one-byte pbufs at the addresses from 1 on.\<close>

definition long_state :: "nat \<Rightarrow> pstate" where
  "long_state m = ex_state\<lparr>pbufs := (\<lambda>a. if 1 \<le> a \<and> a \<le> m
     then Some (ex_pbuf (if a = m then None else Some (Suc a)) (a + 1000) (of_nat (Suc m - a)) 1)
     else None)\<rparr>"

lemma long_pbufs:
  "1 \<le> a \<Longrightarrow> a \<le> m \<Longrightarrow> pbufs (long_state m) a =
     Some (ex_pbuf (if a = m then None else Some (Suc a)) (a + 1000) (of_nat (Suc m - a)) 1)"
  by (simp add: long_state_def)

lemma long_chain:
  assumes "1 \<le> a" and "a \<le> m" and "m < 65536"
  shows "chain (pbufs (long_state m)) (Some a) [a..<Suc m] \<and>
    lens (pbufs (long_state m)) [a..<Suc m] = Suc m - a \<and> tot_ok (pbufs (long_state m)) [a..<Suc m]"
  using assms
proof (induction "m - a" arbitrary: a)
  case 0
  then have "[a..<Suc m] = [m]" "a = m" by simp_all
  with 0 show ?case by (simp add: long_pbufs)
next
  case (Suc n)
  then have up: "[a..<Suc m] = a # [Suc a..<Suc m]" "a \<noteq> m" by (simp_all add: upt_conv_Cons del: upt_Suc)
  have "unat (of_nat (Suc m - a) :: u16) = Suc m - a"
    using Suc.prems by (subst unat_of_nat) simp
  moreover have "chain (pbufs (long_state m)) (Some (Suc a)) [Suc a..<Suc m] \<and>
      lens (pbufs (long_state m)) [Suc a..<Suc m] = Suc m - Suc a \<and>
      tot_ok (pbufs (long_state m)) [Suc a..<Suc m]"
    using Suc by (intro Suc.hyps(1)) auto
  ultimately show ?case using Suc.prems up by (simp add: long_pbufs Suc_diff_le del: upt_Suc)
qed

lemma long_releasable:
  assumes "3 \<le> m"
  shows "releasable (long_state m) (2 # [3..<Suc m])"
    and "\<forall>a \<in> set (2 # [3..<Suc m]). ref (the (pbufs (long_state m) a)) = 1"
proof -
  have "pbufs (long_state m) a = Some (ex_pbuf (if a = m then None else Some (Suc a)) (a + 1000)
      (of_nat (Suc m - a)) 1)" if "a \<in> set (2 # [3..<Suc m])" for a
    using that assms by (intro long_pbufs) auto
  then show "releasable (long_state m) (2 # [3..<Suc m])"
    "\<forall>a \<in> set (2 # [3..<Suc m]). ref (the (pbufs (long_state m) a)) = 1"
    by (simp_all add: releasable_def std_def)
qed

lemma long_split: "3 \<le> m \<Longrightarrow> [1..<Suc m] = 1 # 2 # [3..<Suc m]"
  by (simp add: upt_conv_Cons numeral_2_eq_2 numeral_3_eq_3 del: upt_Suc)

theorem pbuf_dechain_dangling_witness:
  "\<exists>s'. pbuf_dechain ex_env (long_state 257) 1 = ret (s', Some 2) \<and> pbufs s' 2 = None"
proof -
  have m: "3 \<le> (257 :: nat)" "(1 :: nat) \<le> 257" "(257 :: nat) < 65536" by simp_all
  have len: "length (2 # [3..<Suc 257]) = 256" by (simp del: upt_Suc)
  have c: "chain (pbufs (long_state 257)) (Some 1) (1 # 2 # [3..<Suc 257])"
    "tot_ok (pbufs (long_state 257)) (1 # 2 # [3..<Suc 257])"
    using long_chain [OF le_refl m(2,3), unfolded long_split [OF m(1)]] by blast+
  show ?thesis
    by (rule pbuf_dechain_dangling [OF c long_releasable [OF m(1)] len])
qed

text \<open>
  C26: \<open>pbuf_copy_partial_pbuf\<close> with an offset behind the first pbuf of the target never succeeds,
  although the target is long enough: the room in the first pbuf is computed modulo the width of
  \<open>size_t\<close>, and the call writes outside that pbuf's payload and stops in an assertion.
\<close>

theorem pbuf_copy_partial_pbuf_offset:
  assumes "chain (pbufs s) (Some t) ts" and "chain (pbufs s) (Some f) fs"
    and "tot_ok (pbufs s) ts" and "tot_ok (pbufs s) fs"
    and "unat n \<le> lens (pbufs s) fs" and "unat off + unat n \<le> lens (pbufs s) ts"
    and "off > len (the (pbufs s t))"
  shows "\<exists>e. pbuf_copy_partial_pbuf s (Some t) (Some f) n off = fault e"
proof -
  obtain bt bf where b: "pbufs s t = Some bt" "pbufs s f = Some bf" "n \<le> tot_len bf"
    "unat off + unat n \<le> unat (tot_len bt)"
    using assms by (auto simp: chain_Some word_le_nat_alt)
  have run: "pbuf_copy_partial_pbuf s (Some t) (Some f) n off =
      copy_partial_pbuf_loop s (Some t) (Some f) n (ucast off) 0"
    using b by (simp add: pbuf_copy_partial_pbuf_def)
  define w :: usize where "w = min (ucast n) (if ucast (len bt) - ucast off \<ge> (ucast (len bf) - 0 :: usize)
      then ucast (len bf) - 0 else ucast (len bt) - ucast off)"
  have "w \<le> ucast n" by (simp add: w_def)
  then have "unat w \<le> unat n" by (simp add: word_le_nat_alt)
  then have "unat (ucast off + w) = unat off + unat w"
    using unat_u16_less [of off] unat_u16_less [of n]
    by (simp add: unat_word_ariths del: unat_u16_less)
  then have bad: "\<not> ucast off + w \<le> (ucast (len bt) :: usize)"
    using assms(7) b by (simp add: word_le_nat_alt word_less_nat_alt)
  let ?cpy = "memcpy s (payload bt + unat (ucast off :: usize)) (payload bf + unat (0 :: usize)) (unat w)"
  consider s' where "?cpy = ret s'" | "?cpy = fault Out_of_bounds"
    by (cases "?cpy = fault Out_of_bounds") (auto simp: memcpy_def memcpy_bytes_eq split: if_splits)
  then have "\<exists>e. copy_partial_pbuf_loop s (Some t) (Some f) n (ucast off) 0 = fault e"
  proof cases
    case 1
    show ?thesis
      by (subst copy_partial_pbuf_loop.simps)
        (simp only: Let_def deref_Some [OF b(1)] deref_Some [OF b(2)] bindR_simps w_def [symmetric] 1
          lwip_assert_simps(2) [OF bad] fault_inject, simp)
  next
    case 2
    show ?thesis
      by (subst copy_partial_pbuf_loop.simps)
        (simp only: Let_def deref_Some [OF b(1)] deref_Some [OF b(2)] bindR_simps w_def [symmetric] 2
          fault_inject, simp)
  qed
  with run show ?thesis by simp
qed

theorem pbuf_copy_partial_pbuf_offset_witness:
  "\<exists>e. pbuf_copy_partial_pbuf ex_state (Some 1000) (Some 1200) 1 4 = fault e"
  using pbuf_copy_partial_pbuf_offset [OF ex_chain(1,2,3,4), of 1 4] by simp

end
