(* ===== verification/Inet_Chksum.thy ===== *)
theory Inet_Chksum
  imports Lwip_Def Pbuf_Chain
begin

text \<open>
  Internet checksums: \<open>core/inet_chksum.c\<close> and the macros of \<open>lwip/inet_chksum.h\<close>.

  \<open>lwip_standard_chksum_1\<close>, \<open>_2\<close> and \<open>_3\<close> are the three versions of
  \<open>lwip_standard_chksum\<close> in the file; the kernel is built with \<open>LWIP_CHKSUM_ALGORITHM = 3\<close>.
  The other functions call the configurable macro \<open>LWIP_CHKSUM\<close>, which is their first
  argument here. The locale \<open>internet_chksum\<close> is what they rely on; it is interpreted for each
  of the three versions. The reference is \<open>inet_sum\<close>, the one's complement sum of RFC 1071.
\<close>

section \<open>Macros\<close>

definition FOLD_U32T :: "u32 \<Rightarrow> u32" where
  "FOLD_U32T u = drop_bit 16 u + (u AND 0xffff)"

definition SWAP_BYTES_IN_WORD :: "u32 \<Rightarrow> u32" where
  "SWAP_BYTES_IN_WORD w = push_bit 8 (w AND 0xff) OR drop_bit 8 (w AND 0xff00)"

section \<open>The three versions of lwip_standard_chksum\<close>

function chksum_1_loop :: "bytes \<Rightarrow> nat \<Rightarrow> int \<Rightarrow> u32 \<Rightarrow> (nat \<times> int \<times> u32) res" where
  "chksum_1_loop m octetptr n acc =
     (if n > 1 then
        bindR (load8 m octetptr) (\<lambda>b0.
        bindR (load8 m (octetptr + 1)) (\<lambda>b1.
        let src = (push_bit 8 (ucast b0) :: u16) OR ucast b1
        in chksum_1_loop m (octetptr + 2) (n - 2) (acc + ucast src)))
      else ret (octetptr, n, acc))"
  by pat_completeness auto
termination by (relation "measure (\<lambda>(_, _, n, _). nat n)") auto

definition lwip_standard_chksum_1 :: "bytes \<Rightarrow> nat \<Rightarrow> int \<Rightarrow> u16 res" where
  "lwip_standard_chksum_1 m dataptr n =
     bindR (chksum_1_loop m dataptr n 0) (\<lambda>(octetptr, n, acc).
     bindR (if n > 0
            then bindR (load8 m octetptr) (\<lambda>b. ret (acc + ucast (push_bit 8 (ucast b) :: u16)))
            else ret acc) (\<lambda>acc.
     let acc = drop_bit 16 acc + (acc AND 0x0000ffff);
         acc = (if acc AND 0xffff0000 \<noteq> 0 then drop_bit 16 acc + (acc AND 0x0000ffff) else acc)
     in ret (lwip_htons (ucast acc))))"

function sum16_loop :: "bytes \<Rightarrow> nat \<Rightarrow> int \<Rightarrow> u32 \<Rightarrow> (nat \<times> int \<times> u32) res" where
  "sum16_loop m ps n csum =
     (if n > 1 then
        bindR (load16 m ps) (\<lambda>w. sum16_loop m (ps + 2) (n - 2) (csum + ucast w))
      else ret (ps, n, csum))"
  by pat_completeness auto
termination by (relation "measure (\<lambda>(_, _, n, _). nat n)") auto

definition lwip_standard_chksum_2 :: "bytes \<Rightarrow> nat \<Rightarrow> int \<Rightarrow> u16 res" where
  "lwip_standard_chksum_2 m pb n =
     (let odd = pb mod 2 = 1 in
      bindR (if odd \<and> n > 0
             then bindR (load8 m pb) (\<lambda>b. ret (push_bit 8 (ucast b), pb + 1, n - 1))
             else ret (0, pb, n)) (\<lambda>(t :: u16, pb, n).
      bindR (sum16_loop m pb n 0) (\<lambda>(ps, n, csum).
      bindR (if n > 0
             then bindR (load8 m ps) (\<lambda>b. ret ((t AND 0xff00) OR ucast b))
             else ret t) (\<lambda>t.
      let csum = FOLD_U32T (FOLD_U32T (csum + ucast t));
          csum = (if odd then SWAP_BYTES_IN_WORD csum else csum)
      in ret (ucast csum)))))"

function chksum_3_loop :: "bytes \<Rightarrow> nat \<Rightarrow> int \<Rightarrow> u32 \<Rightarrow> (nat \<times> int \<times> u32) res" where
  "chksum_3_loop m pl n csum =
     (if n > 7 then
        bindR (load32 m pl) (\<lambda>w.
        let tmp = csum + w;
            tmp = (if tmp < csum then tmp + 1 else tmp)
        in bindR (load32 m (pl + 4)) (\<lambda>w'.
           let csum = tmp + w';
               csum = (if csum < tmp then csum + 1 else csum)
           in chksum_3_loop m (pl + 8) (n - 8) csum))
      else ret (pl, n, csum))"
  by pat_completeness auto
termination by (relation "measure (\<lambda>(_, _, n, _). nat n)") auto

definition lwip_standard_chksum_3 :: "bytes \<Rightarrow> nat \<Rightarrow> int \<Rightarrow> u16 res" where
  "lwip_standard_chksum_3 m pb n =
     (let odd = pb mod 2 = 1 in
      bindR (if odd \<and> n > 0
             then bindR (load8 m pb) (\<lambda>b. ret (push_bit 8 (ucast b), pb + 1, n - 1))
             else ret (0, pb, n)) (\<lambda>(t :: u16, ps, n).
      bindR (if ps mod 4 \<noteq> 0 \<and> n > 1
             then bindR (load16 m ps) (\<lambda>w. ret (ucast w, ps + 2, n - 2))
             else ret (0, ps, n)) (\<lambda>(csum, pl, n).
      bindR (chksum_3_loop m pl n csum) (\<lambda>(ps, n, csum).
      bindR (sum16_loop m ps n (FOLD_U32T csum)) (\<lambda>(ps, n, csum).
      bindR (if n > 0
             then bindR (load8 m ps) (\<lambda>b. ret ((t AND 0xff00) OR ucast b))
             else ret t) (\<lambda>t.
      let csum = FOLD_U32T (FOLD_U32T (csum + ucast t));
          csum = (if odd then SWAP_BYTES_IN_WORD csum else csum)
      in ret (ucast csum)))))))"

declare chksum_1_loop.simps [simp del] sum16_loop.simps [simp del] chksum_3_loop.simps [simp del]

section \<open>Checksums of packets\<close>

type_synonym lwip_chksum = "bytes \<Rightarrow> nat \<Rightarrow> int \<Rightarrow> u16 res"

text \<open>The loop over a chain shared by the functions that sum a whole chain.\<close>

partial_function (option) chksum_chain_loop ::
  "lwip_chksum \<Rightarrow> pstate \<Rightarrow> nat option \<Rightarrow> bool \<Rightarrow> u32 \<Rightarrow> (bool \<times> u32) res" where
  "chksum_chain_loop LWIP_CHKSUM s q swapped acc =
     (case q of
        None \<Rightarrow> ret (swapped, acc)
      | Some _ \<Rightarrow>
          bindR (deref s q) (\<lambda>b.
          bindR (LWIP_CHKSUM (memory s) (payload b) (uint (len b))) (\<lambda>c.
          let acc = FOLD_U32T (acc + ucast c) in
          if len b mod 2 \<noteq> 0
          then chksum_chain_loop LWIP_CHKSUM s (pnext b) (\<not> swapped) (SWAP_BYTES_IN_WORD acc)
          else chksum_chain_loop LWIP_CHKSUM s (pnext b) swapped acc)))"

definition inet_cksum_pseudo_base ::
  "lwip_chksum \<Rightarrow> pstate \<Rightarrow> nat option \<Rightarrow> u8 \<Rightarrow> u16 \<Rightarrow> u32 \<Rightarrow> u16 res" where
  "inet_cksum_pseudo_base LWIP_CHKSUM s p proto proto_len acc =
     bindR (chksum_chain_loop LWIP_CHKSUM s p False acc) (\<lambda>(swapped, acc).
     let acc = (if swapped then SWAP_BYTES_IN_WORD acc else acc);
         acc = acc + ucast (lwip_htons (ucast proto));
         acc = acc + ucast (lwip_htons proto_len);
         acc = FOLD_U32T (FOLD_U32T acc)
     in ret (ucast (NOT (acc AND 0xffff))))"

definition pseudo_addr_sum :: "u32 \<Rightarrow> u32 \<Rightarrow> u32" where
  "pseudo_addr_sum src dest =
     (let acc = src AND 0xffff;
          acc = acc + (drop_bit 16 src AND 0xffff);
          acc = acc + (dest AND 0xffff);
          acc = acc + (drop_bit 16 dest AND 0xffff)
      in FOLD_U32T (FOLD_U32T acc))"

definition inet_chksum_pseudo ::
  "lwip_chksum \<Rightarrow> pstate \<Rightarrow> nat option \<Rightarrow> u8 \<Rightarrow> u16 \<Rightarrow> u32 \<Rightarrow> u32 \<Rightarrow> u16 res" where
  "inet_chksum_pseudo LWIP_CHKSUM s p proto proto_len src dest =
     inet_cksum_pseudo_base LWIP_CHKSUM s p proto proto_len (pseudo_addr_sum src dest)"

definition ip_chksum_pseudo ::
  "lwip_chksum \<Rightarrow> pstate \<Rightarrow> nat option \<Rightarrow> u8 \<Rightarrow> u16 \<Rightarrow> u32 \<Rightarrow> u32 \<Rightarrow> u16 res" where
  "ip_chksum_pseudo LWIP_CHKSUM s p proto proto_len src dest =
     inet_chksum_pseudo LWIP_CHKSUM s p proto proto_len src dest"

partial_function (option) chksum_partial_loop ::
  "lwip_chksum \<Rightarrow> pstate \<Rightarrow> nat option \<Rightarrow> u16 \<Rightarrow> bool \<Rightarrow> u32 \<Rightarrow> (bool \<times> u32) res" where
  "chksum_partial_loop LWIP_CHKSUM s q chksum_len swapped acc =
     (if q \<noteq> None \<and> chksum_len > 0 then
        bindR (deref s q) (\<lambda>b.
        let chklen = (if len b > chksum_len then chksum_len else len b) in
        bindR (LWIP_CHKSUM (memory s) (payload b) (uint chklen)) (\<lambda>c.
        bindR (lwip_assert (chksum_len - chklen < 0x7fff)) (\<lambda>_.
        let acc = FOLD_U32T (acc + ucast c) in
        if len b mod 2 \<noteq> 0
        then chksum_partial_loop LWIP_CHKSUM s (pnext b) (chksum_len - chklen) (\<not> swapped)
               (SWAP_BYTES_IN_WORD acc)
        else chksum_partial_loop LWIP_CHKSUM s (pnext b) (chksum_len - chklen) swapped acc)))
      else ret (swapped, acc))"

definition inet_cksum_pseudo_partial_base ::
  "lwip_chksum \<Rightarrow> pstate \<Rightarrow> nat option \<Rightarrow> u8 \<Rightarrow> u16 \<Rightarrow> u16 \<Rightarrow> u32 \<Rightarrow> u16 res" where
  "inet_cksum_pseudo_partial_base LWIP_CHKSUM s p proto proto_len chksum_len acc =
     bindR (chksum_partial_loop LWIP_CHKSUM s p chksum_len False acc) (\<lambda>(swapped, acc).
     let acc = (if swapped then SWAP_BYTES_IN_WORD acc else acc);
         acc = acc + ucast (lwip_htons (ucast proto));
         acc = acc + ucast (lwip_htons proto_len);
         acc = FOLD_U32T (FOLD_U32T acc)
     in ret (ucast (NOT (acc AND 0xffff))))"

definition inet_chksum_pseudo_partial ::
  "lwip_chksum \<Rightarrow> pstate \<Rightarrow> nat option \<Rightarrow> u8 \<Rightarrow> u16 \<Rightarrow> u16 \<Rightarrow> u32 \<Rightarrow> u32 \<Rightarrow> u16 res" where
  "inet_chksum_pseudo_partial LWIP_CHKSUM s p proto proto_len chksum_len src dest =
     inet_cksum_pseudo_partial_base LWIP_CHKSUM s p proto proto_len chksum_len
       (pseudo_addr_sum src dest)"

definition ip_chksum_pseudo_partial ::
  "lwip_chksum \<Rightarrow> pstate \<Rightarrow> nat option \<Rightarrow> u8 \<Rightarrow> u16 \<Rightarrow> u16 \<Rightarrow> u32 \<Rightarrow> u32 \<Rightarrow> u16 res" where
  "ip_chksum_pseudo_partial LWIP_CHKSUM s p proto proto_len chksum_len src dest =
     inet_chksum_pseudo_partial LWIP_CHKSUM s p proto proto_len chksum_len src dest"

definition inet_chksum :: "lwip_chksum \<Rightarrow> bytes \<Rightarrow> nat \<Rightarrow> u16 \<Rightarrow> u16 res" where
  "inet_chksum LWIP_CHKSUM m dataptr n =
     bindR (LWIP_CHKSUM m dataptr (uint n)) (\<lambda>c. ret (ucast (NOT (ucast c :: u32))))"

definition inet_chksum_pbuf :: "lwip_chksum \<Rightarrow> pstate \<Rightarrow> nat option \<Rightarrow> u16 res" where
  "inet_chksum_pbuf LWIP_CHKSUM s p =
     bindR (chksum_chain_loop LWIP_CHKSUM s p False 0) (\<lambda>(swapped, acc).
     let acc = (if swapped then SWAP_BYTES_IN_WORD acc else acc)
     in ret (ucast (NOT (acc AND 0xffff))))"

section \<open>The one's complement sum\<close>

fun inet_words :: "u8 list \<Rightarrow> nat list" where
  "inet_words [] = []"
| "inet_words [a] = [256 * unat a]"
| "inet_words (a # b # xs) = (256 * unat a + unat b) # inet_words xs"

definition oc_add :: "nat \<Rightarrow> nat \<Rightarrow> nat" where
  "oc_add x y = (if x + y < 65536 then x + y else x + y - 65535)"

definition inet_sum :: "u8 list \<Rightarrow> nat" where
  "inet_sum xs = foldr oc_add (inet_words xs) 0"

text \<open>The host-order sum of the C functions, and the checksum that goes into a header.\<close>

definition host_sum :: "u8 list \<Rightarrow> u16" where
  "host_sum xs = lwip_htons (of_nat (inet_sum xs))"

text \<open>
  \<open>rep x n\<close>: \<open>x\<close> and \<open>n\<close> are the same one's complement number, zero being represented
  only by zero.
\<close>

definition rep :: "nat \<Rightarrow> nat \<Rightarrow> bool" where
  "rep x n \<longleftrightarrow> x mod 65535 = n mod 65535 \<and> (x = 0 \<longleftrightarrow> n = 0)"

fun le_sum :: "u8 list \<Rightarrow> nat" where
  "le_sum [] = 0"
| "le_sum [a] = unat a"
| "le_sum (a # b # xs) = le16 a b + le_sum xs"

lemma rep_refl [simp]: "rep x x"
  by (simp add: rep_def)

lemma rep_sym: "rep x y \<Longrightarrow> rep y x"
  by (auto simp: rep_def)

lemma rep_trans [trans]: "rep x y \<Longrightarrow> rep y z \<Longrightarrow> rep x z"
  by (auto simp: rep_def)

lemma rep_add: "rep x n \<Longrightarrow> rep y k \<Longrightarrow> rep (x + y) (n + k)"
  unfolding rep_def by (metis add_is_0 mod_add_cong)

lemma rep_mult: "0 < c \<Longrightarrow> rep x n \<Longrightarrow> rep (c * x) (c * n)"
  unfolding rep_def by (metis mod_mult_cong mult_is_0 not_gr_zero)

lemma rep_unique: "rep x n \<Longrightarrow> rep y n \<Longrightarrow> x \<le> 65535 \<Longrightarrow> y \<le> 65535 \<Longrightarrow> x = y"
proof -
  assume *: "rep x n" "rep y n" "x \<le> 65535" "y \<le> 65535"
  have aux: "z mod 65535 = (if z = 65535 then 0 else z)" if "z \<le> 65535" for z :: nat
    using that by simp
  have "x mod 65535 = y mod 65535" "x = 0 \<longleftrightarrow> y = 0" using *(1,2) by (auto simp: rep_def)
  then show ?thesis
    unfolding aux [OF *(3)] aux [OF *(4)] by (auto split: if_splits)
qed

lemma rep_fold: "rep (x div 65536 + x mod 65536) x"
proof -
  have "x = 65536 * (x div 65536) + x mod 65536" by simp
  then have e: "x = (x div 65536 + x mod 65536) + 65535 * (x div 65536)" by linarith
  have "(x div 65536 + x mod 65536 = 0) = (x = 0)" using e by auto
  moreover have "(x div 65536 + x mod 65536) mod 65535 = x mod 65535"
    using mod_mult_self2 [of "x div 65536 + x mod 65536" 65535 "x div 65536"] e by simp
  ultimately show ?thesis by (simp add: rep_def)
qed

lemma rep_65536: "rep (x + 65536 * y) (x + y)"
  using mod_mult_self2 [of "x + y" 65535 y] by (auto simp: rep_def algebra_simps)

lemma oc_add_le: "x \<le> 65535 \<Longrightarrow> y \<le> 65535 \<Longrightarrow> oc_add x y \<le> 65535"
  unfolding oc_add_def by (simp, linarith)

lemma rep_oc_add: "x \<le> 65535 \<Longrightarrow> y \<le> 65535 \<Longrightarrow> rep (oc_add x y) (x + y)"
proof (cases "x + y < 65536")
  case False
  then have "x + y = (x + y - 65535) + 65535" by simp
  then have "(x + y) mod 65535 = (x + y - 65535) mod 65535" by (metis mod_add_self2)
  with False show ?thesis by (auto simp: oc_add_def rep_def)
qed (simp add: oc_add_def)

lemma inet_words_le: "w \<in> set (inet_words xs) \<Longrightarrow> w \<le> 65535"
proof (induction xs rule: inet_words.induct)
  case (2 a)
  then show ?case using unat_u8_less [of a] by (simp del: unat_u8_less)
next
  case (3 a b xs)
  then show ?case using unat_u8_less [of a] unat_u8_less [of b] by (auto simp del: unat_u8_less)
qed simp

lemma foldr_oc_add:
  assumes "\<forall>w \<in> set ws. w \<le> 65535"
  shows "foldr oc_add ws 0 \<le> 65535 \<and> rep (foldr oc_add ws 0) (sum_list ws)"
  using assms
proof (induction ws)
  case (Cons w ws)
  then have le: "w \<le> 65535" "foldr oc_add ws 0 \<le> 65535" by auto
  have "rep (oc_add w (foldr oc_add ws 0)) (w + foldr oc_add ws 0)"
    using le by (rule rep_oc_add)
  also have "rep (w + foldr oc_add ws 0) (w + sum_list ws)"
    using Cons by (auto intro: rep_add)
  finally show ?case using le by (simp add: oc_add_le)
qed simp

lemma inet_sum_le: "inet_sum xs \<le> 65535"
  unfolding inet_sum_def using foldr_oc_add inet_words_le by blast

lemma rep_words: "rep (256 * le_sum xs) (sum_list (inet_words xs))"
proof (induction xs rule: inet_words.induct)
  case (3 a b xs)
  have "rep (256 * le16 a b) (256 * unat a + unat b)"
    using rep_65536 [of "256 * unat a" "unat b"] by (simp add: le16_def)
  from rep_add [OF this 3] show ?case by (simp add: algebra_simps)
qed simp_all

lemma rep_inet_sum: "rep (inet_sum xs) (256 * le_sum xs)"
proof -
  have "rep (inet_sum xs) (sum_list (inet_words xs))"
    unfolding inet_sum_def using foldr_oc_add inet_words_le by blast
  also note rep_sym [OF rep_words]
  finally show ?thesis .
qed

lemma le_sum_append: "even (length xs) \<Longrightarrow> le_sum (xs @ ys) = le_sum xs + le_sum ys"
  by (induction xs rule: le_sum.induct) auto

lemma le_sum_odd: "even (length xs) \<Longrightarrow> le_sum (xs @ [y]) = le_sum xs + unat y"
  by (simp add: le_sum_append)

lemma rep_le_sum_Cons: "rep (256 * le_sum (x # xs)) (256 * unat x + le_sum xs)"
proof (induction xs arbitrary: x rule: le_sum.induct)
  case (3 a b xs)
  have "rep (256 * le_sum (x # a # b # xs)) (256 * unat x + 65536 * unat a + 256 * le_sum (b # xs))"
    by (simp add: le16_def algebra_simps)
  also have "rep \<dots> (256 * unat x + unat a + (256 * unat b + le_sum xs))"
    by (rule rep_add [OF rep_65536 "3.IH"])
  also have "256 * unat x + unat a + (256 * unat b + le_sum xs) = 256 * unat x + le_sum (a # b # xs)"
    by (simp add: le16_def)
  finally show ?case .
next
  case (2 a)
  show ?case using rep_65536 [of "256 * unat x" "unat a"] by (simp add: le16_def algebra_simps)
qed simp

lemma rep_le_sum_odd_append:
  "odd (length xs) \<Longrightarrow> rep (256 * le_sum (xs @ ys)) (256 * le_sum xs + le_sum ys)"
proof (induction xs rule: le_sum.induct)
  case (2 a)
  show ?case using rep_le_sum_Cons [of a ys] by simp
next
  case (3 a b xs)
  have "rep (256 * le16 a b + 256 * le_sum (xs @ ys)) (256 * le16 a b + (256 * le_sum xs + le_sum ys))"
    using 3 by (intro rep_add) simp_all
  then show ?case by (simp add: algebra_simps)
qed simp

section \<open>Folding and swapping on words\<close>

lemma unat_FOLD: "unat (FOLD_U32T u) = unat u div 65536 + unat u mod 65536"
proof -
  have 1: "unat (drop_bit 16 u) = unat u div 65536"
    by (simp add: drop_bit_eq_div unat_div)
  have 2: "unat (u AND 0xffff) = unat u mod 65536"
    unfolding mask_consts take_bit_eq_mask [symmetric]
    by (simp add: unsigned_take_bit_eq take_bit_nat_def)
  have "unat u div 65536 < 65536" using unat_u32_less [of u] by (simp del: unat_u32_less)
  moreover have "unat u mod 65536 < 65536" by simp
  ultimately have "unat u div 65536 + unat u mod 65536 < 2 ^ 32" by simp
  then show ?thesis
    unfolding FOLD_U32T_def by (simp add: unat_word_ariths 1 2)
qed

lemma rep_FOLD: "rep (unat (FOLD_U32T u)) (unat u)"
  unfolding unat_FOLD by (rule rep_fold)

lemma FOLD_le: "unat u \<le> 131070 \<Longrightarrow> unat (FOLD_U32T u) \<le> 65535"
  by (cases "unat u < 65536") (auto simp: unat_FOLD div_nat_eqI modulo_nat_def)

lemma FOLD_FOLD_le: "unat (FOLD_U32T (FOLD_U32T u)) \<le> 65535"
proof -
  have "unat u div 65536 \<le> 65535" using unat_u32_less [of u] by linarith
  moreover have "unat u mod 65536 \<le> 65535" by simp
  ultimately show ?thesis by (intro FOLD_le) (simp add: unat_FOLD)
qed

lemma rep_FOLD_FOLD: "rep (unat (FOLD_U32T (FOLD_U32T u))) (unat u)"
  using rep_FOLD rep_trans by blast

lemma htons_bytes:
  obtains l h :: u8 where "unat w = le16 l h" and "unat (lwip_htons w) = le16 h l"
proof
  define l h :: u8 where "l = ucast w" and "h = ucast (drop_bit 8 w)"
  have "w = (ucast l :: u16) OR push_bit 8 (ucast h)"
    unfolding l_def h_def by (rule bit_word_eqI) (auto simp: bit_simps)
  then show "unat w = le16 l h" using unat_or_push16 by metis
  have "lwip_htons w = (ucast h :: u16) OR push_bit 8 (ucast l)"
    unfolding l_def h_def lwip_htons_def mask_consts
    by (rule bit_word_eqI) (auto simp: bit_simps)
  then show "unat (lwip_htons w) = le16 h l" using unat_or_push16 by metis
qed

lemma htons_invol [simp]: "lwip_htons (lwip_htons w) = w"
  unfolding lwip_htons_def mask_consts
  by (rule bit_word_eqI) (auto simp: bit_simps)

lemma rep_htons: "rep (unat (lwip_htons w)) (256 * unat w)"
proof -
  obtain l h where "unat w = le16 l h" "unat (lwip_htons w) = le16 h l" by (rule htons_bytes)
  then show ?thesis
    using rep_sym [OF rep_65536 [of "256 * unat l" "unat h"]] by (simp add: le16_def algebra_simps)
qed

lemma SWAP_eq: "SWAP_BYTES_IN_WORD w = ucast (lwip_htons (ucast w))"
  unfolding SWAP_BYTES_IN_WORD_def lwip_htons_def mask_consts
  by (rule bit_word_eqI) (auto simp: bit_simps)

lemma unat_ucast_16: "unat (w :: u32) \<le> 65535 \<Longrightarrow> unat (ucast w :: u16) = unat w"
  by (simp add: unsigned_ucast_eq take_bit_nat_eq_self_iff)

lemma SWAP_le: "unat (SWAP_BYTES_IN_WORD w) \<le> 65535"
  using unat_u16_less [of "lwip_htons (ucast w)"] by (simp add: SWAP_eq del: unat_u16_less)

lemma rep_SWAP: "unat w \<le> 65535 \<Longrightarrow> rep (unat (SWAP_BYTES_IN_WORD w)) (256 * unat w)"
  using rep_htons [of "ucast w"] by (simp add: SWAP_eq unat_ucast_16)

lemma rep_SWAP_256:
  assumes "unat w \<le> 65535" and "rep (unat w) (256 * n)"
  shows "rep (unat (SWAP_BYTES_IN_WORD w)) n"
proof -
  note rep_SWAP [OF assms(1)]
  also have "rep (256 * unat w) (256 * (256 * n))" using assms(2) by (rule rep_mult [rotated]) simp
  also have "rep (256 * (256 * n)) n" using rep_65536 [of 0 n] by simp
  finally show ?thesis .
qed

lemma host_sum_eqI:
  assumes "rep (unat w) (le_sum xs)"
  shows "w = host_sum xs"
proof -
  have "rep (unat (lwip_htons w)) (256 * unat w)" by (rule rep_htons)
  also have "rep (256 * unat w) (256 * le_sum xs)" using assms by (rule rep_mult [rotated]) simp
  finally have eq: "unat (lwip_htons w) = inet_sum xs"
    using rep_inet_sum inet_sum_le unat_u16_less [of "lwip_htons w"]
    by (intro rep_unique) (auto simp del: unat_u16_less)
  then have "of_nat (inet_sum xs) = lwip_htons w" unfolding eq [symmetric] by simp
  then show ?thesis by (simp add: host_sum_def)
qed

lemma unat_inet_sum: "unat (of_nat (inet_sum xs) :: u16) = inet_sum xs"
  using inet_sum_le [of xs] by (subst unat_of_nat) simp

lemma rep_host_sum: "rep (unat (host_sum xs)) (le_sum xs)"
proof -
  have "rep (unat (host_sum xs)) (256 * unat (of_nat (inet_sum xs) :: u16))"
    unfolding host_sum_def by (rule rep_htons)
  also note unat_inet_sum
  also have "rep (256 * inet_sum xs) (256 * (256 * le_sum xs))"
    by (rule rep_mult [OF _ rep_inet_sum]) simp
  also have "rep (256 * (256 * le_sum xs)) (le_sum xs)" using rep_65536 [of 0] by simp
  finally show ?thesis .
qed

section \<open>The three versions compute the sum\<close>

lemma le_sum_bytes_at_2:
  "le_sum (bytes_at m a (2 + n)) = le16 (the (m a)) (the (m (Suc a))) + le_sum (bytes_at m (a + 2) n)"
proof -
  have "bytes_at m a 2 = [the (m a), the (m (Suc a))]"
    by (rule nth_equalityI) (auto simp: less_Suc_eq numeral_2_eq_2)
  moreover have "bytes_at m a (2 + n) = bytes_at m a 2 @ bytes_at m (a + 2) n"
    using bytes_at_split [of 2 "2 + n" m a] by simp
  ultimately show ?thesis by simp
qed

lemma mapped_2: "mapped m a n \<Longrightarrow> 2 \<le> n \<Longrightarrow> mapped m a 2 \<and> mapped m (a + 2) (n - 2)"
  using mapped_mono [of m a n 0 2] mapped_mono [of m a n 2 "n - 2"] by simp

lemma sum16_loop_spec:
  assumes "mapped m a n" and "unat acc + 65535 * (n div 2) < 4294967296"
  shows "\<exists>acc'. sum16_loop m a (int n) acc = ret (a + 2 * (n div 2), int (n mod 2), acc') \<and>
    unat acc' = unat acc + le_sum (bytes_at m a (2 * (n div 2)))"
  using assms
proof (induction n arbitrary: a acc rule: less_induct)
  case (less n)
  show ?case
  proof (cases "2 \<le> n")
    case True
    then obtain k where n: "n = 2 + k" using le_Suc_ex by blast
    have m2: "mapped m a 2" "mapped m (a + 2) k" using mapped_2 [OF less.prems(1) True] by (simp_all add: n)
    obtain w where w: "load16 m a = ret w" "unat w = le16 (the (m a)) (the (m (Suc a)))"
      using load16_eq [OF m2(1)] by blast
    have "unat acc + unat w < 4294967296"
      using less.prems(2) unat_u16_less [of w] by (simp add: n del: unat_u16_less)
    then have add: "unat (acc + ucast w) = unat acc + unat w"
      by (simp add: unat_word_ariths)
    have "unat (acc + ucast w) + 65535 * (k div 2) < 4294967296"
      using less.prems(2) unat_u16_less [of w] by (simp add: n add del: unat_u16_less)
    from less.IH [OF _ m2(2) this] obtain acc' where
      IH: "sum16_loop m (a + 2) (int k) (acc + ucast w) = ret (a + 2 + 2 * (k div 2), int (k mod 2), acc')"
        "unat acc' = unat (acc + ucast w) + le_sum (bytes_at m (a + 2) (2 * (k div 2)))"
      by (auto simp: n)
    have "sum16_loop m a (int n) acc = sum16_loop m (a + 2) (int k) (acc + ucast w)"
      by (subst sum16_loop.simps) (simp add: w(1) n)
    then show ?thesis
      using IH le_sum_bytes_at_2 [of m a "2 * (k div 2)"] by (simp add: n add w(2))
  next
    case False
    then have "n div 2 = 0" "n mod 2 = n" by simp_all
    with False show ?thesis by (subst sum16_loop.simps) simp
  qed
qed

lemma sum_words_bytes_at_2:
  "sum_list (inet_words (bytes_at m a (2 + n))) =
     le16 (the (m (Suc a))) (the (m a)) + sum_list (inet_words (bytes_at m (a + 2) n))"
proof -
  have "bytes_at m a 2 = [the (m a), the (m (Suc a))]"
    by (rule nth_equalityI) (auto simp: less_Suc_eq numeral_2_eq_2)
  moreover have "bytes_at m a (2 + n) = bytes_at m a 2 @ bytes_at m (a + 2) n"
    using bytes_at_split [of 2 "2 + n" m a] by simp
  ultimately show ?thesis by (simp add: le16_def)
qed

lemma chksum_1_loop_spec:
  assumes "mapped m a n" and "unat acc + 65535 * (n div 2) < 4294967296"
  shows "\<exists>acc'. chksum_1_loop m a (int n) acc = ret (a + 2 * (n div 2), int (n mod 2), acc') \<and>
    unat acc' = unat acc + sum_list (inet_words (bytes_at m a (2 * (n div 2))))"
  using assms
proof (induction n arbitrary: a acc rule: less_induct)
  case (less n)
  show ?case
  proof (cases "2 \<le> n")
    case True
    then obtain k where n: "n = 2 + k" using le_Suc_ex by blast
    have m2: "mapped m a 2" "mapped m (a + 2) k" using mapped_2 [OF less.prems(1) True] by (simp_all add: n)
    have l: "load8 m a = ret (the (m a))" "load8 m (a + 1) = ret (the (m (Suc a)))"
      using mapped_mono [OF m2(1), of 0 1] mapped_mono [OF m2(1), of 1 1] load8_eq by fastforce+
    define w where "w = (push_bit 8 (ucast (the (m a))) :: u16) OR ucast (the (m (Suc a)))"
    have w: "unat w = le16 (the (m (Suc a))) (the (m a))"
      unfolding w_def by (subst or.commute) (rule unat_or_push16)
    have "unat acc + unat w < 4294967296"
      using less.prems(2) unat_u16_less [of w] by (simp add: n del: unat_u16_less)
    then have add: "unat (acc + ucast w) = unat acc + unat w"
      by (simp add: unat_word_ariths)
    have "unat (acc + ucast w) + 65535 * (k div 2) < 4294967296"
      using less.prems(2) unat_u16_less [of w] by (simp add: n add del: unat_u16_less)
    from less.IH [OF _ m2(2) this] obtain acc' where
      IH: "chksum_1_loop m (a + 2) (int k) (acc + ucast w) = ret (a + 2 + 2 * (k div 2), int (k mod 2), acc')"
        "unat acc' = unat (acc + ucast w) + sum_list (inet_words (bytes_at m (a + 2) (2 * (k div 2))))"
      by (auto simp: n)
    have "chksum_1_loop m a (int n) acc = chksum_1_loop m (a + 2) (int k) (acc + ucast w)"
      by (subst chksum_1_loop.simps) (simp add: l [simplified] n w_def)
    then show ?thesis
      using IH sum_words_bytes_at_2 [of m a "2 * (k div 2)"] by (simp add: n add w)
  next
    case False
    then have "n div 2 = 0" "n mod 2 = n" by simp_all
    with False show ?thesis by (subst chksum_1_loop.simps) simp
  qed
qed

text \<open>The two 32-bit additions with the carry added back.\<close>

definition carry_add :: "u32 \<Rightarrow> u32 \<Rightarrow> u32" where
  "carry_add x y = (let z = x + y in if z < x then z + 1 else z)"

lemma rep_carry_add: "rep (unat (carry_add x y)) (unat x + unat y)"
proof (cases "unat x + unat y < 4294967296")
  case True
  then have "unat (x + y) = unat x + unat y" by (simp add: unat_word_ariths)
  then show ?thesis by (simp add: carry_add_def word_less_nat_alt)
next
  case False
  have "unat x < 4294967296" "unat y < 4294967296" by simp_all
  with False have u: "unat (x + y) = unat x + unat y - 4294967296"
    by (simp add: unat_word_ariths mod_if del: unat_u32_less)
  with False have "unat (x + y) < unat x" "unat (x + y) + 1 < 4294967296"
    using unat_u32_less [of x] unat_u32_less [of y] by linarith+
  moreover from this have "unat (x + y + 1) = unat (x + y) + 1"
    by (subst unat_word_ariths(1)) simp
  ultimately have "unat (carry_add x y) = unat x + unat y - 4294967296 + 1"
    by (simp add: carry_add_def word_less_nat_alt u)
  moreover have "unat x + unat y = (unat x + unat y - 4294967296 + 1) + 65535 * 65537"
    using False by simp
  then have "(unat x + unat y) mod 65535 = (unat x + unat y - 4294967296 + 1) mod 65535"
    by (metis mod_mult_self2)
  ultimately show ?thesis using False by (auto simp: rep_def)
qed

lemma le_sum_bytes_at_4:
  assumes "load32 m a = ret w" and "mapped m a 4"
  shows "rep (unat w) (le_sum (bytes_at m a 4))"
proof -
  obtain w' where "load32 m a = ret w'" and w': "unat w' = le16 (the (m a)) (the (m (a + 1))) +
      65536 * le16 (the (m (a + 2))) (the (m (a + 3)))"
    using load32_eq [OF assms(2)] by blast
  with assms have "w' = w" by simp
  moreover have "le_sum (bytes_at m a 4) =
      le16 (the (m a)) (the (m (a + 1))) + le16 (the (m (a + 2))) (the (m (a + 3)))"
    using le_sum_bytes_at_2 [of m a 2] le_sum_bytes_at_2 [of m "a + 2" 0]
    by (simp add: numeral_eq_Suc)
  ultimately show ?thesis using w' rep_65536 by metis
qed

lemma chksum_3_loop_spec:
  assumes "mapped m a n"
  shows "\<exists>acc'. chksum_3_loop m a (int n) acc = ret (a + 8 * (n div 8), int (n mod 8), acc') \<and>
    rep (unat acc') (unat acc + le_sum (bytes_at m a (8 * (n div 8))))"
  using assms
proof (induction n arbitrary: a acc rule: less_induct)
  case (less n)
  show ?case
  proof (cases "8 \<le> n")
    case True
    then obtain k where n: "n = 8 + k" using le_Suc_ex by blast
    have d: "8 * (n div 8) = 8 + 8 * (k div 8)" "n mod 8 = k mod 8"
      unfolding n by (subst div_add_self1) simp_all
    have mm: "mapped m a 4" "mapped m (a + 4) 4" "mapped m (a + 8) k"
      using mapped_mono [OF less.prems, of 0 4] mapped_mono [OF less.prems, of 4 4]
        mapped_mono [OF less.prems, of 8 k] by (simp_all add: n)
    obtain w w' where w: "load32 m a = ret w" "load32 m (a + 4) = ret w'"
      using load32_eq [OF mm(1)] load32_eq [OF mm(2)] by blast
    define acc1 where "acc1 = carry_add (carry_add acc w) w'"
    have "rep (unat acc1) (unat (carry_add acc w) + unat w')"
      unfolding acc1_def by (rule rep_carry_add)
    also have "rep (unat (carry_add acc w) + unat w')
        ((unat acc + unat w) + le_sum (bytes_at m (a + 4) 4))"
      using rep_carry_add le_sum_bytes_at_4 [OF w(2) mm(2)] by (rule rep_add)
    also have "rep ((unat acc + unat w) + le_sum (bytes_at m (a + 4) 4))
        ((unat acc + le_sum (bytes_at m a 4)) + le_sum (bytes_at m (a + 4) 4))"
      using le_sum_bytes_at_4 [OF w(1) mm(1)] by (intro rep_add) simp_all
    finally have acc1: "rep (unat acc1) (unat acc + le_sum (bytes_at m a 8))"
      using bytes_at_split [of 4 8 m a] by (simp add: le_sum_append add.assoc)
    from less.IH [OF _ mm(3), of acc1] obtain acc' where
      IH: "chksum_3_loop m (a + 8) (int k) acc1 = ret (a + 8 + 8 * (k div 8), int (k mod 8), acc')"
        "rep (unat acc') (unat acc1 + le_sum (bytes_at m (a + 8) (8 * (k div 8))))"
      by (auto simp: n)
    have "chksum_3_loop m a (int n) acc = chksum_3_loop m (a + 8) (int k) acc1"
      by (subst chksum_3_loop.simps) (simp add: w n acc1_def carry_add_def Let_def)
    moreover have "rep (unat acc') (unat acc + le_sum (bytes_at m a (8 * (n div 8))))"
    proof -
      note IH(2)
      also have "rep (unat acc1 + le_sum (bytes_at m (a + 8) (8 * (k div 8))))
          (unat acc + le_sum (bytes_at m a 8) + le_sum (bytes_at m (a + 8) (8 * (k div 8))))"
        using acc1 by (intro rep_add) simp_all
      finally show ?thesis
        using bytes_at_split [of 8 "8 + 8 * (k div 8)" m a] by (simp add: d le_sum_append add.assoc)
    qed
    ultimately show ?thesis using IH(1) by (simp add: d)
  next
    case False
    then have "n div 8 = 0" "n mod 8 = n" by simp_all
    with False show ?thesis by (subst chksum_3_loop.simps) simp
  qed
qed

lemma sum_words_append:
  "even (length xs) \<Longrightarrow> sum_list (inet_words (xs @ ys)) = sum_list (inet_words xs) + sum_list (inet_words ys)"
  by (induction xs rule: inet_words.induct) auto

lemma sum_words_le: "sum_list (inet_words xs) \<le> 65535 * length xs"
proof (induction xs rule: inet_words.induct)
  case (2 a)
  show ?case using unat_u8_less [of a] by (simp del: unat_u8_less)
next
  case (3 a b xs)
  then show ?case using unat_u8_less [of a] unat_u8_less [of b] by (simp del: unat_u8_less)
qed simp

lemma bytes_at_Suc_0: "bytes_at m a (Suc 0) = [the (m a)]"
  by (rule nth_equalityI) auto

lemma mod_2_bytes: "n mod 2 = 1 \<or> n mod 2 = (0 :: nat)"
  by auto

lemma bytes_at_halves: "bytes_at m a n = bytes_at m a (2 * (n div 2)) @ bytes_at m (a + 2 * (n div 2)) (n mod 2)"
proof -
  have "n - 2 * (n div 2) = n mod 2" by (simp add: minus_mult_div_eq_mod)
  then show ?thesis using bytes_at_split [of "2 * (n div 2)" n m a] by simp
qed

lemma mapped_last: "mapped m a n \<Longrightarrow> mapped m (a + 2 * (n div 2)) (n mod 2)"
  by (rule mapped_mono [of m a n]) (auto simp: mult_div_mod_eq)

lemma chksum_tail:
  fixes acc :: u32
  assumes "mapped m ps n" and "n \<le> 1" and "unat acc + 65535 < 4294967296" and "unat t mod 256 = 0"
  shows "\<exists>t'. (if int n > 0 then bindR (load8 m ps) (\<lambda>b. ret ((t AND 0xff00) OR ucast b)) else ret t)
      = ret t' \<and> unat (acc + ucast (t' :: u16)) = unat acc + unat t + le_sum (bytes_at m ps n)"
proof -
  have *: "unat (acc + ucast (w :: u16)) = unat acc + unat w" for w
  proof -
    have "unat acc + unat w < 4294967296" using assms(3) unat_u16_less [of w] by linarith
    then show ?thesis by (simp add: unat_word_ariths)
  qed
  show ?thesis
  proof (cases "n = 0")
    case True
    then show ?thesis by (simp add: *)
  next
    case False
    with assms have n: "n = 1" by simp
    obtain l h where lh: "t = (ucast l :: u16) OR push_bit 8 (ucast (h :: u8))" "unat t = le16 l h"
    proof
      show e: "t = (ucast (ucast t :: u8) :: u16) OR push_bit 8 (ucast (ucast (drop_bit 8 t) :: u8))"
        by (rule bit_word_eqI) (auto simp: bit_simps)
      show "unat t = le16 (ucast t) (ucast (drop_bit 8 t))" by (subst e) (rule unat_or_push16)
    qed
    with assms(4) have "unat l = 0" by (simp add: le16_def)
    then have l: "l = 0" by (simp add: unat_eq_0)
    have "(t AND 0xff00) OR ucast b = (ucast b :: u16) OR push_bit 8 (ucast h)" for b :: u8
      unfolding lh(1) l mask_consts by (rule bit_word_eqI) (auto simp: bit_simps dest: bit_imp_le_length)
    then have "unat ((t AND 0xff00) OR ucast b) = unat t + unat b" for b :: u8
      unfolding lh(2) l by (simp add: unat_or_push16 le16_def)
    then show ?thesis
      using load8_eq [of m ps] assms(1) by (simp add: n * bytes_at_Suc_0)
  qed
qed

lemma unat_push8: "unat (push_bit 8 (ucast (b :: u8)) :: u16) = 256 * unat b"
  using unat_or_push16 [of 0 b] by (simp add: le16_def)

lemma chksum_finish:
  assumes "unat F \<le> 65535" and "rep (unat F) (unat t + le_sum (bytes_at m ps k))"
    and "if a mod 2 = 1 \<and> 0 < n then unat t = 256 * unat (the (m a)) \<and> ps = a + 1 \<and> n = k + 1
         else t = 0 \<and> ps = a \<and> k = n"
  shows "(ucast (if a mod 2 = 1 then SWAP_BYTES_IN_WORD F else F) :: u16) = host_sum (bytes_at m a n)"
proof (rule host_sum_eqI)
  let ?r = "if a mod 2 = 1 then SWAP_BYTES_IN_WORD F else F"
  have "unat ?r \<le> 65535" using assms(1) SWAP_le by auto
  then have u: "unat (ucast ?r :: u16) = unat ?r" by (rule unat_ucast_16)
  show "rep (unat (ucast ?r :: u16)) (le_sum (bytes_at m a n))"
  proof (cases "a mod 2 = 1 \<and> 0 < n")
    case True
    with assms(3) have t: "unat t = 256 * unat (the (m a))" "ps = a + 1" "n = k + 1" by auto
    have b: "bytes_at m a n = the (m a) # bytes_at m (a + 1) k"
      using bytes_at_split [of 1 n m a] by (simp add: t(3) bytes_at_Suc_0)
    have "rep (unat F) (256 * le_sum (bytes_at m a n))"
      using rep_trans [OF assms(2) [unfolded t(1,2)] rep_sym [OF rep_le_sum_Cons]] unfolding b .
    with assms(1) have "rep (unat (SWAP_BYTES_IN_WORD F)) (le_sum (bytes_at m a n))"
      by (rule rep_SWAP_256)
    with True show ?thesis unfolding u by simp
  next
    case False
    with assms(2,3) have r: "rep (unat F) (le_sum (bytes_at m a n))" by auto
    show ?thesis
    proof (cases "a mod 2 = 1")
      case True
      with False r have "unat F = 0" by (simp add: rep_def)
      then have "F = 0" by (simp add: unat_eq_0)
      then have "unat (SWAP_BYTES_IN_WORD F) = 0" by (simp add: SWAP_BYTES_IN_WORD_def)
      with False True show ?thesis unfolding u by simp
    next
      case False
      with r show ?thesis unfolding u by simp
    qed
  qed
qed

lemma chksum_align:
  assumes "mapped m a n"
  obtains t :: u16 and ps k where
    "(if a mod 2 = 1 \<and> int n > 0
      then bindR (load8 m a) (\<lambda>b. ret (push_bit 8 (ucast b), a + 1, int n - 1))
      else ret (0, a, int n)) = ret (t, ps, int k)"
    "mapped m ps k" "unat t mod 256 = 0" "k \<le> n"
    "if a mod 2 = 1 \<and> 0 < n then unat t = 256 * unat (the (m a)) \<and> ps = a + 1 \<and> n = k + 1
     else t = 0 \<and> ps = a \<and> k = n"
proof (cases "a mod 2 = 1 \<and> 0 < n")
  case True
  then obtain k where n: "n = Suc k" using gr0_implies_Suc by blast
  have "mapped m a 1" "mapped m (a + 1) k"
    using mapped_mono [OF assms, of 0 1] mapped_mono [OF assms, of 1 k] by (simp_all add: n)
  with True show ?thesis
    by (intro that [of "push_bit 8 (ucast (the (m a)))" "a + 1" k])
      (simp_all add: n load8_eq [simplified] unat_push8)
next
  case False
  with assms show ?thesis by (intro that [of 0 a n]) auto
qed

lemma le_sum_le: "le_sum xs \<le> 65535 * ((length xs + 1) div 2)"
proof (induction xs rule: le_sum.induct)
  case (2 a)
  show ?case using unat_u8_less [of a] by (simp del: unat_u8_less)
next
  case (3 a b xs)
  then show ?case using le16_less [of a b] by (simp del: le16_less)
qed simp

lemma chksum_end:
  fixes acc :: u32
  assumes "mapped m ps n" and "n \<le> 1" and "unat acc + 65535 < 4294967296" and "unat t mod 256 = 0"
    and "rep (unat acc) R" and "rep (unat t + R + le_sum (bytes_at m ps n)) (unat t + le_sum (bytes_at m q k))"
    and "if a mod 2 = 1 \<and> 0 < l then unat t = 256 * unat (the (m a)) \<and> q = a + 1 \<and> l = k + 1
         else t = 0 \<and> q = a \<and> k = l"
  shows "bindR (if int n > 0 then bindR (load8 m ps) (\<lambda>b. ret ((t AND 0xff00) OR ucast b)) else ret t)
    (\<lambda>t. let csum = FOLD_U32T (FOLD_U32T (acc + ucast (t :: u16)));
             csum = (if a mod 2 = 1 then SWAP_BYTES_IN_WORD csum else csum)
         in ret (ucast csum :: u16)) = ret (host_sum (bytes_at m a l))"
proof -
  obtain t' where t': "(if int n > 0 then bindR (load8 m ps) (\<lambda>b. ret ((t AND 0xff00) OR ucast b)) else ret t)
      = ret t'" "unat (acc + ucast (t' :: u16)) = unat acc + unat t + le_sum (bytes_at m ps n)"
    using chksum_tail [OF assms(1-4)] by blast
  let ?F = "FOLD_U32T (FOLD_U32T (acc + ucast t'))"
  have "rep (unat ?F) (unat acc + unat t + le_sum (bytes_at m ps n))"
    using rep_FOLD_FOLD [of "acc + ucast t'"] unfolding t'(2) .
  also have "rep \<dots> (R + unat t + le_sum (bytes_at m ps n))"
    using assms(5) by (intro rep_add) simp_all
  also have "\<dots> = unat t + R + le_sum (bytes_at m ps n)" by simp
  also note assms(6)
  finally have "(ucast (if a mod 2 = 1 then SWAP_BYTES_IN_WORD ?F else ?F) :: u16) = host_sum (bytes_at m a l)"
    using FOLD_FOLD_le assms(7) by (intro chksum_finish)
  then show ?thesis unfolding t'(1) by (simp add: Let_def)
qed

lemma le_sum_halves:
  "le_sum (bytes_at m a (2 * (n div 2))) + le_sum (bytes_at m (a + 2 * (n div 2)) (n mod 2)) =
     le_sum (bytes_at m a n)"
  by (subst (3) bytes_at_halves) (simp add: le_sum_append)

lemma lwip_standard_chksum_2_eq:
  assumes "mapped m a n" and "n \<le> 131072"
  shows "lwip_standard_chksum_2 m a (int n) = ret (host_sum (bytes_at m a n))"
proof -
  obtain t :: u16 and ps k where
    al: "(if a mod 2 = 1 \<and> int n > 0
      then bindR (load8 m a) (\<lambda>b. ret (push_bit 8 (ucast b), a + 1, int n - 1))
      else ret (0, a, int n)) = ret (t, ps, int k)"
    and ps: "mapped m ps k" "unat t mod 256 = 0" "k \<le> n"
    and fin: "if a mod 2 = 1 \<and> 0 < n then unat t = 256 * unat (the (m a)) \<and> ps = a + 1 \<and> n = k + 1
     else t = 0 \<and> ps = a \<and> k = n"
    using assms(1) by (rule chksum_align)
  have k: "k div 2 \<le> 65536" using ps(3) assms(2) by simp
  then obtain acc where acc: "sum16_loop m ps (int k) 0 = ret (ps + 2 * (k div 2), int (k mod 2), acc)"
    "unat acc = le_sum (bytes_at m ps (2 * (k div 2)))"
    using sum16_loop_spec [OF ps(1), of 0] by auto
  have "unat acc + 65535 < 4294967296"
    using le_sum_le [of "bytes_at m ps (2 * (k div 2))"] k unfolding acc(2) by simp
  moreover have "rep (unat t + le_sum (bytes_at m ps (2 * (k div 2))) +
      le_sum (bytes_at m (ps + 2 * (k div 2)) (k mod 2))) (unat t + le_sum (bytes_at m ps k))"
    using le_sum_halves [of m ps k] by (simp add: add.assoc)
  ultimately show ?thesis
    unfolding lwip_standard_chksum_2_def Let_def al bindR_simps prod.case acc(1)
    using mapped_last [OF ps(1)] ps(2) fin acc(2)
    by (intro chksum_end [unfolded Let_def]) auto
qed

lemma chksum_align4:
  assumes "mapped m ps k"
  obtains acc pl j where
    "(if ps mod 4 \<noteq> 0 \<and> int k > 1
      then bindR (load16 m ps) (\<lambda>w. ret (ucast w, ps + 2, int k - 2))
      else ret (0 :: u32, ps, int k)) = ret (acc, pl, int j)"
    "mapped m pl j" "unat acc + le_sum (bytes_at m pl j) = le_sum (bytes_at m ps k)"
proof (cases "ps mod 4 \<noteq> 0 \<and> 2 \<le> k")
  case True
  then obtain j where k: "k = 2 + j" using le_Suc_ex by blast
  have mm: "mapped m ps 2" "mapped m (ps + 2) j" using mapped_2 [OF assms] by (simp_all add: k)
  obtain w where w: "load16 m ps = ret w" "unat w = le16 (the (m ps)) (the (m (Suc ps)))"
    using load16_eq [OF mm(1)] by blast
  show ?thesis
    using True w mm le_sum_bytes_at_2 [of m ps j]
    by (intro that [of "ucast w" "ps + 2" j]) (simp_all add: k)
next
  case False
  with assms show ?thesis by (intro that [of 0 ps k]) auto
qed

lemma lwip_standard_chksum_3_eq:
  assumes "mapped m a n"
  shows "lwip_standard_chksum_3 m a (int n) = ret (host_sum (bytes_at m a n))"
proof -
  obtain t :: u16 and ps k where
    al: "(if a mod 2 = 1 \<and> int n > 0
      then bindR (load8 m a) (\<lambda>b. ret (push_bit 8 (ucast b), a + 1, int n - 1))
      else ret (0, a, int n)) = ret (t, ps, int k)"
    and ps: "mapped m ps k" "unat t mod 256 = 0"
    and fin: "if a mod 2 = 1 \<and> 0 < n then unat t = 256 * unat (the (m a)) \<and> ps = a + 1 \<and> n = k + 1
     else t = 0 \<and> ps = a \<and> k = n"
    using assms(1) by (rule chksum_align)
  obtain acc pl j where
    al4: "(if ps mod 4 \<noteq> 0 \<and> int k > 1
      then bindR (load16 m ps) (\<lambda>w. ret (ucast w, ps + 2, int k - 2))
      else ret (0 :: u32, ps, int k)) = ret (acc, pl, int j)"
    and pl: "mapped m pl j" "unat acc + le_sum (bytes_at m pl j) = le_sum (bytes_at m ps k)"
    using ps(1) by (rule chksum_align4)
  obtain acc1 where acc1: "chksum_3_loop m pl (int j) acc = ret (pl + 8 * (j div 8), int (j mod 8), acc1)"
    "rep (unat acc1) (unat acc + le_sum (bytes_at m pl (8 * (j div 8))))"
    using chksum_3_loop_spec [OF pl(1)] by blast
  define p8 r where "p8 = pl + 8 * (j div 8)" and "r = j mod 8"
  have p8: "mapped m p8 r"
    unfolding p8_def r_def by (rule mapped_mono [OF pl(1)]) (simp add: mult_div_mod_eq)
  have F: "unat (FOLD_U32T acc1) \<le> 131070"
    using unat_u32_less [of acc1] unfolding unat_FOLD by linarith
  have r: "r div 2 \<le> 3" unfolding r_def by simp
  then obtain acc2 where acc2: "sum16_loop m p8 (int r) (FOLD_U32T acc1) =
      ret (p8 + 2 * (r div 2), int (r mod 2), acc2)"
    "unat acc2 = unat (FOLD_U32T acc1) + le_sum (bytes_at m p8 (2 * (r div 2)))"
    using sum16_loop_spec [OF p8, of "FOLD_U32T acc1"] F by auto
  have b: "unat acc2 + 65535 < 4294967296"
    using le_sum_le [of "bytes_at m p8 (2 * (r div 2))"] F r unfolding acc2(2) by simp
  define R where "R = unat acc + le_sum (bytes_at m pl (8 * (j div 8))) + le_sum (bytes_at m p8 (2 * (r div 2)))"
  have rep2: "rep (unat acc2) R"
    unfolding acc2(2) R_def using rep_trans [OF rep_FOLD acc1(2)] by (intro rep_add) simp_all
  have split8: "le_sum (bytes_at m pl (8 * (j div 8))) + le_sum (bytes_at m p8 r) = le_sum (bytes_at m pl j)"
    unfolding p8_def r_def using bytes_at_split [of "8 * (j div 8)" j m pl]
    by (simp add: minus_mult_div_eq_mod le_sum_append)
  have "R + le_sum (bytes_at m (p8 + 2 * (r div 2)) (r mod 2)) = le_sum (bytes_at m ps k)"
    unfolding R_def using le_sum_halves [of m p8 r] split8 pl(2) by simp
  then have "rep (unat t + R + le_sum (bytes_at m (p8 + 2 * (r div 2)) (r mod 2)))
      (unat t + le_sum (bytes_at m ps k))"
    by (simp add: add.assoc)
  then show ?thesis
    unfolding lwip_standard_chksum_3_def Let_def al bindR_simps prod.case al4 acc1(1)
      acc2(1) [unfolded p8_def r_def]
    using mapped_last [OF p8] b ps(2) rep2 fin
    by (intro chksum_end [unfolded Let_def]) (auto simp: p8_def r_def)
qed

lemma FOLD_twice:
  "(let acc = drop_bit 16 acc + (acc AND 0x0000ffff)
    in if acc AND 0xffff0000 \<noteq> 0 then drop_bit 16 acc + (acc AND 0x0000ffff) else acc) =
   FOLD_U32T (FOLD_U32T acc)"
proof -
  have "FOLD_U32T x = x" if "x AND 0xffff0000 = 0" for x
  proof -
    have hi: "(0xffff0000 :: u32) = push_bit 16 (mask 16)" by (simp add: mask_eq_exp_minus_1)
    have b: "\<not> bit x n" if "16 \<le> n" for n
    proof (cases "n < 32")
      case True
      have "\<not> bit (x AND 0xffff0000) n" using \<open>x AND 0xffff0000 = 0\<close> by simp
      with True that show ?thesis unfolding hi by (auto simp: bit_simps)
    qed (auto dest: bit_imp_le_length)
    have "drop_bit 16 x = 0" by (rule bit_word_eqI) (auto simp: bit_simps b)
    moreover have "x AND 0xffff = x"
      unfolding mask_consts by (rule bit_word_eqI) (use b not_less in \<open>auto simp: bit_simps\<close>)
    ultimately show ?thesis by (simp add: FOLD_U32T_def)
  qed
  then show ?thesis by (simp add: Let_def FOLD_U32T_def)
qed

lemma lwip_standard_chksum_1_eq:
  assumes "mapped m a n" and "n \<le> 65535"
  shows "lwip_standard_chksum_1 m a (int n) = ret (host_sum (bytes_at m a n))"
proof -
  have n2: "n div 2 \<le> 32767" using assms(2) by simp
  then obtain acc where acc: "chksum_1_loop m a (int n) 0 = ret (a + 2 * (n div 2), int (n mod 2), acc)"
    "unat acc = sum_list (inet_words (bytes_at m a (2 * (n div 2))))"
    using chksum_1_loop_spec [OF assms(1), of 0] by auto
  have b: "unat acc \<le> 65535 * 65534"
    using sum_words_le [of "bytes_at m a (2 * (n div 2))"] n2 unfolding acc(2) by simp
  define ps where "ps = a + 2 * (n div 2)"
  obtain acc' where acc': "(if int (n mod 2) > 0
      then bindR (load8 m ps) (\<lambda>b. ret (acc + ucast (push_bit 8 (ucast b) :: u16))) else ret acc) = ret acc'"
    and rep': "unat acc' = sum_list (inet_words (bytes_at m a n))"
  proof (cases "n mod 2 = 0")
    case True
    then have "2 * (n div 2) = n" by auto
    with acc(2) True show ?thesis by (intro that [of acc]) simp_all
  next
    case False
    then have n: "n mod 2 = 1" by simp
    have mp: "mapped m ps 1" using mapped_last [OF assms(1)] by (simp only: n ps_def)
    have "unat (acc + ucast (push_bit 8 (ucast x) :: u16)) = unat acc + 256 * unat x" for x :: u8
      using b unat_u8_less [of x] by (subst unat_word_ariths) (simp add: unat_push8 del: unat_u8_less)
    moreover have "sum_list (inet_words (bytes_at m a n)) = unat acc + 256 * unat (the (m ps))"
      unfolding acc(2) by (subst bytes_at_halves)
        (simp add: sum_words_append n bytes_at_Suc_0 ps_def)
    ultimately show ?thesis
      using load8_eq [OF mp] n by (intro that) simp_all
  qed
  let ?F = "FOLD_U32T (FOLD_U32T acc')"
  have "unat ?F = inet_sum (bytes_at m a n)"
  proof (rule rep_unique)
    show "rep (unat ?F) (sum_list (inet_words (bytes_at m a n)))"
      unfolding rep' [symmetric] by (rule rep_FOLD_FOLD)
    show "rep (inet_sum (bytes_at m a n)) (sum_list (inet_words (bytes_at m a n)))"
      using rep_trans [OF rep_inet_sum rep_words] .
  qed (simp_all add: FOLD_FOLD_le inet_sum_le)
  then have "(ucast ?F :: u16) = of_nat (inet_sum (bytes_at m a n))"
    by (simp add: word_unat_eq_iff unat_ucast_16 inet_sum_le unat_inet_sum)
  then show ?thesis
    unfolding lwip_standard_chksum_1_def acc(1) bindR_simps prod.case acc' [unfolded ps_def] Let_def
      FOLD_twice [unfolded Let_def] by (simp add: host_sum_def)
qed

section \<open>Sums over chains\<close>

text \<open>
  What the callers of \<open>LWIP_CHKSUM\<close> rely on: on a readable buffer of at most 65535 bytes it
  returns the host-order one's complement sum.
\<close>

locale internet_chksum =
  fixes chk :: lwip_chksum
  assumes chk_eq: "mapped m a n \<Longrightarrow> n \<le> 65535 \<Longrightarrow> chk m a (int n) = ret (host_sum (bytes_at m a n))"

definition u32_bytes :: "u32 \<Rightarrow> u8 list" where
  "u32_bytes w = [ucast w, ucast (drop_bit 8 w), ucast (drop_bit 16 w), ucast (drop_bit 24 w)]"

definition pseudo_header :: "u32 \<Rightarrow> u32 \<Rightarrow> u8 \<Rightarrow> u16 \<Rightarrow> u8 list" where
  "pseudo_header src dest proto proto_len =
     u32_bytes src @ u32_bytes dest @ [0, proto, ucast (drop_bit 8 proto_len), ucast proto_len]"

text \<open>
  The accumulator after the bytes \<open>xs\<close>: it represents the sum, times 256 when the number of
  bytes is odd. \<open>A\<close> is what was added before the first byte.
\<close>

definition acc_ok :: "u32 \<Rightarrow> nat \<Rightarrow> u8 list \<Rightarrow> bool" where
  "acc_ok acc A xs \<longleftrightarrow> unat acc \<le> 65535 \<and>
     rep (unat acc) (if even (length xs) then A + le_sum xs else 256 * (A + le_sum xs))"

lemma rep_256_256: "rep (256 * (256 * n)) n"
  using rep_65536 [of 0 n] by simp

lemma acc_ok_step:
  assumes "acc_ok acc A xs"
  shows "acc_ok (if odd (length ys) then SWAP_BYTES_IN_WORD (FOLD_U32T (acc + ucast (host_sum ys)))
                 else FOLD_U32T (acc + ucast (host_sum ys))) A (xs @ ys)"
proof -
  let ?F = "FOLD_U32T (acc + ucast (host_sum ys))"
  let ?N = "A + le_sum (xs @ ys)"
  have u: "unat (acc + ucast (host_sum ys)) = unat acc + unat (host_sum ys)"
    and le: "unat (acc + ucast (host_sum ys)) \<le> 131070"
    using assms unat_u16_less [of "host_sum ys"]
    by (auto simp: acc_ok_def unat_word_ariths simp del: unat_u16_less)
  have F: "unat ?F \<le> 65535" using le by (rule FOLD_le)
  have "rep (unat ?F) (unat acc + unat (host_sum ys))"
    unfolding u [symmetric] by (rule rep_FOLD)
  also have "rep \<dots> ((if even (length xs) then A + le_sum xs else 256 * (A + le_sum xs)) + le_sum ys)"
    using assms rep_host_sum by (auto simp: acc_ok_def intro!: rep_add)
  also have "rep \<dots> (if even (length xs) then ?N else 256 * ?N)"
  proof (cases "even (length xs)")
    case False
    then have "rep (256 * A + (256 * le_sum xs + le_sum ys)) (256 * A + 256 * le_sum (xs @ ys))"
      by (intro rep_add rep_refl rep_sym [OF rep_le_sum_odd_append])
    with False show ?thesis by (simp add: algebra_simps)
  qed (simp add: le_sum_append add.assoc)
  finally have r: "rep (unat ?F) (if even (length xs) then ?N else 256 * ?N)" .
  show ?thesis
  proof (cases "even (length ys)")
    case True
    with F r show ?thesis by (simp add: acc_ok_def)
  next
    case False
    have "rep (unat (SWAP_BYTES_IN_WORD ?F)) (if even (length xs) then 256 * ?N else ?N)"
    proof (cases "even (length xs)")
      case True
      with r have "rep (unat ?F) ?N" by simp
      from rep_trans [OF rep_SWAP [OF F] rep_mult [OF _ this]] True show ?thesis by simp
    next
      case False
      with r have "rep (unat ?F) (256 * ?N)" by simp
      from rep_SWAP_256 [OF F this] False show ?thesis by simp
    qed
    with False SWAP_le show ?thesis by (auto simp: acc_ok_def)
  qed
qed

definition sum_ok :: "u32 \<Rightarrow> nat \<Rightarrow> u8 list \<Rightarrow> bool" where
  "sum_ok acc A xs \<longleftrightarrow> unat acc \<le> 65535 \<and> rep (unat acc) (A + le_sum xs)"

lemma acc_ok_finish:
  "acc_ok acc A xs \<Longrightarrow> sum_ok (if odd (length xs) then SWAP_BYTES_IN_WORD acc else acc) A xs"
  using SWAP_le rep_SWAP_256 by (auto simp: acc_ok_def sum_ok_def)

lemma SWAP_SWAP: "unat acc \<le> 65535 \<Longrightarrow> SWAP_BYTES_IN_WORD (SWAP_BYTES_IN_WORD acc) = acc"
proof -
  have "(ucast (ucast w :: u32) :: u16) = w" for w :: u16
    by (rule bit_word_eqI) (auto simp: bit_simps)
  then have "SWAP_BYTES_IN_WORD (SWAP_BYTES_IN_WORD acc) = ucast (ucast acc :: u16)"
    by (simp only: SWAP_eq htons_invol)
  then show "unat acc \<le> 65535 \<Longrightarrow> ?thesis"
    by (simp add: word_unat_eq_iff unat_ucast_16)
qed

lemma acc_ok_fold_le: "acc_ok acc A xs \<Longrightarrow> unat (FOLD_U32T (acc + ucast (c :: u16))) \<le> 65535"
  using unat_u16_less [of c]
  by (intro FOLD_le) (auto simp: acc_ok_def unat_word_ariths simp del: unat_u16_less)

lemma odd_len_iff: "(x :: u16) mod 2 = 1 \<longleftrightarrow> odd (unat x)"
  by (simp add: word_unat_eq_iff unat_mod odd_iff_mod_2_eq_one)

lemma not_and_ucast: "(ucast (NOT ((acc :: u32) AND 0xffff)) :: u16) = NOT (ucast acc)"
  unfolding mask_consts by (rule bit_word_eqI) (auto simp: bit_simps)

lemma not_ucast: "(ucast (NOT (ucast (c :: u16) :: u32)) :: u16) = NOT c"
  by (rule bit_word_eqI) (auto simp: bit_simps)

lemma unat_lo_hi:
  "unat ((w :: u32) AND 0xffff) = le16 (ucast w) (ucast (drop_bit 8 w))"
  "unat (drop_bit 16 (w :: u32) AND 0xffff) = le16 (ucast (drop_bit 16 w)) (ucast (drop_bit 24 w))"
proof -
  have "w AND 0xffff = ucast ((ucast (ucast w :: u8) :: u16) OR push_bit 8 (ucast (ucast (drop_bit 8 w) :: u8)))"
    unfolding mask_consts by (rule bit_word_eqI) (auto simp: bit_simps)
  then show "unat (w AND 0xffff) = le16 (ucast w) (ucast (drop_bit 8 w))"
    by (simp add: unat_or_push16)
  have "drop_bit 16 w AND 0xffff =
      ucast ((ucast (ucast (drop_bit 16 w) :: u8) :: u16) OR push_bit 8 (ucast (ucast (drop_bit 24 w) :: u8)))"
    unfolding mask_consts by (rule bit_word_eqI) (auto simp: bit_simps)
  then show "unat (drop_bit 16 w AND 0xffff) = le16 (ucast (drop_bit 16 w)) (ucast (drop_bit 24 w))"
    by (simp add: unat_or_push16)
qed

lemma pseudo_addr_sum_spec:
  "unat (pseudo_addr_sum src dest) \<le> 65535 \<and>
   rep (unat (pseudo_addr_sum src dest)) (le_sum (u32_bytes src @ u32_bytes dest))"
proof -
  have b: "unat (w AND 0xffff) \<le> 65535" for w :: u32
    unfolding unat_lo_hi using le16_less [of "ucast w" "ucast (drop_bit 8 w)"] by (simp del: le16_less)
  define acc where "acc = (src AND 0xffff) + (drop_bit 16 src AND 0xffff) + (dest AND 0xffff)
    + (drop_bit 16 dest AND 0xffff)"
  have "unat acc = unat (src AND 0xffff) + unat (drop_bit 16 src AND 0xffff) + unat (dest AND 0xffff)
      + unat (drop_bit 16 dest AND 0xffff)"
    unfolding acc_def using b [of src] b [of "drop_bit 16 src"] b [of dest] b [of "drop_bit 16 dest"]
    by (simp add: unat_word_ariths)
  then have "unat acc = le_sum (u32_bytes src @ u32_bytes dest)"
    by (simp add: u32_bytes_def unat_lo_hi)
  moreover have "pseudo_addr_sum src dest = FOLD_U32T (FOLD_U32T acc)"
    by (simp add: pseudo_addr_sum_def acc_def Let_def)
  ultimately show ?thesis
    using rep_FOLD_FOLD [of acc] FOLD_FOLD_le [of acc] by simp
qed

lemma le_sum_pseudo_header:
  "le_sum (pseudo_header src dest proto proto_len @ xs) =
     le_sum (u32_bytes src @ u32_bytes dest) + le_sum xs +
     unat (lwip_htons (ucast proto)) + unat (lwip_htons proto_len)"
proof -
  have 1: "unat (lwip_htons (ucast proto)) = 256 * unat proto"
  proof -
    have "lwip_htons (ucast proto) = push_bit 8 (ucast proto)"
      unfolding lwip_htons_def mask_consts
      by (rule bit_word_eqI) (auto simp: bit_simps dest: bit_imp_le_length)
    then show ?thesis by (simp add: unat_push8)
  qed
  have "lwip_htons proto_len =
      (ucast (ucast (drop_bit 8 proto_len) :: u8) :: u16) OR push_bit 8 (ucast (ucast proto_len :: u8))"
    unfolding lwip_htons_def mask_consts by (rule bit_word_eqI) (auto simp: bit_simps)
  then have 2: "unat (lwip_htons proto_len) = le16 (ucast (drop_bit 8 proto_len)) (ucast proto_len)"
    by (simp only: unat_or_push16)
  show ?thesis
    by (simp add: pseudo_header_def u32_bytes_def 1 2) (simp add: le16_def)
qed

lemma pseudo_finish:
  assumes "sum_ok (if swapped then SWAP_BYTES_IN_WORD acc else acc) (unat (pseudo_addr_sum src dest)) xs"
  shows "(let acc = (if swapped then SWAP_BYTES_IN_WORD acc else acc);
              acc = acc + ucast (lwip_htons (ucast proto));
              acc = acc + ucast (lwip_htons proto_len);
              acc = FOLD_U32T (FOLD_U32T acc)
          in ret (ucast (NOT (acc AND 0xffff)) :: u16)) =
    ret (NOT (host_sum (pseudo_header src dest proto proto_len @ xs)))"
proof -
  define acc1 where "acc1 = (if swapped then SWAP_BYTES_IN_WORD acc else acc)"
  define acc2 where "acc2 = acc1 + ucast (lwip_htons (ucast proto)) + ucast (lwip_htons proto_len)"
  have acc1: "unat acc1 \<le> 65535" "rep (unat acc1) (unat (pseudo_addr_sum src dest) + le_sum xs)"
    using assms by (simp_all add: acc1_def sum_ok_def)
  have acc2: "unat acc2 = unat acc1 + unat (lwip_htons (ucast proto)) + unat (lwip_htons proto_len)"
    unfolding acc2_def using acc1(1) unat_u16_less [of "lwip_htons (ucast proto)"]
      unat_u16_less [of "lwip_htons proto_len"]
    by (simp add: unat_word_ariths del: unat_u16_less)
  have "rep (unat (FOLD_U32T (FOLD_U32T acc2))) (unat acc2)" by (rule rep_FOLD_FOLD)
  also have "rep (unat acc2) ((unat (pseudo_addr_sum src dest) + le_sum xs) +
      unat (lwip_htons (ucast proto)) + unat (lwip_htons proto_len))"
    unfolding acc2 using acc1(2) by (intro rep_add) simp_all
  also have "rep \<dots> ((le_sum (u32_bytes src @ u32_bytes dest) + le_sum xs) +
      unat (lwip_htons (ucast proto)) + unat (lwip_htons proto_len))"
    using pseudo_addr_sum_spec by (intro rep_add) simp_all
  finally have "ucast (FOLD_U32T (FOLD_U32T acc2)) =
      host_sum (pseudo_header src dest proto proto_len @ xs)"
    unfolding le_sum_pseudo_header [symmetric]
    by (intro host_sum_eqI) (simp add: unat_ucast_16 FOLD_FOLD_le)
  then show ?thesis
    unfolding Let_def not_and_ucast by (simp add: acc1_def [symmetric] acc2_def)
qed

lemma acc_ok_pseudo: "acc_ok (pseudo_addr_sum src dest) (unat (pseudo_addr_sum src dest)) []"
  using pseudo_addr_sum_spec by (simp add: acc_ok_def)

context internet_chksum
begin

lemma chksum_chain_loop_spec:
  assumes "chain (pbufs s) p as" and "readable s as" and "acc_ok acc A xs"
  shows "\<exists>acc'. chksum_chain_loop chk s p (odd (length xs)) acc =
      ret (odd (length (xs @ data s as)), acc') \<and> acc_ok acc' A (xs @ data s as)"
  using assms
proof (induction as arbitrary: p acc xs)
  case Nil
  then show ?case by (subst chksum_chain_loop.simps) simp
next
  case (Cons a as)
  then obtain b where p: "p = Some a" and b: "pbufs s a = Some b" and ch: "chain (pbufs s) (pnext b) as"
    by auto
  have c: "chk (memory s) (payload b) (uint (len b)) = ret (host_sum (seg s a))"
    using Cons.prems(2) b chk_eq [of "memory s" "payload b" "unat (len b)"] unat_u16_less [of "len b"]
    by (auto simp: seg_def simp del: unat_u16_less)
  have l: "length (seg s a) = unat (len b)" by (simp add: b)
  have rd: "readable s as" using Cons.prems(2) by simp
  let ?acc = "if odd (length (seg s a)) then SWAP_BYTES_IN_WORD (FOLD_U32T (acc + ucast (host_sum (seg s a))))
    else FOLD_U32T (acc + ucast (host_sum (seg s a)))"
  have "chksum_chain_loop chk s p (odd (length xs)) acc =
      chksum_chain_loop chk s (pnext b) (odd (length (xs @ seg s a))) ?acc"
    by (subst chksum_chain_loop.simps) (auto simp: p b c l odd_len_iff Let_def)
  moreover obtain acc' where "chksum_chain_loop chk s (pnext b) (odd (length (xs @ seg s a))) ?acc =
      ret (odd (length ((xs @ seg s a) @ data s as)), acc') \<and> acc_ok acc' A ((xs @ seg s a) @ data s as)"
    using Cons.IH [OF ch rd acc_ok_step [OF Cons.prems(3), of "seg s a"]] by blast
  ultimately show ?case by auto
qed

lemma inet_chksum_eq:
  assumes "mapped m a (unat n)"
  shows "inet_chksum chk m a n = ret (NOT (host_sum (bytes_at m a (unat n))))"
  using chk_eq [OF assms] unat_u16_less [of n]
  by (simp add: inet_chksum_def not_ucast del: unat_u16_less)

lemma inet_chksum_pbuf_eq:
  assumes "chain (pbufs s) p as" and "readable s as"
  shows "inet_chksum_pbuf chk s p = ret (NOT (host_sum (data s as)))"
proof -
  have "acc_ok 0 0 []" by (simp add: acc_ok_def)
  from chksum_chain_loop_spec [OF assms this] obtain acc where
    loop: "chksum_chain_loop chk s p False 0 = ret (odd (length (data s as)), acc)"
    and acc: "acc_ok acc 0 (data s as)" by auto
  let ?acc = "if odd (length (data s as)) then SWAP_BYTES_IN_WORD acc else acc"
  have "ucast ?acc = host_sum (data s as)"
    using acc_ok_finish [OF acc] by (intro host_sum_eqI) (simp add: sum_ok_def unat_ucast_16)
  then show ?thesis
    unfolding inet_chksum_pbuf_def loop bindR_simps prod.case Let_def not_and_ucast by simp
qed

lemma inet_chksum_pseudo_eq:
  assumes "chain (pbufs s) p as" and "readable s as"
  shows "inet_chksum_pseudo chk s p proto proto_len src dest =
    ret (NOT (host_sum (pseudo_header src dest proto proto_len @ data s as)))"
proof -
  from chksum_chain_loop_spec [OF assms acc_ok_pseudo] obtain acc where
    loop: "chksum_chain_loop chk s p False (pseudo_addr_sum src dest) = ret (odd (length (data s as)), acc)"
    and acc: "acc_ok acc (unat (pseudo_addr_sum src dest)) (data s as)" by auto
  show ?thesis
    unfolding inet_chksum_pseudo_def inet_cksum_pseudo_base_def loop bindR_simps prod.case
    by (rule pseudo_finish [OF acc_ok_finish [OF acc]])
qed

lemma chksum_partial_loop_spec:
  assumes "chain (pbufs s) p as" and "readable s as" and "acc_ok acc A xs" and "n < 0x7fff"
  shows "\<exists>swapped acc'. chksum_partial_loop chk s p n (odd (length xs)) acc = ret (swapped, acc') \<and>
    sum_ok (if swapped then SWAP_BYTES_IN_WORD acc' else acc') A (xs @ take (unat n) (data s as))"
  using assms
proof (induction as arbitrary: p n acc xs)
  case Nil
  then show ?case using acc_ok_finish by (subst chksum_partial_loop.simps) force
next
  case (Cons a as)
  then obtain b where p: "p = Some a" and b: "pbufs s a = Some b" and ch: "chain (pbufs s) (pnext b) as"
    by auto
  have rd: "readable s as" and mp: "mapped (memory s) (payload b) (unat (len b))"
    using Cons.prems(2) b by auto
  have l: "length (seg s a) = unat (len b)" by (simp add: b)
  show ?case
  proof (cases "n = 0")
    case True
    with acc_ok_finish [OF Cons.prems(3)] show ?thesis
      by (subst chksum_partial_loop.simps) (auto simp: p)
  next
    case False
    then have n0: "0 < n" by (simp add: word_neq_0_conv)
    show ?thesis
    proof (cases "n < len b")
      case True
      then have nb: "unat n \<le> unat (len b)" by (simp add: word_less_nat_alt)
      define ys where "ys = take (unat n) (seg s a)"
      have ys: "ys = bytes_at (memory s) (payload b) (unat n)" "length ys = unat n"
        using nb by (simp_all add: ys_def seg_def b take_bytes_at)
      have c: "chk (memory s) (payload b) (uint n) = ret (host_sum ys)"
        using mapped_mono [OF mp, of 0 "unat n"] nb unat_u16_less [of n] ys
          chk_eq [of "memory s" "payload b" "unat n"] by (simp del: unat_u16_less)
      let ?F = "FOLD_U32T (acc + ucast (host_sum ys))"
      have F: "unat ?F \<le> 65535" using Cons.prems(3) by (rule acc_ok_fold_le)
      have stop: "chksum_partial_loop chk s q 0 sw x = ret (sw, x)" for q sw x
        by (subst chksum_partial_loop.simps) simp
      have "chksum_partial_loop chk s p n (odd (length xs)) acc =
          ret (if odd (unat (len b)) then (even (length xs), SWAP_BYTES_IN_WORD ?F) else (odd (length xs), ?F))"
        using n0 True by (subst chksum_partial_loop.simps)
          (simp add: p b c stop Let_def odd_len_iff)
      moreover have "sum_ok (if odd (length xs) then SWAP_BYTES_IN_WORD ?F else ?F) A (xs @ ys)"
        using acc_ok_finish [OF acc_ok_step [OF Cons.prems(3), of ys]] SWAP_SWAP [OF F]
        by (auto split: if_splits)
      moreover have "take (unat n) (data s (a # as)) = ys" using nb by (simp add: ys_def b)
      ultimately show ?thesis using SWAP_SWAP [OF F] by (auto split: if_splits)
    next
      case False
      then have nb: "unat (len b) \<le> unat n" by (simp add: word_less_nat_alt)
      have c: "chk (memory s) (payload b) (uint (len b)) = ret (host_sum (seg s a))"
        using mp b chk_eq [of "memory s" "payload b" "unat (len b)"] unat_u16_less [of "len b"]
        by (auto simp: seg_def simp del: unat_u16_less)
      have n: "unat (n - len b) = unat n - unat (len b)"
        using nb by (intro unat_sub) (simp add: word_le_nat_alt)
      with Cons.prems(4) have lt: "n - len b < 0x7fff" by (simp add: word_less_nat_alt)
      let ?acc = "if odd (length (seg s a)) then SWAP_BYTES_IN_WORD (FOLD_U32T (acc + ucast (host_sum (seg s a))))
        else FOLD_U32T (acc + ucast (host_sum (seg s a)))"
      have "chksum_partial_loop chk s p n (odd (length xs)) acc =
          chksum_partial_loop chk s (pnext b) (n - len b) (odd (length (xs @ seg s a))) ?acc"
        using n0 False lt by (subst chksum_partial_loop.simps)
          (auto simp: p b c l odd_len_iff Let_def)
      moreover obtain sw acc' where
        "chksum_partial_loop chk s (pnext b) (n - len b) (odd (length (xs @ seg s a))) ?acc = ret (sw, acc')"
        "sum_ok (if sw then SWAP_BYTES_IN_WORD acc' else acc') A
           ((xs @ seg s a) @ take (unat (n - len b)) (data s as))"
        using Cons.IH [OF ch rd acc_ok_step [OF Cons.prems(3), of "seg s a"] lt] by blast
      ultimately show ?thesis using nb by (auto simp: n b)
    qed
  qed
qed

lemma inet_chksum_pseudo_partial_eq:
  assumes "chain (pbufs s) p as" and "readable s as" and "n < 0x7fff"
  shows "inet_chksum_pseudo_partial chk s p proto proto_len n src dest =
    ret (NOT (host_sum (pseudo_header src dest proto proto_len @ take (unat n) (data s as))))"
proof -
  from chksum_partial_loop_spec [OF assms(1,2) acc_ok_pseudo [of src dest] assms(3)] obtain sw acc where
    loop: "chksum_partial_loop chk s p n False (pseudo_addr_sum src dest) = ret (sw, acc)"
    and acc: "sum_ok (if sw then SWAP_BYTES_IN_WORD acc else acc) (unat (pseudo_addr_sum src dest))
      (take (unat n) (data s as))" by auto
  show ?thesis
    unfolding inet_chksum_pseudo_partial_def inet_cksum_pseudo_partial_base_def loop bindR_simps prod.case
    by (rule pseudo_finish [OF acc])
qed

lemma inet_chksum_pseudo_partial_assert:
  assumes "pbufs s a = Some b" and "mapped (memory s) (payload b) (unat (len b))"
    and "unat (len b) + 0x7fff \<le> unat n"
  shows "inet_chksum_pseudo_partial chk s (Some a) proto proto_len n src dest = fault Assertion"
proof -
  have c: "chk (memory s) (payload b) (uint (len b)) = ret (host_sum (seg s a))"
    using assms(1,2) chk_eq [of "memory s" "payload b" "unat (len b)"] unat_u16_less [of "len b"]
    by (auto simp: seg_def simp del: unat_u16_less)
  have "\<not> n < len b" "0 < n" using assms(3) by (auto simp: word_less_nat_alt)
  moreover have "unat (n - len b) = unat n - unat (len b)"
    using assms(3) by (intro unat_sub) (simp add: word_le_nat_alt)
  with assms(3) have "\<not> n - len b < 0x7fff" by (simp add: word_less_nat_alt)
  ultimately have "chksum_partial_loop chk s (Some a) n False acc = fault Assertion" for acc
    by (subst chksum_partial_loop.simps) (simp add: assms(1) c)
  then show ?thesis
    by (simp add: inet_chksum_pseudo_partial_def inet_cksum_pseudo_partial_base_def)
qed

end

interpretation chksum_1: internet_chksum lwip_standard_chksum_1
  by unfold_locales (rule lwip_standard_chksum_1_eq)

interpretation chksum_2: internet_chksum lwip_standard_chksum_2
  by unfold_locales (simp add: lwip_standard_chksum_2_eq)

interpretation chksum_3: internet_chksum lwip_standard_chksum_3
  by unfold_locales (rule lwip_standard_chksum_3_eq)

end
