(* ===== verification/Inet_Chksum_Props.thy ===== *)
theory Inet_Chksum_Props
  imports Inet_Chksum Pbuf_Props
begin

text \<open>
  The properties of the checksums: agreement of the three versions with the one's complement sum,
  verification of a stored checksum, the pseudo header, and the limit of the partial sums.
\<close>

section \<open>Properties\<close>

lemma unat_NOT: "unat (NOT (c :: u16)) = 65535 - unat c"
proof -
  have "NOT c = - 1 - c" by (simp add: not_eq_complement)
  then have "unat (NOT c) = unat (- 1 - c)" by simp
  also have "\<dots> = unat (- 1 :: u16) - unat c" by (intro unat_sub) simp
  finally show ?thesis by (simp add: unsigned_minus_1_eq_mask mask_eq_exp_minus_1)
qed

lemma le_sum_u16: "le_sum [ucast c, ucast (drop_bit 8 c)] = unat (c :: u16)"
proof -
  have "c = (ucast (ucast c :: u8) :: u16) OR push_bit 8 (ucast (ucast (drop_bit 8 c) :: u8))"
    by (rule bit_word_eqI) (auto simp: bit_simps)
  then show ?thesis using unat_or_push16 by (metis add_0_right le_sum.simps(1,3))
qed

lemma host_sum_complement:
  assumes "even (length xs)" and "c = NOT (host_sum (xs @ [0, 0] @ ys))"
  shows "host_sum (xs @ [ucast c, ucast (drop_bit 8 c)] @ ys) = 0xffff"
proof (rule host_sum_eqI [symmetric])
  let ?h = "host_sum (xs @ [0, 0] @ ys)"
  have "le_sum (xs @ [0, 0] @ ys) = le_sum xs + le_sum ys"
    using assms(1) by (simp add: le_sum_append le16_def)
  then have "rep (unat ?h) (le_sum xs + le_sum ys)" by (metis rep_host_sum)
  moreover have "unat c = 65535 - unat ?h" unfolding assms(2) by (rule unat_NOT)
  ultimately have "rep (unat ?h + (65535 - unat ?h)) (le_sum xs + le_sum ys + unat c)"
    by (intro rep_add) simp_all
  moreover have "unat ?h \<le> 65535" using unat_u16_less [of ?h] by linarith
  moreover have "le_sum (xs @ [ucast c, ucast (drop_bit 8 c)] @ ys) = le_sum xs + le_sum ys + unat c"
    using assms(1) le_sum_append [of "[ucast c, ucast (drop_bit 8 c)]" ys]
    by (simp add: le_sum_append le_sum_u16 [simplified])
  ultimately show "rep (unat (0xffff :: u16)) (le_sum (xs @ [ucast c, ucast (drop_bit 8 c)] @ ys))"
    by simp
qed

text \<open>
  C14: the three versions of \<open>lwip_standard_chksum\<close> in the file agree on every readable buffer of
  at most 65535 bytes, at every alignment of its address, and all return the one's complement sum
  of its 16-bit big-endian words (RFC 1071), in host byte order; none reads outside the buffer.
\<close>

theorem chksum_versions_agree:
  assumes "mapped m a n" and "n \<le> 65535"
  shows "lwip_standard_chksum_3 m a (int n) = ret (lwip_htons (of_nat (inet_sum (bytes_at m a n)))) \<and>
    lwip_standard_chksum_2 m a (int n) = lwip_standard_chksum_3 m a (int n) \<and>
    lwip_standard_chksum_1 m a (int n) = lwip_standard_chksum_3 m a (int n)"
  using assms
  by (simp_all add: lwip_standard_chksum_1_eq lwip_standard_chksum_2_eq lwip_standard_chksum_3_eq
      host_sum_def)

theorem chksum_versions_agree_witness:
  "lwip_standard_chksum_3 (memory ex_state) 2001 (int 11) =
     ret (lwip_htons (of_nat (inet_sum (bytes_at (memory ex_state) 2001 11)))) \<and>
   inet_sum (bytes_at (memory ex_state) 2001 11) = 2099"
proof -
  have "mapped (memory ex_state) 2001 11" by (simp add: mapped_def)
  from chksum_versions_agree [OF this] show ?thesis
    by (simp add: inet_sum_def bytes_at_def oc_add_def upt_rec)
qed

text \<open>
  C15: verification of a checksum. Let the payload of a chain of pbufs have a 16-bit field at an even
  offset that is zero, and let \<open>inet_chksum_pbuf\<close> return \<open>c\<close> for it. When \<open>c\<close> is stored in the
  field, the checksum of the chain is 0, however the bytes are distributed over the pbufs.
\<close>

theorem inet_chksum_pbuf_verifies:
  assumes "chain (pbufs s) p as" and "readable s as" and "data s as = xs @ [0, 0] @ ys"
    and "even (length xs)" and "inet_chksum_pbuf lwip_standard_chksum_3 s p = ret c"
    and "chain (pbufs s') p' bs" and "readable s' bs"
    and "data s' bs = xs @ [ucast c, ucast (drop_bit 8 c)] @ ys"
  shows "inet_chksum_pbuf lwip_standard_chksum_3 s' p' = ret 0"
proof -
  have "c = NOT (host_sum (xs @ [0, 0] @ ys))"
    using chksum_3.inet_chksum_pbuf_eq [OF assms(1,2)] assms(3,5) by simp
  from host_sum_complement [OF assms(4) this] show ?thesis
    using chksum_3.inet_chksum_pbuf_eq [OF assms(6,7)] by (simp add: assms(8))
qed

definition zeroed_state :: pstate where
  "zeroed_state = ex_state\<lparr>memory := (memory ex_state)(2002 \<mapsto> 0, 2100 \<mapsto> 0)\<rparr>"

theorem inet_chksum_pbuf_verifies_witness:
  "\<exists>c. inet_chksum_pbuf lwip_standard_chksum_3 zeroed_state (Some 1000) = ret c \<and>
     inet_chksum_pbuf lwip_standard_chksum_3
       (ex_state\<lparr>memory := (memory ex_state)(2002 \<mapsto> ucast c, 2100 \<mapsto> ucast (drop_bit 8 c))\<rparr>)
       (Some 1000) = ret 0"
proof -
  have mp: "chain (pbufs s) (Some 1000) [1000, 1100]" "readable s [1000, 1100]"
    "data s [1000, 1100] = [0xd0, 0xd1] @ [x, y] @ [0x35]"
    if "s = ex_state\<lparr>memory := (memory ex_state)(2002 \<mapsto> x, 2100 \<mapsto> y)\<rparr>" for s x y
    by (simp_all add: that mapped_def seg_def bytes_at_def fun_upd_apply upt_rec)
  note z = mp [OF zeroed_state_def]
  define c where "c = NOT (host_sum ([0xd0, 0xd1] @ [0, 0] @ [0x35]))"
  have c: "inet_chksum_pbuf lwip_standard_chksum_3 zeroed_state (Some 1000) = ret c"
    using chksum_3.inet_chksum_pbuf_eq [OF z(1,2)] unfolding z(3) c_def .
  note f = mp [OF refl, of "ucast c" "ucast (drop_bit 8 c)"]
  have e: "even (length [0xd0, 0xd1 :: u8])" by simp
  from inet_chksum_pbuf_verifies [OF z e c f] c show ?thesis by blast
qed

lemma ex_pseudo_header:
  "pseudo_header 0x0100007f 0x0100007f 17 5 = [127, 0, 0, 1, 127, 0, 0, 1, 0, 17, 0, 5]"
  by code_simp

text \<open>
  C16: \<open>inet_chksum_pseudo\<close>, the checksum of TCP and UDP, is the complement of the one's complement
  sum of the 12 bytes of the pseudo header (source, destination, 0, protocol, length) followed
  by the payload of the chain.
\<close>

theorem inet_chksum_pseudo_spec:
  assumes "chain (pbufs s) p as" and "readable s as"
  shows "ip_chksum_pseudo lwip_standard_chksum_3 s p proto proto_len src dest =
    ret (NOT (lwip_htons (of_nat (inet_sum (pseudo_header src dest proto proto_len @ data s as)))))"
  using chksum_3.inet_chksum_pseudo_eq [OF assms] by (simp add: ip_chksum_pseudo_def host_sum_def)

theorem inet_chksum_pseudo_spec_witness:
  "ip_chksum_pseudo lwip_standard_chksum_3 ex_state (Some 1000) 17 5 0x0100007f 0x0100007f =
     ret (NOT (lwip_htons (of_nat (inet_sum ([127, 0, 0, 1, 127, 0, 0, 1, 0, 17, 0, 5] @
       data ex_state [1000, 1100])))))"
  using inet_chksum_pseudo_spec [OF ex_chain(1) ex_readable(1), where proto = 17 and proto_len = 5
    and src = "0x0100007f" and dest = "0x0100007f"]
  by (simp only: ex_pseudo_header)

text \<open>
  C27: the partial sum of UDP-Lite covers the first \<open>chksum_len\<close> bytes of the payload when
  \<open>chksum_len\<close> is below 0x7fff. For a larger \<open>chksum_len\<close>, valid by its documentation, the left-over
  assertion stops the system as soon as 0x7fff bytes or more remain after the first pbuf.
\<close>

theorem chksum_partial_limit:
  assumes "chain (pbufs s) (Some a) (a # as)" and "readable s (a # as)"
  shows "(n < 0x7fff \<longrightarrow>
      ip_chksum_pseudo_partial lwip_standard_chksum_3 s (Some a) proto proto_len n src dest =
      ret (NOT (lwip_htons (of_nat (inet_sum
        (pseudo_header src dest proto proto_len @ take (unat n) (data s (a # as)))))))) \<and>
    (unat (len (the (pbufs s a))) + 0x7fff \<le> unat n \<longrightarrow>
      ip_chksum_pseudo_partial lwip_standard_chksum_3 s (Some a) proto proto_len n src dest =
      fault Assertion)"
  using chksum_3.inet_chksum_pseudo_partial_eq [OF assms]
    chksum_3.inet_chksum_pseudo_partial_assert [of s a] assms
  by (auto simp: ip_chksum_pseudo_partial_def host_sum_def)

theorem chksum_partial_limit_witness:
  "ip_chksum_pseudo_partial lwip_standard_chksum_3 ex_state (Some 1000) 136 4 4 1 2 =
      ret (NOT (lwip_htons (of_nat (inet_sum (pseudo_header 1 2 136 4 @ [2000, 2001, 2002, 2100]))))) \<and>
   ip_chksum_pseudo_partial lwip_standard_chksum_3 ex_state (Some 1000) 136 4 0x8003 1 2 =
      fault Assertion"
  using chksum_partial_limit [OF ex_chain(1) ex_readable(1), where n = 4 and proto = 136 and
    proto_len = 4 and src = 1 and dest = 2]
    chksum_partial_limit [OF ex_chain(1) ex_readable(1), where n = "0x8003" and
    proto = 136 and proto_len = 4 and src = 1 and dest = 2]
  by (simp add: seg_def bytes_at_def upt_rec)

end
