(* ===== verification/Netif_Types.thy ===== *)
theory Netif_Types
  imports Lwip_Prelude
begin

text \<open>
  \<open>struct netif\<close> of \<open>lwip/netif.h\<close> with the members that are compiled in, and the flags.
  Function pointers are numbers; the list \<open>netif_list\<close> is a list, so there is no \<open>next\<close>.
\<close>

record netif =
  ip_addr :: u32
  netmask :: u32
  gw :: u32
  nif_input :: nat
  nif_output :: nat
  linkoutput :: nat
  nif_state :: nat
  client_data :: "nat option"
  mtu :: u16
  hwaddr :: "u8 list"
  hwaddr_len :: u8
  nif_flags :: u8
  nif_name :: "u8 \<times> u8"
  nif_num :: u8
  acd_list :: "nat option"

abbreviation (input) NETIF_FLAG_UP :: u8 where "NETIF_FLAG_UP \<equiv> 0x01"
abbreviation (input) NETIF_FLAG_BROADCAST :: u8 where "NETIF_FLAG_BROADCAST \<equiv> 0x02"
abbreviation (input) NETIF_FLAG_LINK_UP :: u8 where "NETIF_FLAG_LINK_UP \<equiv> 0x04"
abbreviation (input) NETIF_FLAG_ETHARP :: u8 where "NETIF_FLAG_ETHARP \<equiv> 0x08"
abbreviation (input) NETIF_FLAG_ETHERNET :: u8 where "NETIF_FLAG_ETHERNET \<equiv> 0x10"
abbreviation (input) NETIF_FLAG_IGMP :: u8 where "NETIF_FLAG_IGMP \<equiv> 0x20"

end
