(* ===== verification/Ip4_Addr.thy ===== *)
theory Ip4_Addr
  imports Lwip_Def Netif_Types
begin

text \<open>
  IPv4 addresses: \<open>core/ipv4/ip4_addr.c\<close> and the macros of \<open>lwip/ip4_addr.h\<close> it uses. An
  \<open>ip4_addr_t\<close> is its \<open>u32_t\<close> in network byte order. Strings are lists of bytes as in
  \<open>Lwip_Def\<close>; \<open>ip4addr_aton\<close> returns the address it would store, or \<open>None\<close> for 0.
\<close>

abbreviation (input) IPADDR_NONE :: u32 where "IPADDR_NONE \<equiv> 0xffffffff"
abbreviation (input) IPADDR_ANY :: u32 where "IPADDR_ANY \<equiv> 0"
abbreviation (input) IPADDR_BROADCAST :: u32 where "IPADDR_BROADCAST \<equiv> 0xffffffff"

section \<open>Macros\<close>

definition ip4_addr_net_eq :: "u32 \<Rightarrow> u32 \<Rightarrow> u32 \<Rightarrow> bool" where
  "ip4_addr_net_eq addr1 addr2 mask' \<longleftrightarrow> addr1 AND mask' = addr2 AND mask'"

definition ip4_addr_isany_val :: "u32 \<Rightarrow> bool" where
  "ip4_addr_isany_val a \<longleftrightarrow> a = IPADDR_ANY"

definition ip4_addr_ismulticast :: "u32 \<Rightarrow> bool" where
  "ip4_addr_ismulticast a \<longleftrightarrow> a AND lwip_htonl 0xf0000000 = lwip_htonl 0xe0000000"

definition ip4_addr_islinklocal :: "u32 \<Rightarrow> bool" where
  "ip4_addr_islinklocal a \<longleftrightarrow> a AND lwip_htonl 0xffff0000 = lwip_htonl 0xa9fe0000"

definition ip4_addr_isloopback :: "u32 \<Rightarrow> bool" where
  "ip4_addr_isloopback a \<longleftrightarrow> a AND lwip_htonl 0xff000000 = lwip_htonl (push_bit 24 127)"

text \<open>The character classes of \<open>lwip/arch.h\<close> for \<open>LWIP_NO_CTYPE_H = 1\<close>.\<close>

definition lwip_in_range :: "u8 \<Rightarrow> u8 \<Rightarrow> u8 \<Rightarrow> bool" where
  "lwip_in_range c lo up \<longleftrightarrow> c \<ge> lo \<and> c \<le> up"

definition lwip_isdigit :: "u8 \<Rightarrow> bool" where
  "lwip_isdigit c = lwip_in_range c 48 57"

definition lwip_isxdigit :: "u8 \<Rightarrow> bool" where
  "lwip_isxdigit c \<longleftrightarrow> lwip_isdigit c \<or> lwip_in_range c 97 102 \<or> lwip_in_range c 65 70"

definition lwip_islower :: "u8 \<Rightarrow> bool" where
  "lwip_islower c = lwip_in_range c 97 122"

definition lwip_isspace :: "u8 \<Rightarrow> bool" where
  "lwip_isspace c \<longleftrightarrow> c = 32 \<or> c = 12 \<or> c = 10 \<or> c = 13 \<or> c = 9 \<or> c = 11"

section \<open>Addresses and masks\<close>

definition ip4_addr_isbroadcast_u32 :: "u32 \<Rightarrow> netif \<Rightarrow> bool" where
  "ip4_addr_isbroadcast_u32 addr nif =
     (if NOT addr = IPADDR_ANY \<or> addr = IPADDR_ANY then True
      else if nif_flags nif AND NETIF_FLAG_BROADCAST = 0 then False
      else if addr = ip_addr nif then False
      else if ip4_addr_net_eq addr (ip_addr nif) (netmask nif) \<and>
              addr AND NOT (netmask nif) = IPADDR_BROADCAST AND NOT (netmask nif) then True
      else False)"

text \<open>The two loops over \<open>mask\<close>, which goes from the highest bit to 0.\<close>

function first_zero_loop :: "u32 \<Rightarrow> u32 \<Rightarrow> u32" where
  "first_zero_loop nm_hostorder m =
     (if m \<noteq> 0 then
        if nm_hostorder AND m = 0 then m else first_zero_loop nm_hostorder (drop_bit 1 m)
      else m)"
  by pat_completeness auto
termination
  by (relation "measure (\<lambda>(_, m). unat m)")
    (auto simp: drop_bit_eq_div unat_div unat_gt_0 intro!: div_less_dividend)

function no_one_loop :: "u32 \<Rightarrow> u32 \<Rightarrow> bool" where
  "no_one_loop nm_hostorder m =
     (if m \<noteq> 0 then
        if nm_hostorder AND m \<noteq> 0 then False else no_one_loop nm_hostorder (drop_bit 1 m)
      else True)"
  by pat_completeness auto
termination
  by (relation "measure (\<lambda>(_, m). unat m)")
    (auto simp: drop_bit_eq_div unat_div unat_gt_0 intro!: div_less_dividend)

definition ip4_addr_netmask_valid :: "u32 \<Rightarrow> bool" where
  "ip4_addr_netmask_valid nm =
     (let nm_hostorder = lwip_htonl nm
      in no_one_loop nm_hostorder (first_zero_loop nm_hostorder (push_bit 31 1)))"

section \<open>Text to address\<close>

text \<open>
  The inner loop of \<open>ip4addr_aton\<close>, which collects one number; \<open>cp\<close> starts at the character
  \<open>c\<close> of the source.
\<close>

fun aton_number :: "u8 list \<Rightarrow> u32 \<Rightarrow> u32 \<Rightarrow> u32 \<times> u8 list" where
  "aton_number [] bas val = (val, [])"
| "aton_number (c # cp) bas val =
     (if lwip_isdigit c then
        if bas = 8 \<and> (ucast (c - 48) :: u32) \<ge> 8 then (val, c # cp)
        else aton_number cp bas (val * bas + ucast (c - 48))
      else if bas = 16 \<and> lwip_isxdigit c then
        aton_number cp bas (push_bit 4 val OR ucast (c + 10 - (if lwip_islower c then 97 else 65)))
      else (val, c # cp))"

definition aton_base :: "u8 list \<Rightarrow> u32 \<times> u8 list" where
  "aton_base cp =
     (if chd cp = 48 then
        let cp = tl cp in
        if chd cp = 120 \<or> chd cp = 88 then (16, tl cp) else (8, cp)
      else (10, cp))"

function aton_loop :: "u8 list \<Rightarrow> u32 list \<Rightarrow> (u32 list \<times> u32 \<times> u8 list) option" where
  "aton_loop cp parts =
     (if \<not> lwip_isdigit (chd cp) then None
      else let (bas, cp) = aton_base cp;
               (val, cp) = aton_number cp bas 0
      in if chd cp = 46 then
           if length parts \<ge> 3 then None else aton_loop (tl cp) (parts @ [val])
         else Some (parts, val, cp))"
  by pat_completeness auto
termination by (relation "measure (\<lambda>(_, parts). 4 - length parts)") auto

definition ip4addr_aton :: "u8 list \<Rightarrow> u32 option" where
  "ip4addr_aton cp =
     (case aton_loop cp [] of
        None \<Rightarrow> None
      | Some (parts, val, cp) \<Rightarrow>
          if chd cp \<noteq> 0 \<and> \<not> lwip_isspace (chd cp) then None
          else (case parts of
              [] \<Rightarrow> Some (lwip_htonl val)
            | [p0] \<Rightarrow>
                if val > 0xffffff then None else if p0 > 0xff then None
                else Some (lwip_htonl (val OR push_bit 24 p0))
            | [p0, p1] \<Rightarrow>
                if val > 0xffff then None else if p0 > 0xff \<or> p1 > 0xff then None
                else Some (lwip_htonl (val OR (push_bit 24 p0 OR push_bit 16 p1)))
            | [p0, p1, p2] \<Rightarrow>
                if val > 0xff then None else if p0 > 0xff \<or> p1 > 0xff \<or> p2 > 0xff then None
                else Some (lwip_htonl (val OR (push_bit 24 p0 OR push_bit 16 p1 OR push_bit 8 p2)))
            | _ \<Rightarrow> None))"

definition ipaddr_addr :: "u8 list \<Rightarrow> u32" where
  "ipaddr_addr cp = (case ip4addr_aton cp of Some v \<Rightarrow> v | None \<Rightarrow> IPADDR_NONE)"

section \<open>Address to text\<close>

text \<open>
  \<open>ip4addr_ntoa_r\<close>: the digits of an octet in reverse order in the three bytes of \<open>inv\<close>, then
  copied to the buffer with the counter \<open>len\<close>; \<open>None\<close> in the result is \<open>NULL\<close>.
\<close>

function ntoa_digits :: "u8 \<Rightarrow> u8 list \<Rightarrow> nat \<Rightarrow> (u8 list \<times> nat) res" where
  "ntoa_digits ap invs i =
     bindR (store invs i (48 + ap mod 10)) (\<lambda>invs.
     if ap div 10 \<noteq> 0 then ntoa_digits (ap div 10) invs (i + 1) else ret (invs, i + 1))"
  by pat_completeness auto
termination
proof (relation "measure (\<lambda>(ap, _, _). unat ap)")
  fix ap :: u8 and invs :: "u8 list" and i
  assume "ap div 10 \<noteq> 0"
  then have "ap \<noteq> 0" by auto
  then have "0 < unat ap" by (simp add: unat_gt_0)
  then have "unat (ap div 10) < unat ap" by (simp add: unat_div)
  then show "((ap div 10, invs, i + 1), ap, invs', i) \<in> measure (\<lambda>(ap, _, _). unat ap)" for invs'
    by simp
qed simp

fun ntoa_copy :: "u8 list \<Rightarrow> nat \<Rightarrow> u8 list \<Rightarrow> nat \<Rightarrow> int \<Rightarrow> int \<Rightarrow>
    (u8 list \<times> (nat \<times> int) option) res" where
  "ntoa_copy invs 0 buf rp n buflen = ret (buf, Some (rp, n))"
| "ntoa_copy invs (Suc i) buf rp n buflen =
     (if n \<ge> buflen then ret (buf, None)
      else bindR (store buf rp (invs ! i)) (\<lambda>buf. ntoa_copy invs i buf (rp + 1) (n + 1) buflen))"

fun ntoa_octets :: "u8 list \<Rightarrow> u8 list \<Rightarrow> nat \<Rightarrow> int \<Rightarrow> int \<Rightarrow> (u8 list \<times> nat option) res" where
  "ntoa_octets [] buf rp n buflen = ret (buf, Some rp)"
| "ntoa_octets (ap # aps) buf rp n buflen =
     bindR (ntoa_digits ap [0, 0, 0] 0) (\<lambda>(invs, i).
     bindR (ntoa_copy invs i buf rp n buflen) (\<lambda>(buf, r).
     case r of
       None \<Rightarrow> ret (buf, None)
     | Some (rp, n) \<Rightarrow>
         if n \<ge> buflen then ret (buf, None)
         else bindR (store buf rp 46) (\<lambda>buf. ntoa_octets aps buf (rp + 1) (n + 1) buflen)))"

definition ip4_octets :: "u32 \<Rightarrow> u8 list" where
  "ip4_octets a = [ucast a, ucast (drop_bit 8 a), ucast (drop_bit 16 a), ucast (drop_bit 24 a)]"

definition ip4addr_ntoa_r :: "u32 \<Rightarrow> u8 list \<Rightarrow> int \<Rightarrow> (u8 list \<times> bool) res" where
  "ip4addr_ntoa_r a buf buflen =
     bindR (ntoa_octets (ip4_octets a) buf 0 0 buflen) (\<lambda>(buf, r).
     case r of
       None \<Rightarrow> ret (buf, False)
     | Some rp \<Rightarrow> bindR (store buf (rp - 1) 0) (\<lambda>buf. ret (buf, True)))"

definition ip4addr_ntoa :: "u32 \<Rightarrow> u8 list \<Rightarrow> (u8 list \<times> bool) res" where
  "ip4addr_ntoa a str = ip4addr_ntoa_r a str 16"

declare first_zero_loop.simps [simp del] no_one_loop.simps [simp del] aton_loop.simps [simp del]
  ntoa_digits.simps [simp del]

section \<open>Decimal text\<close>

definition dec :: "nat \<Rightarrow> u8 list" where
  "dec n = (if n = 0 then [48] else digits0 n)"

definition dotted :: "u8 list \<Rightarrow> u8 list" where
  "dotted aps = concat (map (\<lambda>a. dec (unat a) @ [46]) aps)"

lemma dec_nonempty [simp]: "dec n \<noteq> []"
  by (simp add: dec_def digits0_pos)

lemma dec_div: "n div 10 \<noteq> 0 \<Longrightarrow> dec n = dec (n div 10) @ [48 + of_nat (n mod 10)]"
  by (cases "n = 0") (auto simp: dec_def digits0_pos [of n])

lemma dec_small: "n div 10 = 0 \<Longrightarrow> dec n = [48 + of_nat (n mod 10)]"
  by (cases "n = 0") (auto simp: dec_def digits0_pos [of n])

lemma dec_nonzero: "0 \<notin> set (dec n)"
  by (simp add: dec_def digits0_nonzero)

lemma unat_digit: "unat (48 + of_nat (k mod 10) :: u8) = 48 + k mod 10"
  by (simp add: unat_word_ariths unat_of_nat)

lemma digit_isdigit: "lwip_isdigit (48 + of_nat (k mod 10))"
  by (simp add: lwip_isdigit_def lwip_in_range_def word_le_nat_alt unat_digit)

lemma ucast_digit: "(ucast (of_nat (k mod 10) :: u8) :: u32) = of_nat (k mod 10)"
proof -
  have "k mod 10 < 256" by (simp add: less_trans [of _ 10])
  then show ?thesis by (simp add: word_unat_eq_iff unat_of_nat unsigned_ucast_eq take_bit_nat_eq_self_iff)
qed

lemma aton_number_append:
  "aton_number (digits0 n @ cp) 10 val = aton_number cp 10 (val * 10 ^ length (digits0 n) + of_nat n)"
proof (induction n arbitrary: val cp rule: digits0.induct)
  case (1 n)
  show ?case
  proof (cases "n = 0")
    case False
    have e: "(of_nat n :: u32) = of_nat (n div 10) * 10 + of_nat (n mod 10)"
      by (metis div_mult_mod_eq of_nat_add of_nat_mult of_nat_numeral)
    have "aton_number (digits0 n @ cp) 10 val =
        aton_number ((48 + of_nat (n mod 10)) # cp) 10
          (val * 10 ^ length (digits0 (n div 10)) + of_nat (n div 10))"
      using False by (simp add: digits0_pos [of n] "1.IH" del: aton_number.simps)
    also have "\<dots> = aton_number cp 10
        ((val * 10 ^ length (digits0 (n div 10)) + of_nat (n div 10)) * 10 + of_nat (n mod 10))"
      by (simp add: digit_isdigit ucast_digit)
    also have "(val * 10 ^ length (digits0 (n div 10)) + of_nat (n div 10)) * 10 + of_nat (n mod 10) =
        val * 10 ^ length (digits0 n) + (of_nat n :: u32)"
      by (simp add: digits0_pos [OF False] e algebra_simps)
    finally show ?thesis .
  qed simp
qed

lemma aton_number_stop: "\<not> lwip_isdigit (chd cp) \<Longrightarrow> bas \<noteq> 16 \<Longrightarrow> aton_number cp bas val = (val, cp)"
  by (cases cp) (auto simp: chd_def)

lemma hd_digits0: "n \<noteq> 0 \<Longrightarrow> \<exists>k ds. digits0 n = (48 + of_nat (k mod 10)) # ds \<and> k mod 10 \<noteq> 0"
proof (induction n rule: digits0.induct)
  case (1 n)
  show ?case
  proof (cases "n div 10 = 0")
    case True
    with "1.prems" show ?thesis
      by (intro exI [of _ n]) (auto simp: digits0_pos [of n] elim!: dvdE)
  next
    case False
    from "1.IH" [OF "1.prems" False] show ?thesis by (auto simp: digits0_pos [OF "1.prems"])
  qed
qed

text \<open>One number of the text, and the separator behind it.\<close>

definition stops :: "u8 list \<Rightarrow> bool" where
  "stops cp \<longleftrightarrow> \<not> lwip_isdigit (chd cp) \<and> chd cp \<noteq> 120 \<and> chd cp \<noteq> 88"

lemma dec_parsed:
  assumes "stops cp"
  shows "lwip_isdigit (chd (dec n @ cp)) \<and>
    (let (bas, cp') = aton_base (dec n @ cp) in aton_number cp' bas 0) = (of_nat n, cp)"
proof (cases "n = 0")
  case True
  have "lwip_isdigit 48" by (simp add: lwip_isdigit_def lwip_in_range_def)
  with True assms show ?thesis
    by (simp add: dec_def aton_base_def chd_def stops_def aton_number_stop [unfolded chd_def] split: list.splits)
next
  case False
  obtain k ds where k: "digits0 n = (48 + of_nat (k mod 10)) # ds" "k mod 10 \<noteq> 0"
    using hd_digits0 [OF False] by blast
  have "(48 + of_nat (k mod 10) :: u8) \<noteq> 48"
    using k(2) unat_digit [of k] by (auto simp: word_unat_eq_iff)
  then have "aton_base (dec n @ cp) = (10, digits0 n @ cp)"
    using False by (simp add: dec_def aton_base_def k(1) chd_def)
  moreover have "lwip_isdigit (chd (dec n @ cp))"
    using False k by (simp add: dec_def chd_def digit_isdigit)
  ultimately show ?thesis
    using assms by (simp add: aton_number_append stops_def aton_number_stop)
qed

lemma stops_dot: "stops (46 # cp)" and stops_nul: "stops (0 # cp)" and stops_end: "stops []"
  by (simp_all add: stops_def chd_def lwip_isdigit_def lwip_in_range_def)

lemma aton_loop_dot:
  assumes "length parts < 3"
  shows "aton_loop (dec n @ 46 # cp) parts = aton_loop cp (parts @ [of_nat n])"
  using assms dec_parsed [OF stops_dot, of n cp]
  by (subst aton_loop.simps) (auto simp: chd_def [of "46 # cp"] split: prod.splits)

lemma aton_loop_last:
  assumes "stops cp" and "chd cp \<noteq> 46"
  shows "aton_loop (dec n @ cp) parts = Some (parts, of_nat n, cp)"
  using assms dec_parsed [OF assms(1), of n]
  by (subst aton_loop.simps) (auto split: prod.splits)

lemma unat_octet_le: "(of_nat (unat (x :: u8)) :: u32) \<le> 0xff"
  using unat_u8_less [of x] by (simp add: word_le_nat_alt unat_of_nat del: unat_u8_less)

lemma of_nat_octet: "(of_nat (unat (x :: u8)) :: u32) = ucast x"
  by (simp add: word_unat_eq_iff unat_of_nat)

lemma octets_address:
  "lwip_htonl (ucast (ucast (drop_bit 24 a) :: u8) OR (push_bit 24 (ucast (ucast a :: u8)) OR
     push_bit 16 (ucast (ucast (drop_bit 8 a) :: u8)) OR push_bit 8 (ucast (ucast (drop_bit 16 a) :: u8)))) = a"
proof (rule bit_word_eqI)
  fix k assume "k < LENGTH(32)"
  then consider "k < 8" | "8 \<le> k" "k < 16" | "16 \<le> k" "k < 24" | "24 \<le> k" "k < 32"
    by fastforce
  then show "bit (lwip_htonl (ucast (ucast (drop_bit 24 a) :: u8) OR (push_bit 24 (ucast (ucast a :: u8)) OR
     push_bit 16 (ucast (ucast (drop_bit 8 a) :: u8)) OR push_bit 8 (ucast (ucast (drop_bit 16 a) :: u8))))) k = bit a k"
    by cases (auto simp: bit_htonl bit_simps)
qed

lemma aton_octets:
  assumes "butlast (dotted (ip4_octets a)) @ 0 # cp = s"
  shows "ip4addr_aton s = Some a"
proof -
  define o0 o1 o2 o3 :: u8 where o: "o0 = ucast a" "o1 = ucast (drop_bit 8 a)"
    "o2 = ucast (drop_bit 16 a)" "o3 = ucast (drop_bit 24 a)"
  have s: "s = dec (unat o0) @ 46 # dec (unat o1) @ 46 # dec (unat o2) @ 46 # dec (unat o3) @ 0 # cp"
    using assms by (simp add: dotted_def ip4_octets_def o [symmetric] butlast_append)
  have "aton_loop s [] = Some ([of_nat (unat o0), of_nat (unat o1), of_nat (unat o2)], of_nat (unat o3), 0 # cp)"
    unfolding s by (simp add: aton_loop_dot aton_loop_last stops_nul chd_def [of "0 # cp"])
  then show ?thesis
    using unat_octet_le [of o0] unat_octet_le [of o1] unat_octet_le [of o2] unat_octet_le [of o3]
    by (simp add: ip4addr_aton_def chd_def not_less leD of_nat_octet o octets_address)
qed

section \<open>Writing the text\<close>

definition overwrite :: "u8 list \<Rightarrow> nat \<Rightarrow> u8 list \<Rightarrow> u8 list" where
  "overwrite buf i xs = take i buf @ xs @ drop (i + length xs) buf"

lemma overwrite_Nil [simp]: "i \<le> length buf \<Longrightarrow> overwrite buf i [] = buf"
  by (simp add: overwrite_def)

lemma length_overwrite [simp]: "i + length xs \<le> length buf \<Longrightarrow> length (overwrite buf i xs) = length buf"
  by (simp add: overwrite_def)

lemma overwrite_overwrite:
  "i + length xs + length ys \<le> length buf \<Longrightarrow>
     overwrite (overwrite buf i xs) (i + length xs) ys = overwrite buf i (xs @ ys)"
  by (simp add: overwrite_def ac_simps)

lemma update_overwrite: "i < length buf \<Longrightarrow> buf[i := x] = overwrite buf i [x]"
  by (simp add: overwrite_def upd_conv_take_nth_drop)

lemma unat_divmod_10: "unat (x mod 10 :: u8) = unat x mod 10" "unat (x div 10 :: u8) = unat x div 10"
  by (simp_all add: unat_mod unat_div)

lemma ntoa_digits_spec:
  "i + length (dec (unat ap)) \<le> length invs \<Longrightarrow>
   ntoa_digits ap invs i = ret (overwrite invs i (rev (dec (unat ap))), i + length (dec (unat ap)))"
proof (induction ap invs i rule: ntoa_digits.induct)
  case (1 ap invs i)
  have d: "48 + ap mod 10 = 48 + of_nat (unat ap mod 10)"
    by (simp add: unat_divmod_10 [symmetric])
  have i: "i < length invs" using "1.prems" by (cases "dec (unat ap)") auto
  let ?inv = "overwrite invs i [48 + of_nat (unat ap mod 10)]"
  have z: "ap div 10 = 0 \<longleftrightarrow> unat ap div 10 = 0"
    unfolding unat_divmod_10 [symmetric] by (simp add: unat_eq_0)
  show ?case
  proof (cases "ap div 10 = 0")
    case True
    then have "dec (unat ap) = [48 + of_nat (unat ap mod 10)]" using z by (intro dec_small) simp
    with True i show ?thesis
      by (subst ntoa_digits.simps) (simp add: store_def d update_overwrite)
  next
    case False
    then have dv: "dec (unat ap) = dec (unat (ap div 10)) @ [48 + of_nat (unat ap mod 10)]"
      unfolding unat_divmod_10 using z by (intro dec_div) simp
    have "ntoa_digits ap invs i = ntoa_digits (ap div 10) ?inv (i + 1)"
      using False i by (subst ntoa_digits.simps) (simp add: store_def d update_overwrite)
    also have "\<dots> = ret (overwrite ?inv (i + 1) (rev (dec (unat (ap div 10)))),
        i + 1 + length (dec (unat (ap div 10))))"
      using "1.prems" i dv by (intro "1.IH" False) (simp_all add: overwrite_def)
    also have "overwrite ?inv (i + 1) (rev (dec (unat (ap div 10)))) = overwrite invs i (rev (dec (unat ap)))"
      using overwrite_overwrite [of i "[48 + of_nat (unat ap mod 10)]" "rev (dec (unat (ap div 10)))" invs]
        "1.prems" dv by simp
    finally show ?thesis using dv by simp
  qed
qed

lemma drop_overwrite:
  "k + length xs \<le> n \<Longrightarrow> n \<le> length buf \<Longrightarrow> drop n (overwrite buf k xs) = drop n buf"
  by (simp add: overwrite_def)

lemma ntoa_copy_spec:
  assumes "i \<le> length invs" and "buflen \<le> length buf" and "rp \<le> buflen"
  shows "(rp + i \<le> buflen \<longrightarrow> ntoa_copy invs i buf rp (int rp) (int buflen) =
      ret (overwrite buf rp (rev (take i invs)), Some (rp + i, int (rp + i)))) \<and>
    (buflen < rp + i \<longrightarrow> (\<exists>buf'. length buf' = length buf \<and> drop buflen buf' = drop buflen buf \<and>
      ntoa_copy invs i buf rp (int rp) (int buflen) = ret (buf', None)))"
  using assms
proof (induction i arbitrary: buf rp)
  case (Suc i)
  show ?case
  proof (cases "rp < buflen")
    case False
    with Suc.prems show ?thesis by auto
  next
    case True
    let ?buf = "overwrite buf rp [invs ! i]"
    have st: "ntoa_copy invs (Suc i) buf rp (int rp) (int buflen) =
        ntoa_copy invs i ?buf (rp + 1) (int (rp + 1)) (int buflen)"
      using True Suc.prems by (simp add: store_def update_overwrite add.commute)
    have len: "length ?buf = length buf" using True Suc.prems by simp
    have eq: "overwrite ?buf (rp + 1) (rev (take i invs)) = overwrite buf rp (rev (take (Suc i) invs))"
      if "rp + Suc i \<le> buflen"
      using overwrite_overwrite [of rp "[invs ! i]" "rev (take i invs)" buf] that Suc.prems
      by (simp add: take_Suc_conv_app_nth)
    have "drop buflen ?buf = drop buflen buf" using True Suc.prems by (intro drop_overwrite) simp_all
    with Suc.IH [of ?buf "rp + 1"] Suc.prems True len eq show ?thesis
      unfolding st by auto
  qed
qed simp

lemma length_dec_octet: "length (dec (unat (x :: u8))) \<le> 3"
proof -
  have "unat x div 10 div 10 div 10 = 0"
    using unat_u8_less [of x] by (simp add: div_mult2_eq [symmetric] del: unat_u8_less)
  then show ?thesis
    by (cases "unat x div 10 = 0"; cases "unat x div 10 div 10 = 0")
      (simp_all add: dec_small dec_div)
qed

lemma ntoa_octets_spec:
  assumes "buflen \<le> length buf" and "rp \<le> buflen"
  shows "(rp + length (dotted aps) \<le> buflen \<longrightarrow> ntoa_octets aps buf rp (int rp) (int buflen) =
      ret (overwrite buf rp (dotted aps), Some (rp + length (dotted aps)))) \<and>
    (buflen < rp + length (dotted aps) \<longrightarrow> (\<exists>buf'. length buf' = length buf \<and> drop buflen buf' = drop buflen buf \<and>
      ntoa_octets aps buf rp (int rp) (int buflen) = ret (buf', None)))"
  using assms
proof (induction aps arbitrary: buf rp)
  case Nil
  then show ?case by (simp add: dotted_def)
next
  case (Cons ap aps)
  define d where "d = dec (unat ap)"
  have dig: "ntoa_digits ap [0, 0, 0] 0 = ret (overwrite [0, 0, 0] 0 (rev d), length d)"
    using ntoa_digits_spec [of 0 ap "[0, 0, 0]"] length_dec_octet [of ap] by (simp add: d_def)
  define invs where "invs = overwrite [0, 0, 0] 0 (rev d)"
  have inv: "length d \<le> length invs" "rev (take (length d) invs) = d"
    by (simp_all add: invs_def overwrite_def)
  have dot: "dotted (ap # aps) = d @ 46 # dotted aps" by (simp add: dotted_def d_def)
  note cp = ntoa_copy_spec [OF inv(1) Cons.prems, unfolded inv(2)]
  show ?case
  proof (cases "rp + length d + 1 \<le> buflen")
    case True
    let ?buf = "overwrite buf rp (d @ [46])"
    have "ntoa_octets (ap # aps) buf rp (int rp) (int buflen) =
        ntoa_octets aps ?buf (rp + length d + 1) (int (rp + length d + 1)) (int buflen)"
      using True cp Cons.prems overwrite_overwrite [of rp d "[46]" buf]
      by (simp add: dig invs_def [symmetric] store_def update_overwrite algebra_simps)
    moreover have "length ?buf = length buf" using True Cons.prems by simp
    moreover have "drop buflen ?buf = drop buflen buf" using True Cons.prems by (intro drop_overwrite) simp_all
    moreover have "overwrite ?buf (rp + length d + 1) (dotted aps) = overwrite buf rp (dotted (ap # aps))"
      if "rp + length (dotted (ap # aps)) \<le> buflen"
      using overwrite_overwrite [of rp "d @ [46]" "dotted aps" buf] that Cons.prems by (simp add: dot)
    ultimately show ?thesis
      using Cons.IH [of ?buf "rp + length d + 1"] True Cons.prems by (auto simp: dot)
  next
    case False
    then have "\<exists>buf'. length buf' = length buf \<and> drop buflen buf' = drop buflen buf \<and>
        ntoa_octets (ap # aps) buf rp (int rp) (int buflen) = ret (buf', None)"
      using cp Cons.prems by (cases "rp + length d \<le> buflen") (auto simp: dig invs_def [symmetric] drop_overwrite)
    with False show ?thesis by (auto simp: dot)
  qed
qed

lemma ntoa_r_spec:
  fixes a :: u32
  assumes "buflen \<le> length buf"
  defines "text \<equiv> dotted (ip4_octets a)"
  shows "(length text \<le> buflen \<longrightarrow>
      ip4addr_ntoa_r a buf (int buflen) = ret (overwrite buf 0 (butlast text @ [0]), True)) \<and>
    (buflen < length text \<longrightarrow> (\<exists>buf'. length buf' = length buf \<and> drop buflen buf' = drop buflen buf \<and>
      ip4addr_ntoa_r a buf (int buflen) = ret (buf', False)))"
proof -
  obtain xs where xs: "text = xs @ [46]"
    by (simp add: text_def ip4_octets_def dotted_def)
  have "(overwrite buf 0 text)[length xs := 0] = overwrite buf 0 (xs @ [0])" if "length text \<le> length buf"
    by (simp add: overwrite_def xs list_update_append)
  then show ?thesis
    using ntoa_octets_spec [OF assms(1), of 0 "ip4_octets a"] assms(1)
    unfolding ip4addr_ntoa_r_def text_def [symmetric] by (auto simp: store_def xs)
qed

lemma ntoa_r_negative:
  assumes "buflen < 0"
  shows "ip4addr_ntoa_r a buf buflen = ret (buf, False)"
proof -
  have "ntoa_octets (ap # aps) buf 0 0 buflen = ret (buf, None)" for ap aps
  proof -
    obtain invs i where "ntoa_digits ap [0, 0, 0] 0 = ret (invs, i)"
      using ntoa_digits_spec [of 0 ap "[0, 0, 0]"] length_dec_octet [of ap] by simp
    then show ?thesis using assms by (cases i) simp_all
  qed
  then show ?thesis by (simp add: ip4addr_ntoa_r_def ip4_octets_def)
qed

section \<open>Netmasks\<close>

lemma and_push_bit_1: "j < 32 \<Longrightarrow> (h :: u32) AND push_bit j 1 = 0 \<longleftrightarrow> \<not> bit h j"
proof
  assume "j < 32" "h AND push_bit j 1 = 0"
  then have "\<not> bit (h AND push_bit j 1) j" by simp
  with \<open>j < 32\<close> show "\<not> bit h j" by (auto simp: bit_simps)
next
  assume "\<not> bit h j"
  then show "h AND push_bit j 1 = 0"
    by (intro bit_word_eqI) (auto simp: bit_simps le_antisym)
qed

lemma push_bit_1_nonzero: "j < 32 \<Longrightarrow> (push_bit j 1 :: u32) \<noteq> 0"
  using bit_push_bit_iff [of j "1 :: u32" j] by force

lemma drop_push_1: "j < 31 \<Longrightarrow> drop_bit 1 (push_bit (Suc j) 1 :: u32) = push_bit j 1"
  by (rule bit_word_eqI) (auto simp: bit_simps)

lemma no_one_loop_0 [simp]: "no_one_loop h 0"
  by (simp add: no_one_loop.simps)

lemma no_one_loop_iff: "j < 32 \<Longrightarrow> no_one_loop h (push_bit j 1) \<longleftrightarrow> (\<forall>i\<le>j. \<not> bit h i)"
proof (induction j)
  case 0
  have "drop_bit 1 (push_bit 0 1 :: u32) = 0" by simp
  then show ?case
    using and_push_bit_1 [of 0 h] push_bit_1_nonzero [of 0]
    by (subst no_one_loop.simps) (auto simp del: push_bit_0_id push_bit_of_1 push_bit_of_0)
next
  case (Suc j)
  then have "no_one_loop h (push_bit (Suc j) 1) \<longleftrightarrow> \<not> bit h (Suc j) \<and> no_one_loop h (push_bit j 1)"
    using and_push_bit_1 [of "Suc j" h] push_bit_1_nonzero [of "Suc j"] drop_push_1 [of j]
    by (subst no_one_loop.simps) (auto simp del: push_bit_Suc push_bit_of_1)
  with Suc show ?case by (auto simp: le_Suc_eq)
qed

lemma valid_loops_iff:
  "j < 32 \<Longrightarrow> no_one_loop h (first_zero_loop h (push_bit j 1)) \<longleftrightarrow>
     (\<exists>k\<le>Suc j. \<forall>i\<le>j. bit h i = (k \<le> i))"
proof (induction j)
  case 0
  have "drop_bit 1 (push_bit 0 1 :: u32) = 0" by simp
  moreover have "first_zero_loop h 0 = 0" by (simp add: first_zero_loop.simps)
  ultimately have "no_one_loop h (first_zero_loop h (push_bit 0 1))"
    using and_push_bit_1 [of 0 h] push_bit_1_nonzero [of 0] no_one_loop_iff [of 0 h]
    by (subst first_zero_loop.simps) (auto simp del: push_bit_0_id push_bit_of_1)
  moreover have "\<exists>k\<le>Suc 0. \<forall>i\<le>0. bit h i = (k \<le> i)"
    by (intro exI [of _ "if bit h 0 then 0 else 1"]) auto
  ultimately show ?case by simp
next
  case (Suc j)
  have fz: "first_zero_loop h (push_bit (Suc j) 1) =
      (if bit h (Suc j) then first_zero_loop h (push_bit j 1) else push_bit (Suc j) 1)"
    using and_push_bit_1 [of "Suc j" h] push_bit_1_nonzero [of "Suc j"] drop_push_1 [of j] Suc.prems
    by (subst first_zero_loop.simps) (auto simp del: push_bit_Suc push_bit_of_1)
  show ?case
  proof (cases "bit h (Suc j)")
    case True
    have "(\<exists>k\<le>Suc j. \<forall>i\<le>j. bit h i = (k \<le> i)) \<longleftrightarrow> (\<exists>k\<le>Suc (Suc j). \<forall>i\<le>Suc j. bit h i = (k \<le> i))"
      using True by (auto simp: le_Suc_eq)
    with True Suc fz show ?thesis by simp
  next
    case False
    have "(\<forall>i\<le>Suc j. \<not> bit h i) \<longleftrightarrow> (\<exists>k\<le>Suc (Suc j). \<forall>i\<le>Suc j. bit h i = (k \<le> i))"
    proof
      assume "\<forall>i\<le>Suc j. \<not> bit h i"
      then show "\<exists>k\<le>Suc (Suc j). \<forall>i\<le>Suc j. bit h i = (k \<le> i)"
        by (intro exI [of _ "Suc (Suc j)"]) auto
    next
      assume "\<exists>k\<le>Suc (Suc j). \<forall>i\<le>Suc j. bit h i = (k \<le> i)"
      then obtain k where k: "k \<le> Suc (Suc j)" "\<forall>i\<le>Suc j. bit h i = (k \<le> i)" by blast
      with False have "k = Suc (Suc j)" by (metis le_SucE le_refl)
      with k show "\<forall>i\<le>Suc j. \<not> bit h i" by auto
    qed
    with False fz no_one_loop_iff [OF Suc.prems, of h] show ?thesis by simp
  qed
qed

section \<open>Properties\<close>

text \<open>
  C17: text round trip. When the four octets in decimal, separated by dots, and the terminating zero byte fit into
  \<open>buflen\<close> bytes, which 16 bytes always do, \<open>ip4addr_ntoa_r\<close> writes them to the buffer and \<open>ip4addr_aton\<close> reads the
  address back from it. Otherwise, also for \<open>buflen\<close> zero or negative, it returns \<open>NULL\<close>. In both cases it
  writes inside the first \<open>buflen\<close> bytes only.
\<close>

theorem ip4addr_ntoa_aton:
  fixes buflen :: int
  assumes "nat buflen \<le> length buf"
  shows "\<exists>buf'. length buf' = length buf \<and> drop (nat buflen) buf' = drop (nat buflen) buf \<and>
    length (dotted (ip4_octets a)) \<le> 16 \<and>
    (if int (length (dotted (ip4_octets a))) \<le> buflen
     then ip4addr_ntoa_r a buf buflen = ret (buf', True) \<and>
       cstring buf' = butlast (dotted (ip4_octets a)) \<and> ip4addr_aton buf' = Some a
     else ip4addr_ntoa_r a buf buflen = ret (buf', False))"
proof -
  let ?t = "dotted (ip4_octets a)" and ?n = "nat buflen"
  have le: "length ?t \<le> 16"
    using length_dec_octet [of "ucast a"] length_dec_octet [of "ucast (drop_bit 8 a)"]
      length_dec_octet [of "ucast (drop_bit 16 a)"] length_dec_octet [of "ucast (drop_bit 24 a)"]
    by (simp add: dotted_def ip4_octets_def)
  have nz: "0 \<notin> set (butlast ?t)"
    using dec_nonzero by (auto simp: dotted_def ip4_octets_def butlast_append)
  have "?t \<noteq> []" by (simp add: dotted_def ip4_octets_def)
  then have pos: "0 < length ?t" by simp
  note spec = ntoa_r_spec [OF assms, of a]
  consider "buflen < 0" | "0 \<le> buflen" "length ?t \<le> ?n" | "0 \<le> buflen" "?n < length ?t" by linarith
  then show ?thesis
  proof cases
    case 1
    then show ?thesis using ntoa_r_negative [of buflen a buf] le by (intro exI [of _ buf]) simp
  next
    case 2
    let ?buf = "overwrite buf 0 (butlast ?t @ [0])"
    have len: "length (butlast ?t @ [0]) = length ?t" using pos by (simp del: length_greater_0_conv)
    have "length ?buf = length buf" using 2 assms len by (intro length_overwrite) (simp only: add_0)
    moreover have "drop ?n ?buf = drop ?n buf" using 2 assms len by (intro drop_overwrite) (simp_all only: add_0)
    moreover have "?buf = butlast ?t @ 0 # drop (length ?t) buf"
      using \<open>?t \<noteq> []\<close> by (simp add: overwrite_def)
    moreover from this have "cstring ?buf = butlast ?t"
      using nz by (simp add: cstring_append)
    ultimately show ?thesis
      using spec 2 le aton_octets [of a] by (intro exI [of _ ?buf]) auto
  next
    case 3
    then show ?thesis using spec le by (auto simp: nat_less_iff)
  qed
qed

theorem ip4addr_ntoa_aton_witness:
  "(\<exists>buf'. ip4addr_ntoa_r 0x0100007f (replicate 16 0xff) 10 = ret (buf', True) \<and>
     ip4addr_aton buf' = Some 0x0100007f \<and> drop 10 buf' = replicate 6 0xff) \<and>
   (\<exists>buf'. ip4addr_ntoa_r 0x0100007f (replicate 16 0xff) 9 = ret (buf', False) \<and> drop 9 buf' = replicate 7 0xff)"
proof -
  have "length (dotted (ip4_octets 0x0100007f)) = 10"
    by (simp add: dotted_def ip4_octets_def dec_small dec_div)
  then show ?thesis
    using ip4addr_ntoa_aton [of 10 "replicate 16 0xff" "0x0100007f"]
      ip4addr_ntoa_aton [of 9 "replicate 16 0xff" "0x0100007f"]
    by auto
qed

text \<open>
  C18: \<open>ip4_addr_netmask_valid\<close> accepts exactly the masks that are, in host byte order, a number of
  ones followed by zeros.
\<close>

theorem netmask_valid_iff:
  "ip4_addr_netmask_valid nm \<longleftrightarrow> (\<exists>k\<le>32. lwip_htonl nm = NOT (mask k))"
proof -
  have "lwip_htonl nm = NOT (mask k) \<longleftrightarrow> (\<forall>i\<le>31. bit (lwip_htonl nm) i = (k \<le> i))" for k
    by (auto simp: bit_eq_iff bit_simps not_less less_Suc_eq_le numeral_eq_Suc)
  then show ?thesis
    using valid_loops_iff [of 31 "lwip_htonl nm"] by (simp add: ip4_addr_netmask_valid_def)
qed

text \<open>
  C28: a number written in decimal is accepted whatever its size and taken modulo \<open>2 ^ 32\<close>, so
  that a text outside the range of addresses is silently read as another address.
\<close>

theorem ip4addr_aton_wraps:
  "ip4addr_aton (dec n) = Some (lwip_htonl (of_nat (n mod 2 ^ 32)))"
proof -
  have "(of_nat (n mod 2 ^ 32) :: u32) = of_nat n"
    by (simp add: word_unat_eq_iff unat_of_nat)
  then show ?thesis
    using aton_loop_last [OF stops_end, of n "[]"] by (simp add: ip4addr_aton_def chd_def)
qed

end
