(* ===== verification/Serial.thy ===== *)
theory Serial
  imports Lwip_Prelude "HOL-Library.Multiset"
begin

text \<open>
  Comparison of 32-bit counters that wrap around: \<open>TIME_LESS_THAN\<close> of \<open>core/timeouts.c\<close> and the
  \<open>TCP_SEQ_...\<close> macros of \<open>lwip/priv/tcp_priv.h\<close>. They are orders only between values that
  lie in a window of \<open>2 ^ 31\<close>; the locale \<open>serial_order\<close> says so, and inside a window it gives a
  linear order that the sorted lists of the stack rely on.
\<close>

section \<open>The comparisons\<close>

definition TIME_LESS_THAN :: "u32 \<Rightarrow> u32 \<Rightarrow> bool" where
  "TIME_LESS_THAN t compare_to \<longleftrightarrow> t - compare_to > 0x7fffffff"

definition TCP_SEQ_LT :: "u32 \<Rightarrow> u32 \<Rightarrow> bool" where
  "TCP_SEQ_LT a b \<longleftrightarrow> a - b AND 0x80000000 \<noteq> 0"

definition TCP_SEQ_LEQ :: "u32 \<Rightarrow> u32 \<Rightarrow> bool" where
  "TCP_SEQ_LEQ a b \<longleftrightarrow> \<not> TCP_SEQ_LT b a"

definition TCP_SEQ_GT :: "u32 \<Rightarrow> u32 \<Rightarrow> bool" where
  "TCP_SEQ_GT a b \<longleftrightarrow> TCP_SEQ_LT b a"

definition TCP_SEQ_GEQ :: "u32 \<Rightarrow> u32 \<Rightarrow> bool" where
  "TCP_SEQ_GEQ a b = TCP_SEQ_LEQ b a"

definition TCP_SEQ_BETWEEN :: "u32 \<Rightarrow> u32 \<Rightarrow> u32 \<Rightarrow> bool" where
  "TCP_SEQ_BETWEEN a b c \<longleftrightarrow> TCP_SEQ_GEQ a b \<and> TCP_SEQ_LEQ a c"

section \<open>The window\<close>

text \<open>The position of \<open>t\<close> in the window that starts at \<open>b\<close>.\<close>

definition key :: "u32 \<Rightarrow> u32 \<Rightarrow> nat" where
  "key b t = unat (t - b)"

definition in_window :: "u32 \<Rightarrow> u32 \<Rightarrow> bool" where
  "in_window b t \<longleftrightarrow> key b t < 2147483648"

lemma key_inject: "key b x = key b y \<longleftrightarrow> x = y"
  by (simp add: key_def word_unat_eq_iff [symmetric])

lemma key_add: "key b t + unat d < 4294967296 \<Longrightarrow> key b (t + d) = key b t + unat d"
proof -
  assume k: "key b t + unat d < 4294967296"
  have e: "t + d - b = (t - b) + d" by simp
  from k show ?thesis unfolding key_def e by (subst unat_word_ariths) simp
qed

lemma unat_diff_key:
  assumes "in_window b x" and "in_window b y"
  shows "unat (x - y) = (if key b y \<le> key b x then key b x - key b y
    else key b x + 4294967296 - key b y)"
proof -
  have e: "x - y = (x - b) - (y - b)" by simp
  have "unat (v - w) = (if unat w \<le> unat v then unat v - unat w else unat v + 4294967296 - unat w)"
    for v w :: u32
    by (simp add: unat_sub_if')
  then show ?thesis unfolding e key_def .
qed

locale serial_order =
  fixes lt :: "u32 \<Rightarrow> u32 \<Rightarrow> bool"
  assumes less_key: "in_window b x \<Longrightarrow> in_window b y \<Longrightarrow> lt x y \<longleftrightarrow> key b x < key b y"
begin

lemma irrefl: "\<not> lt x x"
  using less_key [of x x x] by (simp add: in_window_def key_def)

lemma trans: "in_window b x \<Longrightarrow> in_window b y \<Longrightarrow> in_window b z \<Longrightarrow> lt x y \<Longrightarrow> lt y z \<Longrightarrow> lt x z"
  using less_key [of b x y] less_key [of b y z] less_key [of b x z] by simp

lemma total: "in_window b x \<Longrightarrow> in_window b y \<Longrightarrow> lt x y \<or> x = y \<or> lt y x"
  using less_key [of b x y] less_key [of b y x] key_inject [of b x y] by auto

end

text \<open>Insertion into a list behind all the elements that are not greater.\<close>

fun serial_insert :: "(u32 \<Rightarrow> u32 \<Rightarrow> bool) \<Rightarrow> ('a \<Rightarrow> u32) \<Rightarrow> 'a \<Rightarrow> 'a list \<Rightarrow> 'a list" where
  "serial_insert lt f x [] = [x]"
| "serial_insert lt f x (t # ts) =
     (if lt (f x) (f t) then x # t # ts else t # serial_insert lt f x ts)"

definition window_sorted :: "u32 \<Rightarrow> ('a \<Rightarrow> u32) \<Rightarrow> 'a list \<Rightarrow> bool" where
  "window_sorted b f ts \<longleftrightarrow>
     (\<forall>t \<in> set ts. in_window b (f t)) \<and> sorted (map (\<lambda>t. key b (f t)) ts)"

lemma window_sorted_Nil [simp]: "window_sorted b f []"
  by (simp add: window_sorted_def)

lemma window_sorted_Cons:
  "window_sorted b f (t # ts) \<longleftrightarrow> in_window b (f t) \<and> window_sorted b f ts \<and>
     (\<forall>x \<in> set ts. key b (f t) \<le> key b (f x))"
  by (auto simp: window_sorted_def)

lemma set_serial_insert [simp]: "set (serial_insert lt f x ts) = insert x (set ts)"
  by (induction ts) auto

lemma mset_serial_insert [simp]: "mset (serial_insert lt f x ts) = add_mset x (mset ts)"
  by (induction ts) auto

lemma serial_insert_not_Nil [simp]: "serial_insert lt f x ts \<noteq> []"
  by (cases ts) auto

context serial_order
begin

lemma window_sorted_insert:
  assumes "window_sorted b f ts" and "in_window b (f x)"
  shows "window_sorted b f (serial_insert lt f x ts)"
  using assms
proof (induction ts)
  case (Cons t ts)
  then have "in_window b (f t)" by (simp add: window_sorted_Cons)
  note lk = less_key [OF Cons.prems(2) this]
  from Cons show ?case
    by (fastforce simp: window_sorted_Cons lk)
qed (simp add: window_sorted_Cons)

lemma serial_insert_position:
  assumes "window_sorted b f ts" and "in_window b (f x)"
  shows "serial_insert lt f x ts =
    filter (\<lambda>t. key b (f t) \<le> key b (f x)) ts @ x # filter (\<lambda>t. key b (f x) < key b (f t)) ts"
  using assms
proof (induction ts)
  case (Cons t ts)
  then have w: "in_window b (f t)" "window_sorted b f ts" and le: "\<forall>y \<in> set ts. key b (f t) \<le> key b (f y)"
    by (simp_all add: window_sorted_Cons)
  note lk = less_key [OF Cons.prems(2) w(1)]
  show ?case
  proof (cases "key b (f x) < key b (f t)")
    case True
    then have "\<forall>y \<in> set ts. key b (f x) < key b (f y)" using le by fastforce
    then have "filter (\<lambda>t. key b (f t) \<le> key b (f x)) ts = []" "filter (\<lambda>t. key b (f x) < key b (f t)) ts = ts"
      by (auto simp: filter_empty_conv not_le intro: filter_True)
    with True show ?thesis by (simp add: lk)
  next
    case False
    with Cons.IH [OF w(2) Cons.prems(2)] show ?thesis by (simp add: lk not_less)
  qed
qed simp

end

lemma TIME_LESS_THAN_key:
  "in_window b x \<Longrightarrow> in_window b y \<Longrightarrow> TIME_LESS_THAN x y \<longleftrightarrow> key b x < key b y"
  using unat_diff_key [of b x y]
  by (auto simp: TIME_LESS_THAN_def word_less_nat_alt in_window_def)

lemma TCP_SEQ_LT_eq: "TCP_SEQ_LT a b = TIME_LESS_THAN a b"
proof -
  have m: "(0x80000000 :: u32) = 2 ^ 31" by simp
  have "(w AND 0x80000000 \<noteq> 0) = (0x7fffffff < w)" for w :: u32
  proof -
    have "w AND 0x80000000 \<noteq> 0 \<longleftrightarrow> bit w 31"
      unfolding m by (simp only: and_exp_eq_0_iff_not_bit not_not)
    also have "bit w 31 \<longleftrightarrow> odd (unat w div 2147483648)"
    proof -
      have "bit w 31 \<longleftrightarrow> bit (unat w) 31" by (simp add: bit_unsigned_iff)
      also have "bit (unat w) 31 \<longleftrightarrow> odd (unat w div 2 ^ 31)" by (rule bit_iff_odd)
      finally show ?thesis by simp
    qed
    also have "\<dots> \<longleftrightarrow> 2147483648 \<le> unat w"
    proof -
      define d where "d = unat w div 2147483648"
      have "d < 2" unfolding d_def using unat_u32_less [of w] by (simp add: less_mult_imp_div_less)
      then have "odd d \<longleftrightarrow> d \<noteq> 0" by presburger
      then show ?thesis unfolding d_def by (simp add: div_eq_0_iff not_less)
    qed
    also have "\<dots> \<longleftrightarrow> 0x7fffffff < w" by (auto simp: word_less_nat_alt)
    finally show ?thesis .
  qed
  then show ?thesis by (simp add: TCP_SEQ_LT_def TIME_LESS_THAN_def)
qed

interpretation time: serial_order TIME_LESS_THAN
  by unfold_locales (rule TIME_LESS_THAN_key)

interpretation tcp_seq: serial_order TCP_SEQ_LT
  by unfold_locales (simp add: TCP_SEQ_LT_eq TIME_LESS_THAN_key)

end
