(* ===== verification/Timeouts.thy ===== *)
theory Timeouts
  imports Serial Memp
begin

text \<open>
  The timeouts of \<open>core/timeouts.c\<close>. The linked list \<open>next_timeout\<close> is a list of
  \<open>sys_timeo\<close> records with the addresses of their pool elements. \<open>now_ms\<close> is the value that
  \<open>sys_now()\<close> returns; only the handlers and the time between two calls change it. \<open>world\<close>
  is the rest of the state, which the handlers work on.

  The functions a timer calls are parameters (\<open>tenv\<close>): the handlers of
  \<open>lwip_cyclic_timers\<close>, \<open>tcp_tmr\<close> with the test \<open>tcp_active_pcbs || tcp_tw_pcbs\<close>, and the
  handlers of other users of \<open>sys_timeout\<close>.
\<close>

section \<open>Data\<close>

datatype sys_timeout_handler = No_handler | Lwip_cyclic_timer | Tcpip_tcp_timer | Handler nat

record sys_timeo =
  timeo_addr :: nat
  timeo_time :: u32
  timeo_h :: sys_timeout_handler
  timeo_arg :: nat

record 'w tstate =
  next_timeout :: "sys_timeo list"
  memp_sys_timeout :: memp_desc
  current_timeout_due_time :: u32
  tcpip_tcp_timer_active :: bool
  now_ms :: u32
  world :: 'w

record 'w tenv =
  cyclic_handler :: "nat \<Rightarrow> 'w tstate \<Rightarrow> 'w tstate res"
  tcp_tmr :: "'w tstate \<Rightarrow> 'w tstate res"
  tcp_pcbs :: "'w tstate \<Rightarrow> bool"
  handler_fn :: "nat \<Rightarrow> nat \<Rightarrow> 'w tstate \<Rightarrow> 'w tstate res"

text \<open>
  The intervals of \<open>lwip_cyclic_timers\<close>: TCP, IP reassembly, ARP, DHCP (coarse and fine), ACD
  and DNS.
\<close>

definition lwip_cyclic_timers :: "u32 list" where
  "lwip_cyclic_timers = [250, 1000, 1000, 60000, 500, 100, 1000]"

abbreviation (input) TCP_TMR_INTERVAL :: u32 where "TCP_TMR_INTERVAL \<equiv> 250"

section \<open>Operations\<close>

text \<open>The loop of \<open>sys_timeout_abs\<close> for a list that does not start with a later timeout.\<close>

fun timeout_insert_loop :: "sys_timeo \<Rightarrow> sys_timeo list \<Rightarrow> sys_timeo list" where
  "timeout_insert_loop timeout [] = []"
| "timeout_insert_loop timeout (t # ts) =
     (if ts = [] \<or> TIME_LESS_THAN (timeo_time timeout) (timeo_time (hd ts)) then t # timeout # ts
      else t # timeout_insert_loop timeout ts)"

definition sys_timeout_abs ::
  "u32 \<Rightarrow> sys_timeout_handler \<Rightarrow> nat \<Rightarrow> 'w tstate \<Rightarrow> 'w tstate res" where
  "sys_timeout_abs abs_time handler arg s =
     (case do_memp_malloc_pool (memp_sys_timeout s) of
        (d, None) \<Rightarrow> fault Assertion
      | (d, Some a) \<Rightarrow>
          let timeout = \<lparr>timeo_addr = a, timeo_time = abs_time, timeo_h = handler, timeo_arg = arg\<rparr>;
              s = s\<lparr>memp_sys_timeout := d\<rparr>
          in (case next_timeout s of
                [] \<Rightarrow> ret (s\<lparr>next_timeout := [timeout]\<rparr>)
              | t # ts \<Rightarrow>
                  if TIME_LESS_THAN (timeo_time timeout) (timeo_time t)
                  then ret (s\<lparr>next_timeout := timeout # t # ts\<rparr>)
                  else ret (s\<lparr>next_timeout := timeout_insert_loop timeout (t # ts)\<rparr>)))"

definition sys_timeout ::
  "u32 \<Rightarrow> sys_timeout_handler \<Rightarrow> nat \<Rightarrow> 'w tstate \<Rightarrow> 'w tstate res" where
  "sys_timeout msecs handler arg s =
     bindR (lwip_assert (msecs \<le> 0xffffffff div 4)) (\<lambda>_.
     sys_timeout_abs (now_ms s + msecs) handler arg s)"

definition tcpip_tcp_timer :: "'w tenv \<Rightarrow> 'w tstate \<Rightarrow> 'w tstate res" where
  "tcpip_tcp_timer E s =
     bindR (tcp_tmr E s) (\<lambda>s.
     if tcp_pcbs E s then sys_timeout TCP_TMR_INTERVAL Tcpip_tcp_timer 0 s
     else ret (s\<lparr>tcpip_tcp_timer_active := False\<rparr>))"

definition tcp_timer_needed :: "'w tenv \<Rightarrow> 'w tstate \<Rightarrow> 'w tstate res" where
  "tcp_timer_needed E s =
     (if \<not> tcpip_tcp_timer_active s \<and> tcp_pcbs E s
      then sys_timeout TCP_TMR_INTERVAL Tcpip_tcp_timer 0 (s\<lparr>tcpip_tcp_timer_active := True\<rparr>)
      else ret s)"

definition lwip_cyclic_timer :: "'w tenv \<Rightarrow> nat \<Rightarrow> 'w tstate \<Rightarrow> 'w tstate res" where
  "lwip_cyclic_timer E cyclic s =
     (if cyclic < length lwip_cyclic_timers then
        bindR (cyclic_handler E cyclic s) (\<lambda>s.
        let now = now_ms s;
            interval_ms = lwip_cyclic_timers ! cyclic;
            next_timeout_time = current_timeout_due_time s + interval_ms
        in if TIME_LESS_THAN next_timeout_time now
           then sys_timeout_abs (now + interval_ms) Lwip_cyclic_timer cyclic s
           else sys_timeout_abs next_timeout_time Lwip_cyclic_timer cyclic s)
      else fault Bad_pointer)"

fun timeouts_init_loop :: "nat list \<Rightarrow> 'w tstate \<Rightarrow> 'w tstate res" where
  "timeouts_init_loop [] s = ret s"
| "timeouts_init_loop (i # is) s =
     bindR (sys_timeout (lwip_cyclic_timers ! i) Lwip_cyclic_timer i s) (timeouts_init_loop is)"

definition sys_timeouts_init :: "'w tstate \<Rightarrow> 'w tstate res" where
  "sys_timeouts_init s = timeouts_init_loop [1..<length lwip_cyclic_timers] s"

fun untimeout_loop ::
  "sys_timeout_handler \<Rightarrow> nat \<Rightarrow> sys_timeo list \<Rightarrow> (sys_timeo \<times> sys_timeo list) option" where
  "untimeout_loop handler arg [] = None"
| "untimeout_loop handler arg (t # ts) =
     (if timeo_h t = handler \<and> timeo_arg t = arg then Some (t, ts)
      else (case untimeout_loop handler arg ts of None \<Rightarrow> None | Some (x, us) \<Rightarrow> Some (x, t # us)))"

definition sys_untimeout :: "sys_timeout_handler \<Rightarrow> nat \<Rightarrow> 'w tstate \<Rightarrow> 'w tstate" where
  "sys_untimeout handler arg s =
     (case untimeout_loop handler arg (next_timeout s) of
        None \<Rightarrow> s
      | Some (t, ts) \<Rightarrow>
          s\<lparr>next_timeout := ts,
            memp_sys_timeout := do_memp_free_pool (memp_sys_timeout s) (timeo_addr t)\<rparr>)"

text \<open>The call \<open>handler(arg)\<close>.\<close>

definition run_handler ::
  "'w tenv \<Rightarrow> sys_timeout_handler \<Rightarrow> nat \<Rightarrow> 'w tstate \<Rightarrow> 'w tstate res" where
  "run_handler E h arg s =
     (case h of
        No_handler \<Rightarrow> ret s
      | Lwip_cyclic_timer \<Rightarrow> lwip_cyclic_timer E arg s
      | Tcpip_tcp_timer \<Rightarrow> tcpip_tcp_timer E s
      | Handler n \<Rightarrow> handler_fn E n arg s)"

partial_function (option) check_timeouts_loop ::
  "'w tenv \<Rightarrow> u32 \<Rightarrow> 'w tstate \<Rightarrow> 'w tstate res" where
  "check_timeouts_loop E now s =
     (case next_timeout s of
        [] \<Rightarrow> ret s
      | tmptimeout # rest \<Rightarrow>
          if TIME_LESS_THAN now (timeo_time tmptimeout) then ret s
          else
            bindR (run_handler E (timeo_h tmptimeout) (timeo_arg tmptimeout)
              (s\<lparr>next_timeout := rest,
                 current_timeout_due_time := timeo_time tmptimeout,
                 memp_sys_timeout :=
                   do_memp_free_pool (memp_sys_timeout s) (timeo_addr tmptimeout)\<rparr>))
              (check_timeouts_loop E now))"

definition sys_check_timeouts :: "'w tenv \<Rightarrow> 'w tstate \<Rightarrow> 'w tstate res" where
  "sys_check_timeouts E s = check_timeouts_loop E (now_ms s) s"

definition sys_restart_timeouts :: "'w tstate \<Rightarrow> 'w tstate" where
  "sys_restart_timeouts s =
     (case next_timeout s of
        [] \<Rightarrow> s
      | t # _ \<Rightarrow>
          let now = now_ms s; bas = timeo_time t
          in s\<lparr>next_timeout :=
                 map (\<lambda>t. t\<lparr>timeo_time := (timeo_time t - bas) + now\<rparr>) (next_timeout s)\<rparr>)"

abbreviation (input) SYS_TIMEOUTS_SLEEPTIME_INFINITE :: u32 where
  "SYS_TIMEOUTS_SLEEPTIME_INFINITE \<equiv> 0xffffffff"

definition sys_timeouts_sleeptime :: "'w tstate \<Rightarrow> u32 res" where
  "sys_timeouts_sleeptime s =
     (case next_timeout s of
        [] \<Rightarrow> ret SYS_TIMEOUTS_SLEEPTIME_INFINITE
      | t # _ \<Rightarrow>
          if TIME_LESS_THAN (timeo_time t) (now_ms s) then ret 0
          else let r = timeo_time t - now_ms s
               in bindR (lwip_assert (r \<le> 0x7fffffff)) (\<lambda>_. ret r))"

section \<open>The sorted list\<close>

abbreviation timeo_insert :: "sys_timeo \<Rightarrow> sys_timeo list \<Rightarrow> sys_timeo list" where
  "timeo_insert \<equiv> serial_insert TIME_LESS_THAN timeo_time"

lemma timeout_insert_loop_eq:
  "\<not> TIME_LESS_THAN (timeo_time x) (timeo_time t) \<Longrightarrow>
     timeout_insert_loop x (t # ts) = timeo_insert x (t # ts)"
proof (induction ts arbitrary: t)
  case (Cons u ts)
  then show ?case by (cases "TIME_LESS_THAN (timeo_time x) (timeo_time u)") auto
qed simp

definition new_timeo :: "'w tstate \<Rightarrow> u32 \<Rightarrow> sys_timeout_handler \<Rightarrow> nat \<Rightarrow> sys_timeo" where
  "new_timeo s abs_time h arg =
     \<lparr>timeo_addr = hd (tab (memp_sys_timeout s)), timeo_time = abs_time, timeo_h = h, timeo_arg = arg\<rparr>"

lemma new_timeo_simps [simp]:
  "timeo_addr (new_timeo s t h arg) = hd (tab (memp_sys_timeout s))"
  "timeo_time (new_timeo s t h arg) = t" "timeo_h (new_timeo s t h arg) = h"
  "timeo_arg (new_timeo s t h arg) = arg"
  by (simp_all add: new_timeo_def)

lemma sys_timeout_abs_eq:
  assumes "tab (memp_sys_timeout s) \<noteq> []"
  shows "sys_timeout_abs abs_time h arg s =
    ret (s\<lparr>next_timeout := timeo_insert (new_timeo s abs_time h arg) (next_timeout s),
           memp_sys_timeout := fst (do_memp_malloc_pool (memp_sys_timeout s))\<rparr>)"
proof -
  obtain a rest where tab: "tab (memp_sys_timeout s) = a # rest" using assms by (cases "tab (memp_sys_timeout s)") auto
  then obtain d where d: "do_memp_malloc_pool (memp_sys_timeout s) = (d, Some a)"
    by (simp add: do_memp_malloc_pool_def Let_def)
  let ?x = "\<lparr>timeo_addr = a, timeo_time = abs_time, timeo_h = h, timeo_arg = arg\<rparr>"
  have x: "new_timeo s abs_time h arg = ?x" by (simp add: new_timeo_def tab)
  show ?thesis
    unfolding x sys_timeout_abs_def
    by (cases "next_timeout s") (use timeout_insert_loop_eq [of ?x] in \<open>auto simp: d Let_def\<close>)
qed

text \<open>
  The invariant of the list in the window that starts at \<open>b\<close>: it is sorted by the due time, and
  the elements of the pool are either in it or free.
\<close>

definition timeo_inv :: "u32 \<Rightarrow> 'w tstate \<Rightarrow> bool" where
  "timeo_inv b s \<longleftrightarrow> window_sorted b timeo_time (next_timeout s) \<and>
     distinct (map timeo_addr (next_timeout s) @ tab (memp_sys_timeout s))"

lemma tab_malloc: "tab (fst (do_memp_malloc_pool d)) = tl (tab d)"
  by (simp add: do_memp_malloc_pool_def Let_def split: list.splits)

lemma tab_free: "tab (do_memp_free_pool d a) = a # tab d"
  by (simp add: do_memp_free_pool_def)

lemma distinct_addr_insert:
  "distinct (map timeo_addr (timeo_insert x ts)) \<longleftrightarrow> timeo_addr x \<notin> timeo_addr ` set ts \<and>
     distinct (map timeo_addr ts)"
proof -
  have "mset (map timeo_addr (timeo_insert x ts)) = mset (timeo_addr x # map timeo_addr ts)" by simp
  from mset_eq_imp_distinct_iff [OF this] show ?thesis by (auto simp del: mset_map)
qed

lemma timeo_inv_insert:
  assumes "timeo_inv b s" and "tab (memp_sys_timeout s) \<noteq> []" and "in_window b abs_time"
  shows "timeo_inv b (s\<lparr>next_timeout := timeo_insert (new_timeo s abs_time h arg) (next_timeout s),
    memp_sys_timeout := fst (do_memp_malloc_pool (memp_sys_timeout s))\<rparr>)"
proof -
  obtain a rest where tab: "tab (memp_sys_timeout s) = a # rest" using assms(2) by (cases "tab (memp_sys_timeout s)") auto
  from assms show ?thesis
    by (auto simp: timeo_inv_def tab tab_malloc distinct_addr_insert intro!: time.window_sorted_insert)
qed

lemma timeo_inv_pop:
  assumes "timeo_inv b s" and "next_timeout s = t # ts"
  shows "timeo_inv b (s\<lparr>next_timeout := ts, current_timeout_due_time := timeo_time t,
    memp_sys_timeout := do_memp_free_pool (memp_sys_timeout s) (timeo_addr t)\<rparr>)"
  using assms by (auto simp: timeo_inv_def window_sorted_Cons tab_free)

section \<open>Expiry\<close>

definition expired :: "u32 \<Rightarrow> u32 \<Rightarrow> 'w tstate \<Rightarrow> sys_timeo list" where
  "expired b now s = filter (\<lambda>t. key b (timeo_time t) \<le> key b now) (next_timeout s)"

definition pop_timeout :: "'w tstate \<Rightarrow> 'w tstate" where
  "pop_timeout s =
     s\<lparr>next_timeout := tl (next_timeout s), current_timeout_due_time := timeo_time (hd (next_timeout s)),
       memp_sys_timeout :=
         do_memp_free_pool (memp_sys_timeout s) (timeo_addr (hd (next_timeout s)))\<rparr>"

text \<open>
  What \<open>sys_check_timeouts\<close> needs of the handlers: started for a timeout due at or before \<open>now\<close>
  they return, keep the invariant, and every timeout they add is later than the one they were
  started for. \<open>P\<close> is what is known of the state besides.
\<close>

definition handlers_ok :: "'w tenv \<Rightarrow> u32 \<Rightarrow> u32 \<Rightarrow> ('w tstate \<Rightarrow> bool) \<Rightarrow> bool" where
  "handlers_ok E b now P \<longleftrightarrow>
     (\<forall>s t ts. timeo_inv b s \<longrightarrow> P s \<longrightarrow> next_timeout s = t # ts \<longrightarrow>
        key b (timeo_time t) \<le> key b now \<longrightarrow>
        (\<exists>s' A. run_handler E (timeo_h t) (timeo_arg t) (pop_timeout s) = ret s' \<and>
           timeo_inv b s' \<and> P s' \<and>
           mset (expired b now s') = mset (expired b now (pop_timeout s)) + A \<and>
           (\<forall>a \<in># A. key b (timeo_time t) < key b (timeo_time a))))"

lemma check_timeouts_loop_returns:
  assumes "handlers_ok E b now P" and "in_window b now" and "timeo_inv b s" and "P s"
  shows "\<exists>s'. check_timeouts_loop E now s = ret s' \<and> timeo_inv b s' \<and> P s' \<and>
    (\<forall>t \<in> set (next_timeout s'). TIME_LESS_THAN now (timeo_time t))"
  using assms(3,4)
proof (induction "image_mset (\<lambda>t. key b now - key b (timeo_time t)) (mset (expired b now s))"
    arbitrary: s rule: wf_induct_rule [OF wf_mult [OF wf_less_than]])
  case (1 s)
  show ?case
  proof (cases "next_timeout s")
    case Nil
    with "1.prems" show ?thesis by (subst check_timeouts_loop.simps) simp
  next
    case (Cons t ts)
    have w: "in_window b (timeo_time t)" and sorted: "\<forall>x \<in> set ts. key b (timeo_time t) \<le> key b (timeo_time x)"
      using "1.prems"(1) Cons by (simp_all add: timeo_inv_def window_sorted_Cons)
    note less = TIME_LESS_THAN_key [OF assms(2)]
    show ?thesis
    proof (cases "key b now < key b (timeo_time t)")
      case True
      have "in_window b (timeo_time x)" if "x \<in> set ts" for x
        using "1.prems"(1) Cons that by (auto simp: timeo_inv_def window_sorted_def)
      with True sorted have "\<forall>x \<in> set (t # ts). TIME_LESS_THAN now (timeo_time x)"
        using w by (auto simp: less intro: less_le_trans)
      then show ?thesis
        using "1.prems" Cons by (subst check_timeouts_loop.simps) auto
    next
      case False
      obtain s' A where s': "run_handler E (timeo_h t) (timeo_arg t) (pop_timeout s) = ret s'"
        "timeo_inv b s'" "P s'" "mset (expired b now s') = mset (expired b now (pop_timeout s)) + A"
        "\<forall>a \<in># A. key b (timeo_time t) < key b (timeo_time a)"
        using assms(1) [unfolded handlers_ok_def, rule_format, OF "1.prems" Cons] False
        by auto
      have ex: "expired b now s = t # expired b now (pop_timeout s)"
        using False Cons by (simp add: expired_def pop_timeout_def)
      have A: "\<forall>a \<in># A. key b (timeo_time a) \<le> key b now"
      proof
        fix a assume "a \<in># A"
        then have "a \<in> set (expired b now s')" using s'(4) by (metis UnCI set_mset_mset set_mset_union)
        then show "key b (timeo_time a) \<le> key b now" by (simp add: expired_def)
      qed
      let ?f = "\<lambda>t. key b now - key b (timeo_time t)"
      have "(image_mset ?f (mset (expired b now s')), image_mset ?f (mset (expired b now s))) \<in> mult less_than"
      proof -
        have "(image_mset ?f (mset (expired b now (pop_timeout s))) + image_mset ?f A,
            image_mset ?f (mset (expired b now (pop_timeout s))) + {#?f t#}) \<in> mult less_than"
          using s'(5) A False by (intro one_step_implies_mult) (auto simp: diff_less_mono2 less_le_trans)
        then show ?thesis using s'(4) ex by simp
      qed
      from "1.hyps" [OF this s'(2,3)] show ?thesis
        using False w s'(1) by (subst check_timeouts_loop.simps) (simp add: Cons less pop_timeout_def)
    qed
  qed
qed

section \<open>The cyclic timers\<close>

text \<open>
  What is assumed of the handlers of the cyclic timers: they return, leave the timeouts alone, and
  the clock does not run backwards and stays below \<open>lim\<close> while they run.
\<close>

definition cyclic_handlers_ok :: "'w tenv \<Rightarrow> u32 \<Rightarrow> nat \<Rightarrow> bool" where
  "cyclic_handlers_ok E b lim \<longleftrightarrow>
     (\<forall>i s. i < length lwip_cyclic_timers \<longrightarrow> key b (now_ms s) \<le> lim \<longrightarrow>
        (\<exists>s'. cyclic_handler E i s = ret s' \<and> next_timeout s' = next_timeout s \<and>
           memp_sys_timeout s' = memp_sys_timeout s \<and>
           current_timeout_due_time s' = current_timeout_due_time s \<and>
           key b (now_ms s) \<le> key b (now_ms s') \<and> key b (now_ms s') \<le> lim))"

definition cyclic_state :: "u32 \<Rightarrow> u32 \<Rightarrow> nat \<Rightarrow> nat multiset \<Rightarrow> 'w tstate \<Rightarrow> bool" where
  "cyclic_state b now lim M s \<longleftrightarrow>
     (\<forall>t \<in> set (next_timeout s). timeo_h t = Lwip_cyclic_timer \<and> timeo_arg t < length lwip_cyclic_timers) \<and>
     mset (map timeo_arg (next_timeout s)) = M \<and> key b now \<le> key b (now_ms s) \<and> key b (now_ms s) \<le> lim"

lemma cyclic_interval:
  "i < length lwip_cyclic_timers \<Longrightarrow> 0 < unat (lwip_cyclic_timers ! i) \<and> unat (lwip_cyclic_timers ! i) \<le> 60000"
proof -
  have "\<forall>x \<in> set lwip_cyclic_timers. 0 < unat x \<and> unat x \<le> 60000"
    by (simp add: lwip_cyclic_timers_def)
  then show "i < length lwip_cyclic_timers \<Longrightarrow> ?thesis" by simp
qed

lemma mset_expired_insert:
  "mset (expired b now (s\<lparr>next_timeout := timeo_insert x (next_timeout s), memp_sys_timeout := d\<rparr>)) =
     mset (expired b now s) + (if key b (timeo_time x) \<le> key b now then {#x#} else {#})"
  by (simp add: expired_def mset_filter)

lemma cyclic_timers_ok:
  fixes E :: "'w tenv"
  assumes "cyclic_handlers_ok E b lim" and "lim + 60000 < 2147483648"
  shows "handlers_ok E b now (cyclic_state b now lim M)"
  unfolding handlers_ok_def
proof (intro allI impI)
  fix s :: "'w tstate" and t ts
  assume inv: "timeo_inv b s" and cyc: "cyclic_state b now lim M s" and nt: "next_timeout s = t # ts"
    and due: "key b (timeo_time t) \<le> key b now"
  define i where "i = timeo_arg t"
  have i: "timeo_h t = Lwip_cyclic_timer" "i < length lwip_cyclic_timers"
    using cyc nt by (auto simp: cyclic_state_def i_def)
  define I where "I = lwip_cyclic_timers ! i"
  have I: "0 < unat I" "unat I \<le> 60000" using cyclic_interval [OF i(2)] by (simp_all add: I_def)
  have pop: "next_timeout (pop_timeout s) = ts" "current_timeout_due_time (pop_timeout s) = timeo_time t"
    "now_ms (pop_timeout s) = now_ms s" "tab (memp_sys_timeout (pop_timeout s)) \<noteq> []"
    by (simp_all add: pop_timeout_def nt tab_free)
  have inv1: "timeo_inv b (pop_timeout s)"
    using timeo_inv_pop [OF inv nt] by (simp add: pop_timeout_def nt)
  obtain s1 where s1: "cyclic_handler E i (pop_timeout s) = ret s1" "next_timeout s1 = ts"
    "memp_sys_timeout s1 = memp_sys_timeout (pop_timeout s)" "current_timeout_due_time s1 = timeo_time t"
    "key b now \<le> key b (now_ms s1)" "key b (now_ms s1) \<le> lim"
    using assms(1) [unfolded cyclic_handlers_ok_def, rule_format, OF i(2), of "pop_timeout s"] cyc pop
    by (auto simp: cyclic_state_def)
  have inv2: "timeo_inv b s1" using inv1 by (simp add: timeo_inv_def s1 pop)
  have k1: "key b (timeo_time t + I) = key b (timeo_time t) + unat I"
    using due s1 I assms(2) by (intro key_add) linarith
  have k2: "key b (now_ms s1 + I) = key b (now_ms s1) + unat I"
    using s1 I assms(2) by (intro key_add) linarith
  define a where "a = (if TIME_LESS_THAN (timeo_time t + I) (now_ms s1) then now_ms s1 + I else timeo_time t + I)"
  have a: "key b (timeo_time t) < key b a" "in_window b a"
    using due s1 I assms(2) by (auto simp: a_def k1 k2 in_window_def)
  let ?x = "new_timeo s1 a Lwip_cyclic_timer i"
  let ?s' = "s1\<lparr>next_timeout := timeo_insert ?x (next_timeout s1),
    memp_sys_timeout := fst (do_memp_malloc_pool (memp_sys_timeout s1))\<rparr>"
  have tab1: "tab (memp_sys_timeout s1) \<noteq> []" using pop(4) s1(3) by simp
  have run: "run_handler E (timeo_h t) (timeo_arg t) (pop_timeout s) = ret ?s'"
    using i s1 sys_timeout_abs_eq [OF tab1, of a Lwip_cyclic_timer i]
    by (cases "TIME_LESS_THAN (timeo_time t + I) (now_ms s1)")
      (simp_all add: run_handler_def lwip_cyclic_timer_def i_def [symmetric] I_def [symmetric] a_def Let_def)
  have "timeo_inv b ?s'" using inv2 tab1 a(2) by (rule timeo_inv_insert)
  moreover have "cyclic_state b now lim M ?s'"
    using cyc s1 i nt by (auto simp: cyclic_state_def i_def)
  moreover have "mset (expired b now ?s') = mset (expired b now (pop_timeout s)) +
      (if key b a \<le> key b now then {#?x#} else {#})"
    unfolding mset_expired_insert by (simp add: expired_def s1 pop)
  ultimately show "\<exists>s' A. run_handler E (timeo_h t) (timeo_arg t) (pop_timeout s) = ret s' \<and>
      timeo_inv b s' \<and> cyclic_state b now lim M s' \<and>
      mset (expired b now s') = mset (expired b now (pop_timeout s)) + A \<and>
      (\<forall>x \<in># A. key b (timeo_time t) < key b (timeo_time x))"
    using run a(1) by (intro exI [of _ ?s'] exI [of _ "if key b a \<le> key b now then {#?x#} else {#}"]) auto
qed
section \<open>Properties\<close>

definition ex_timeo :: "nat \<Rightarrow> u32 \<Rightarrow> nat \<Rightarrow> sys_timeo" where
  "ex_timeo a t i = \<lparr>timeo_addr = a, timeo_time = t, timeo_h = Lwip_cyclic_timer, timeo_arg = i\<rparr>"

definition ex_timers :: "unit tstate" where
  "ex_timers = \<lparr>next_timeout = [ex_timeo 100 0xfffffff0 5, ex_timeo 140 0x20 1],
     memp_sys_timeout = \<lparr>esize = 40, num = 3, base = 100, tab = [180], st_err = 0, st_avail = 3,
       st_used = 2, st_max = 2\<rparr>,
     current_timeout_due_time = 0, tcpip_tcp_timer_active = False, now_ms = 0x10, world = ()\<rparr>"

definition ex_tenv :: "unit tenv" where
  "ex_tenv = \<lparr>cyclic_handler = (\<lambda>i. ret), tcp_tmr = ret, tcp_pcbs = (\<lambda>s. False),
     handler_fn = (\<lambda>n arg. ret)\<rparr>"

lemma ex_timers_inv: "timeo_inv 0xffffff00 ex_timers"
  by (simp add: timeo_inv_def window_sorted_def ex_timers_def ex_timeo_def in_window_def key_def)

text \<open>
  C21: \<open>sys_timeout\<close> keeps the list of timeouts sorted. With a free pool element and a due time in
  the window of \<open>2 ^ 31\<close> milliseconds of the pending timeouts, the new timeout is put behind all
  those that are due before or at the same time and in front of all later ones, although the
  clock is a 32-bit counter that wraps around.
\<close>

theorem sys_timeout_sorted:
  assumes "timeo_inv b s" and "tab (memp_sys_timeout s) \<noteq> []" and "msecs \<le> 0x3fffffff"
    and "in_window b (now_ms s + msecs)"
  shows "\<exists>s' (x :: sys_timeo). sys_timeout msecs h arg s = ret s' \<and> timeo_inv b s' \<and>
    timeo_time x = now_ms s + msecs \<and> timeo_h x = h \<and> timeo_arg x = arg \<and>
    next_timeout s' =
      filter (\<lambda>t. key b (timeo_time t) \<le> key b (timeo_time x)) (next_timeout s) @
      x # filter (\<lambda>t. key b (timeo_time x) < key b (timeo_time t)) (next_timeout s)"
proof -
  let ?x = "new_timeo s (now_ms s + msecs) h arg"
  have "window_sorted b timeo_time (next_timeout s)" using assms(1) by (simp add: timeo_inv_def)
  then have "timeo_insert ?x (next_timeout s) =
      filter (\<lambda>t. key b (timeo_time t) \<le> key b (timeo_time ?x)) (next_timeout s) @
      ?x # filter (\<lambda>t. key b (timeo_time ?x) < key b (timeo_time t)) (next_timeout s)"
    using assms(4) by (intro time.serial_insert_position) simp_all
  moreover have "sys_timeout msecs h arg s = ret (s\<lparr>next_timeout := timeo_insert ?x (next_timeout s),
      memp_sys_timeout := fst (do_memp_malloc_pool (memp_sys_timeout s))\<rparr>)"
    using assms(3) by (simp add: sys_timeout_def sys_timeout_abs_eq [OF assms(2)])
  ultimately show ?thesis
    using timeo_inv_insert [OF assms(1,2,4), of h arg]
    by (intro exI [of _ "s\<lparr>next_timeout := timeo_insert ?x (next_timeout s),
      memp_sys_timeout := fst (do_memp_malloc_pool (memp_sys_timeout s))\<rparr>"] exI [of _ ?x]) simp
qed

theorem sys_timeout_sorted_witness:
  "\<exists>s'. sys_timeout 8 No_handler 0 ex_timers = ret s' \<and> timeo_inv 0xffffff00 s' \<and>
     map timeo_time (next_timeout s') = [0xfffffff0, 0x18, 0x20]"
proof -
  have "tab (memp_sys_timeout ex_timers) \<noteq> []" "(8 :: u32) \<le> 0x3fffffff"
    "in_window 0xffffff00 (now_ms ex_timers + 8)"
    by (simp_all add: ex_timers_def in_window_def key_def)
  from sys_timeout_sorted [OF ex_timers_inv this, of No_handler 0] obtain s' x where
    "sys_timeout 8 No_handler 0 ex_timers = ret s'" "timeo_inv 0xffffff00 s'" "timeo_time x = now_ms ex_timers + 8"
    "next_timeout s' =
      filter (\<lambda>t. key 0xffffff00 (timeo_time t) \<le> key 0xffffff00 (timeo_time x)) (next_timeout ex_timers) @
      x # filter (\<lambda>t. key 0xffffff00 (timeo_time x) < key 0xffffff00 (timeo_time t)) (next_timeout ex_timers)"
    by blast
  then show ?thesis
    by (intro exI [of _ s']) (simp add: ex_timers_def ex_timeo_def key_def)
qed

text \<open>
  C22: \<open>sys_check_timeouts\<close> with the cyclic timers of the stack returns, although every timer puts
  itself back into the list. Afterwards no timeout that is due at the time of the call is left,
  every cyclic timer is still scheduled exactly as often as before, and the list is sorted.
  The handlers are only required to return and to leave the timeouts alone, and the clock not to
  run backwards or to leave the window.
\<close>

theorem sys_check_timeouts_returns:
  assumes "cyclic_handlers_ok E b lim" and "lim + 60000 < 2147483648" and "timeo_inv b s"
    and "\<forall>t \<in> set (next_timeout s). timeo_h t = Lwip_cyclic_timer \<and> timeo_arg t < length lwip_cyclic_timers"
    and "key b (now_ms s) \<le> lim"
  shows "\<exists>s'. sys_check_timeouts E s = ret s' \<and> timeo_inv b s' \<and>
    mset (map timeo_arg (next_timeout s')) = mset (map timeo_arg (next_timeout s)) \<and>
    (\<forall>t \<in> set (next_timeout s'). TIME_LESS_THAN (now_ms s) (timeo_time t))"
proof -
  let ?P = "cyclic_state b (now_ms s) lim (mset (map timeo_arg (next_timeout s)))"
  have "handlers_ok E b (now_ms s) ?P" using assms(1,2) by (rule cyclic_timers_ok)
  moreover have "in_window b (now_ms s)" using assms(2,5) by (simp add: in_window_def)
  moreover have "?P s" using assms(4,5) by (simp add: cyclic_state_def)
  ultimately show ?thesis
    using check_timeouts_loop_returns [OF _ _ assms(3)]
    by (force simp: sys_check_timeouts_def cyclic_state_def)
qed

theorem sys_check_timeouts_returns_witness:
  "\<exists>s'. sys_check_timeouts ex_tenv ex_timers = ret s' \<and> timeo_inv 0xffffff00 s' \<and>
     mset (map timeo_arg (next_timeout s')) = {#5, 1#} \<and>
     (\<forall>t \<in> set (next_timeout s'). TIME_LESS_THAN 0x10 (timeo_time t))"
proof -
  have "cyclic_handlers_ok ex_tenv 0xffffff00 1000"
    by (simp add: cyclic_handlers_ok_def ex_tenv_def)
  moreover have "1000 + 60000 < (2147483648 :: nat)" by simp
  moreover have "\<forall>t \<in> set (next_timeout ex_timers). timeo_h t = Lwip_cyclic_timer \<and>
      timeo_arg t < length lwip_cyclic_timers" "key 0xffffff00 (now_ms ex_timers) \<le> 1000"
    by (simp_all add: ex_timers_def ex_timeo_def lwip_cyclic_timers_def key_def)
  ultimately show ?thesis
    using sys_check_timeouts_returns [of ex_tenv "0xffffff00" 1000 ex_timers] ex_timers_inv
    by (simp add: ex_timers_def ex_timeo_def)
qed

text \<open>
  C23: \<open>sys_timeouts_sleeptime\<close> is the least delay after which the first timeout is due (0 when it is
  overdue), and its assertion never fails. After a pause, \<open>sys_restart_timeouts\<close> makes the first
  timeout due now and keeps the distances between all timeouts, so that the list is sorted in
  the window that starts now.
\<close>

theorem sys_timeouts_rebase:
  assumes "timeo_inv b s" and "in_window b (now_ms s)" and "next_timeout s = t # ts"
  shows "(\<exists>r. sys_timeouts_sleeptime s = ret r \<and>
       key b (now_ms s) + unat r = max (key b (now_ms s)) (key b (timeo_time t))) \<and>
    timeo_inv (now_ms s) (sys_restart_timeouts s) \<and>
    (\<forall>i < length (next_timeout s).
       key (now_ms s) (timeo_time (next_timeout (sys_restart_timeouts s) ! i)) =
       key b (timeo_time (next_timeout s ! i)) - key b (timeo_time t))"
proof (intro conjI)
  have sorted: "window_sorted b timeo_time (next_timeout s)"
    and addr: "distinct (map timeo_addr (next_timeout s) @ tab (memp_sys_timeout s))"
    using assms(1) by (simp_all add: timeo_inv_def)
  have w: "in_window b (timeo_time t)" using sorted assms(3) by (simp add: window_sorted_Cons)
  show "\<exists>r. sys_timeouts_sleeptime s = ret r \<and>
      key b (now_ms s) + unat r = max (key b (now_ms s)) (key b (timeo_time t))"
    using TIME_LESS_THAN_key [OF w assms(2)] unat_diff_key [OF w assms(2)] w
    by (auto simp: sys_timeouts_sleeptime_def assms(3) Let_def in_window_def word_le_nat_alt not_less)
  have x: "key (now_ms s) (timeo_time x - timeo_time t + now_ms s) = key b (timeo_time x) - key b (timeo_time t)"
    "key b (timeo_time t) \<le> key b (timeo_time x)" "in_window b (timeo_time x)" if "x \<in> set (next_timeout s)" for x
  proof -
    show "key b (timeo_time t) \<le> key b (timeo_time x)" "in_window b (timeo_time x)"
      using sorted that by (auto simp: assms(3) window_sorted_Cons window_sorted_def)
    then show "key (now_ms s) (timeo_time x - timeo_time t + now_ms s) = key b (timeo_time x) - key b (timeo_time t)"
      using unat_diff_key [of b "timeo_time x" "timeo_time t"] w by (simp add: key_def)
  qed
  let ?f = "\<lambda>x. x\<lparr>timeo_time := (timeo_time x - timeo_time t) + now_ms s\<rparr>"
  have r: "sys_restart_timeouts s = s\<lparr>next_timeout := map ?f (next_timeout s)\<rparr>"
    by (simp add: sys_restart_timeouts_def assms(3) Let_def)
  then show "\<forall>i < length (next_timeout s).
      key (now_ms s) (timeo_time (next_timeout (sys_restart_timeouts s) ! i)) =
      key b (timeo_time (next_timeout s ! i)) - key b (timeo_time t)"
    by (simp add: x(1) [unfolded add.commute [of _ "now_ms s"]] add.commute)
  have "sorted (map (\<lambda>x. key b (timeo_time x) - key b (timeo_time t)) (next_timeout s))"
    using sorted by (auto simp: window_sorted_def sorted_iff_nth_mono diff_le_mono)
  then have "sorted (map (\<lambda>x. key (now_ms s) (timeo_time (?f x))) (next_timeout s))"
    by (simp add: x(1) cong: map_cong)
  moreover have "in_window (now_ms s) (timeo_time (?f y))" if "y \<in> set (next_timeout s)" for y
    using x [OF that] by (simp add: in_window_def)
  ultimately show "timeo_inv (now_ms s) (sys_restart_timeouts s)"
    using addr by (auto simp: timeo_inv_def window_sorted_def r o_def)
qed

theorem sys_timeouts_rebase_witness:
  "\<exists>r. sys_timeouts_sleeptime ex_timers = ret r \<and> r = 0 \<and>
     timeo_inv 0x10 (sys_restart_timeouts ex_timers)"
proof -
  have "in_window 0xffffff00 (now_ms ex_timers)"
    "next_timeout ex_timers = ex_timeo 100 0xfffffff0 5 # [ex_timeo 140 0x20 1]"
    by (simp_all add: ex_timers_def in_window_def key_def)
  from sys_timeouts_rebase [OF ex_timers_inv this] show ?thesis
    by (auto simp: key_def ex_timers_def ex_timeo_def unat_eq_0)
qed

end
