(* ===== verification/Ip_Types.thy ===== *)
theory Ip_Types
  imports Memp
begin

text \<open>
  The data of the Internet protocols: \<open>struct ip_globals\<close> and \<open>IP_PCB\<close> of \<open>lwip/ip.h\<close>,
  \<open>struct ip_reassdata\<close> of \<open>lwip/ip4_frag.h\<close>, the protocol control blocks of \<open>lwip/udp.h\<close> and
  \<open>lwip/raw.h\<close> with the members that are compiled in, and one record per module for the static
  variables of \<open>core/ipv4/ip4.c\<close> and \<open>core/ipv4/ip4_frag.c\<close>, of \<open>core/udp.c\<close> and of
  \<open>core/raw.c\<close>. Linked lists are lists of addresses, so the structs have no \<open>next\<close>; the maps
  give the fields of the live ones. A receive callback is \<open>NULL\<close> or the number of a function.
\<close>

record stats_proto =
  sp_xmit :: u16
  sp_recv :: u16
  sp_fw :: u16
  sp_drop :: u16
  sp_chkerr :: u16
  sp_lenerr :: u16
  sp_memerr :: u16
  sp_rterr :: u16
  sp_proterr :: u16
  sp_opterr :: u16
  sp_err :: u16
  sp_cachehit :: u16

record ip_globals =
  current_netif :: "nat option"
  current_input_netif :: "nat option"
  current_ip4_header :: "nat option"
  current_ip_header_tot_len :: u16
  current_iphdr_src :: u32
  current_iphdr_dest :: u32

record ip_reassdata =
  ipr_p :: "nat option"
  ipr_iphdr :: "u8 list"
  datagram_len :: u16
  ipr_flags :: u8
  ipr_timer :: u8

record ip4_state =
  ip_id :: u16
  reassdatagrams :: "nat list"
  reassdata :: "nat \<rightharpoonup> ip_reassdata"
  memp_reassdata :: memp_desc
  ip_reass_pbufcount :: u16
  ip_frag_stats :: stats_proto

record ip_pcb =
  local_ip :: u32
  remote_ip :: u32
  netif_idx :: u8
  so_options :: u8
  pcb_tos :: u8
  pcb_ttl :: u8

record udp_pcb = ip_pcb +
  udp_flags :: u8
  local_port :: u16
  remote_port :: u16
  udp_recv_cb :: "nat option"
  udp_recv_arg :: nat

record udp_state =
  udp_pcbs :: "nat list"
  udp_pcb_map :: "nat \<rightharpoonup> udp_pcb"
  memp_udp_pcb :: memp_desc
  udp_port :: u16
  udp_stats :: stats_proto

record raw_pcb = ip_pcb +
  protocol :: u8
  raw_flags :: u8
  raw_recv_cb :: "nat option"
  raw_recv_arg :: nat

record raw_state =
  raw_pcbs :: "nat list"
  raw_pcb_map :: "nat \<rightharpoonup> raw_pcb"
  memp_raw_pcb :: memp_desc

end
