(* ===== verification/Lwip_State.thy ===== *)
theory Lwip_State
  imports Pbuf Netif_Types Ip_Types
begin

text \<open>
  The state that the layers above the packet buffers share, and access to it: the packet
  buffers, the ARP table of \<open>core/ipv4/etharp.c\<close>, the network interfaces and the globals of
  \<open>core/netif.c\<close>, the clients of address conflict detection (\<open>core/ipv4/acd.c\<close>) and the
  counters of \<open>lwip/stats.h\<close>.

  Pointers to a \<open>struct netif\<close> or a \<open>struct acd\<close> are addresses; \<open>netifs\<close> and \<open>acds\<close> give
  the fields of the live ones. The functions that the code calls through pointers and the
  kernel's \<open>rand\<close> are members of the record \<open>lenv\<close>. They may change the whole state;
  \<open>world\<close> is the part of it that belongs to them, such as the frames on the wire.
\<close>

section \<open>Data\<close>

datatype etharp_state =
    ETHARP_STATE_EMPTY
  | ETHARP_STATE_PENDING
  | ETHARP_STATE_STABLE
  | ETHARP_STATE_STABLE_REREQUESTING_1
  | ETHARP_STATE_STABLE_REREQUESTING_2

text \<open>\<open>state >= ETHARP_STATE_STABLE\<close>\<close>

definition stable :: "etharp_state \<Rightarrow> bool" where
  "stable st \<longleftrightarrow> st = ETHARP_STATE_STABLE \<or> st = ETHARP_STATE_STABLE_REREQUESTING_1 \<or>
     st = ETHARP_STATE_STABLE_REREQUESTING_2"

record etharp_entry =
  arp_q :: "nat option"
  arp_ipaddr :: u32
  arp_netif :: "nat option"
  arp_ethaddr :: "u8 list"
  arp_ctime :: u16
  arp_state :: etharp_state

datatype acd_state_enum =
    ACD_STATE_OFF
  | ACD_STATE_PROBE_WAIT
  | ACD_STATE_PROBING
  | ACD_STATE_ANNOUNCE_WAIT
  | ACD_STATE_ANNOUNCING
  | ACD_STATE_ONGOING
  | ACD_STATE_PASSIVE_ONGOING
  | ACD_STATE_RATE_LIMIT

datatype acd_callback_enum = ACD_IP_OK | ACD_RESTART_CLIENT | ACD_DECLINE

record acd =
  acd_next :: "nat option"
  acd_ipaddr :: u32
  acd_state :: acd_state_enum
  sent_num :: u8
  ttw :: u16
  lastconflict :: u8
  num_conflicts :: u8
  acd_conflict_callback :: nat

record 'w lwip =
  eps :: pstate
  arp_table :: "etharp_entry list"
  etharp_cached_entry :: nat
  netifs :: "nat \<rightharpoonup> netif"
  netif_list :: "nat list"
  netif_default :: "nat option"
  netif_num :: u8
  acds :: "nat \<rightharpoonup> acd"
  etharp_stats :: stats_proto
  link_stats :: stats_proto
  ip_stats :: stats_proto
  icmp_stats :: stats_proto
  ip_data :: ip_globals
  ip4 :: ip4_state
  udp :: udp_state
  raw :: raw_state
  world :: 'w

record 'w lenv =
  penv_of :: penv
  linkoutput_fn :: "nat \<Rightarrow> nat \<Rightarrow> nat \<Rightarrow> 'w lwip \<Rightarrow> ('w lwip \<times> err_t) res"
  acd_callback_fn :: "nat \<Rightarrow> nat \<Rightarrow> acd_callback_enum \<Rightarrow> 'w lwip \<Rightarrow> 'w lwip res"
  netif_init_fn :: "nat \<Rightarrow> nat \<Rightarrow> 'w lwip \<Rightarrow> ('w lwip \<times> err_t) res"
  netif_output_fn :: "nat \<Rightarrow> nat \<Rightarrow> nat \<Rightarrow> u32 \<Rightarrow> 'w lwip \<Rightarrow> ('w lwip \<times> err_t) res"
  tcp_input_fn :: "nat \<Rightarrow> nat \<Rightarrow> 'w lwip \<Rightarrow> 'w lwip res"
  tcp_netif_ip_addr_changed_fn :: "u32 \<Rightarrow> u32 option \<Rightarrow> 'w lwip \<Rightarrow> 'w lwip res"
  dhcp_network_changed_link_up_fn :: "nat \<Rightarrow> 'w lwip \<Rightarrow> 'w lwip res"
  udp_recv_fn :: "nat \<Rightarrow> nat \<Rightarrow> nat \<Rightarrow> nat \<Rightarrow> u32 \<Rightarrow> u16 \<Rightarrow> 'w lwip \<Rightarrow> 'w lwip res"
  raw_recv_fn :: "nat \<Rightarrow> nat \<Rightarrow> nat \<Rightarrow> nat \<Rightarrow> u32 \<Rightarrow> 'w lwip \<Rightarrow> ('w lwip \<times> u8) res"
  lwip_rand :: "'w lwip \<Rightarrow> 'w lwip \<times> u32"

abbreviation (input) ARP_TABLE_SIZE :: nat where "ARP_TABLE_SIZE \<equiv> 10"

section \<open>Access\<close>

definition netif_at :: "'w lwip \<Rightarrow> nat option \<Rightarrow> netif res" where
  "netif_at s nif = (case nif of None \<Rightarrow> fault Bad_pointer
     | Some a \<Rightarrow> (case netifs s a of None \<Rightarrow> fault Bad_pointer | Some n \<Rightarrow> ret n))"

definition netif_upd :: "'w lwip \<Rightarrow> nat \<Rightarrow> (netif \<Rightarrow> netif) \<Rightarrow> 'w lwip res" where
  "netif_upd s nif f = bindR (netif_at s (Some nif)) (\<lambda>n. ret (s\<lparr>netifs := (netifs s)(nif \<mapsto> f n)\<rparr>))"

definition acd_at :: "'w lwip \<Rightarrow> nat \<Rightarrow> acd res" where
  "acd_at s a = (case acds s a of None \<Rightarrow> fault Bad_pointer | Some c \<Rightarrow> ret c)"

definition acd_upd :: "'w lwip \<Rightarrow> nat \<Rightarrow> (acd \<Rightarrow> acd) \<Rightarrow> 'w lwip res" where
  "acd_upd s a f = bindR (acd_at s a) (\<lambda>c. ret (s\<lparr>acds := (acds s)(a \<mapsto> f c)\<rparr>))"

definition arp_entry :: "'w lwip \<Rightarrow> nat \<Rightarrow> etharp_entry res" where
  "arp_entry s i = (if i < ARP_TABLE_SIZE then ret (arp_table s ! i) else fault Out_of_bounds)"

definition arp_upd :: "'w lwip \<Rightarrow> nat \<Rightarrow> (etharp_entry \<Rightarrow> etharp_entry) \<Rightarrow> 'w lwip res" where
  "arp_upd s i f = bindR (arp_entry s i) (\<lambda>e. ret (s\<lparr>arp_table := (arp_table s)[i := f e]\<rparr>))"

definition liftP :: "'w lwip \<Rightarrow> (pstate \<times> 'a) res \<Rightarrow> ('w lwip \<times> 'a) res" where
  "liftP s m = bindR m (\<lambda>(ps, x). ret (s\<lparr>eps := ps\<rparr>, x))"

definition free_pbuf :: "'w lenv \<Rightarrow> 'w lwip \<Rightarrow> nat \<Rightarrow> 'w lwip res" where
  "free_pbuf E s p = bindR (pbuf_free (penv_of E) (eps s) (Some p)) (\<lambda>(ps, _). ret (s\<lparr>eps := ps\<rparr>))"

definition store_bytes :: "'w lwip \<Rightarrow> nat \<Rightarrow> u8 list \<Rightarrow> 'w lwip res" where
  "store_bytes s a xs =
     bindR (mwrite (memory (eps s)) a xs) (\<lambda>m. ret (s\<lparr>eps := (eps s)\<lparr>memory := m\<rparr>\<rparr>))"

abbreviation (input) mem :: "'w lwip \<Rightarrow> bytes" where "mem s \<equiv> memory (eps s)"

definition etharp_stats_inc :: "((u16 \<Rightarrow> u16) \<Rightarrow> stats_proto \<Rightarrow> stats_proto) \<Rightarrow> 'w lwip \<Rightarrow> 'w lwip" where
  "etharp_stats_inc f s = s\<lparr>etharp_stats := f (\<lambda>c. c + 1) (etharp_stats s)\<rparr>"

definition link_stats_inc :: "((u16 \<Rightarrow> u16) \<Rightarrow> stats_proto \<Rightarrow> stats_proto) \<Rightarrow> 'w lwip \<Rightarrow> 'w lwip" where
  "link_stats_inc f s = s\<lparr>link_stats := f (\<lambda>c. c + 1) (link_stats s)\<rparr>"

end
