(* ===== verification/Etharp.thy ===== *)
theory Etharp
  imports Lwip_State Ip4_Addr Lwip_Def
begin

text \<open>
  Address resolution: the operations of \<open>core/ipv4/etharp.c\<close> on the ARP table, and
  \<open>ethernet_output\<close> of \<open>netif/ethernet.c\<close>, through which they send. (\<open>etharp_input\<close> is in
  theory \<open>Ethernet\<close>, behind the conflict detection it calls.)

  A \<open>struct eth_addr\<close> is a list of six bytes. Structures in packets are read and written as
  bytes of the packet's memory at the offsets of the packed structures: \<open>struct eth_hdr\<close> has
  \<open>dest\<close> at 0, \<open>src\<close> at 6 and \<open>type\<close> at 12; \<open>struct etharp_hdr\<close> has \<open>hwtype\<close> at 0,
  \<open>proto\<close> at 2, \<open>hwlen\<close> at 4, \<open>protolen\<close> at 5, \<open>opcode\<close> at 6, \<open>shwaddr\<close> at 8,
  \<open>sipaddr\<close> at 14, \<open>dhwaddr\<close> at 18 and \<open>dipaddr\<close> at 24. With \<open>ARP_QUEUEING = 0\<close> an entry
  queues at most one packet. The macro \<open>LWIP_DEBUG\<close> is defined, so \<open>etharp_free_entry\<close>
  clears the whole entry.
\<close>

abbreviation (input) SIZEOF_ETH_HDR :: nat where "SIZEOF_ETH_HDR \<equiv> 14"
abbreviation (input) SIZEOF_ETHARP_HDR :: u16 where "SIZEOF_ETHARP_HDR \<equiv> 28"
abbreviation (input) ETH_HWADDR_LEN :: u8 where "ETH_HWADDR_LEN \<equiv> 6"
abbreviation (input) ETHTYPE_IP :: u16 where "ETHTYPE_IP \<equiv> 0x0800"
abbreviation (input) ETHTYPE_ARP :: u16 where "ETHTYPE_ARP \<equiv> 0x0806"
abbreviation (input) LWIP_IANA_HWTYPE_ETHERNET :: u16 where "LWIP_IANA_HWTYPE_ETHERNET \<equiv> 1"
abbreviation (input) ARP_REQUEST :: u16 where "ARP_REQUEST \<equiv> 1"
abbreviation (input) ARP_REPLY :: u16 where "ARP_REPLY \<equiv> 2"
abbreviation (input) ARP_MAXAGE :: u16 where "ARP_MAXAGE \<equiv> 300"
abbreviation (input) ARP_MAXPENDING :: u16 where "ARP_MAXPENDING \<equiv> 5"
abbreviation (input) ARP_AGE_REREQUEST_USED_UNICAST :: u16 where "ARP_AGE_REREQUEST_USED_UNICAST \<equiv> 270"
abbreviation (input) ARP_AGE_REREQUEST_USED_BROADCAST :: u16 where "ARP_AGE_REREQUEST_USED_BROADCAST \<equiv> 285"
abbreviation (input) ETHARP_FLAG_TRY_HARD :: u8 where "ETHARP_FLAG_TRY_HARD \<equiv> 1"
abbreviation (input) ETHARP_FLAG_FIND_ONLY :: u8 where "ETHARP_FLAG_FIND_ONLY \<equiv> 2"
abbreviation (input) NETIF_ADDR_IDX_MAX :: nat where "NETIF_ADDR_IDX_MAX \<equiv> 0x7F"
abbreviation (input) PBUF_TYPE_FLAG_DATA_VOLATILE :: u8 where "PBUF_TYPE_FLAG_DATA_VOLATILE \<equiv> 0x40"

definition ethbroadcast :: "u8 list" where
  "ethbroadcast = [0xff, 0xff, 0xff, 0xff, 0xff, 0xff]"

definition ethzero :: "u8 list" where
  "ethzero = [0, 0, 0, 0, 0, 0]"

section \<open>Sending\<close>

definition ethernet_output ::
  "'w lenv \<Rightarrow> 'w lwip \<Rightarrow> nat \<Rightarrow> nat \<Rightarrow> u8 list \<Rightarrow> u8 list \<Rightarrow> u16 \<Rightarrow> ('w lwip \<times> err_t) res" where
  "ethernet_output E s nif p src dst eth_type =
     (let eth_type_be = lwip_htons eth_type in
      bindR (liftP s (pbuf_add_header (eps s) (Some p) (of_nat SIZEOF_ETH_HDR))) (\<lambda>(s1, r).
      if r \<noteq> 0 then ret (link_stats_inc sp_lenerr_update s1, ERR_BUF)
      else
        bindR (deref (eps s1) (Some p)) (\<lambda>b.
        bindR (store_bytes s1 (payload b + 12) (bytes16 eth_type_be)) (\<lambda>s2.
        bindR (store_bytes s2 (payload b) dst) (\<lambda>s3.
        bindR (store_bytes s3 (payload b + 6) src) (\<lambda>s4.
        bindR (netif_at s4 (Some nif)) (\<lambda>n.
        bindR (lwip_assert (hwaddr_len n = ETH_HWADDR_LEN)) (\<lambda>_.
        linkoutput_fn E (linkoutput n) nif p s4))))))))"

definition etharp_raw ::
  "'w lenv \<Rightarrow> 'w lwip \<Rightarrow> nat option \<Rightarrow> u8 list \<Rightarrow> u8 list \<Rightarrow> u8 list \<Rightarrow> u32 \<Rightarrow> u8 list \<Rightarrow> u32 \<Rightarrow> u16 \<Rightarrow>
    ('w lwip \<times> err_t) res" where
  "etharp_raw E s nif ethsrc_addr ethdst_addr hwsrc_addr ipsrc_addr hwdst_addr ipdst_addr opcode =
     (case nif of None \<Rightarrow> fault Assertion | Some nifp \<Rightarrow>
      bindR (liftP s (pbuf_alloc (penv_of E) (eps s) PBUF_LINK SIZEOF_ETHARP_HDR PBUF_RAM)) (\<lambda>(s1, pp).
      case pp of
        None \<Rightarrow> ret (etharp_stats_inc sp_memerr_update s1, ERR_MEM)
      | Some p \<Rightarrow>
          bindR (deref (eps s1) (Some p)) (\<lambda>b.
          bindR (lwip_assert (len b \<ge> SIZEOF_ETHARP_HDR)) (\<lambda>_.
          let hdr = payload b in
          bindR (store_bytes s1 (hdr + 6) (bytes16 (lwip_htons opcode))) (\<lambda>s2.
          bindR (netif_at s2 nif) (\<lambda>n.
          bindR (lwip_assert (hwaddr_len n = ETH_HWADDR_LEN)) (\<lambda>_.
          bindR (store_bytes s2 (hdr + 8) hwsrc_addr) (\<lambda>s3.
          bindR (store_bytes s3 (hdr + 18) hwdst_addr) (\<lambda>s4.
          bindR (store_bytes s4 (hdr + 14) (bytes32 ipsrc_addr)) (\<lambda>s5.
          bindR (store_bytes s5 (hdr + 24) (bytes32 ipdst_addr)) (\<lambda>s6.
          bindR (store_bytes s6 hdr (bytes16 (lwip_htons LWIP_IANA_HWTYPE_ETHERNET))) (\<lambda>s7.
          bindR (store_bytes s7 (hdr + 2) (bytes16 (lwip_htons ETHTYPE_IP))) (\<lambda>s8.
          bindR (store_bytes s8 (hdr + 4) [ETH_HWADDR_LEN]) (\<lambda>s9.
          bindR (store_bytes s9 (hdr + 5) [4]) (\<lambda>s10.
          bindR (ethernet_output E s10 nifp p ethsrc_addr ethdst_addr ETHTYPE_ARP) (\<lambda>(s11, _).
          bindR (free_pbuf E (etharp_stats_inc sp_xmit_update s11) p) (\<lambda>s12.
          ret (s12, ERR_OK))))))))))))))))))"

definition etharp_request_dst ::
  "'w lenv \<Rightarrow> 'w lwip \<Rightarrow> nat option \<Rightarrow> u32 \<Rightarrow> u8 list \<Rightarrow> ('w lwip \<times> err_t) res" where
  "etharp_request_dst E s nif ipaddr hw_dst_addr =
     bindR (netif_at s nif) (\<lambda>n.
     etharp_raw E s nif (hwaddr n) hw_dst_addr (hwaddr n) (ip_addr n) ethzero ipaddr ARP_REQUEST)"

definition etharp_request :: "'w lenv \<Rightarrow> 'w lwip \<Rightarrow> nat option \<Rightarrow> u32 \<Rightarrow> ('w lwip \<times> err_t) res" where
  "etharp_request E s nif ipaddr = etharp_request_dst E s nif ipaddr ethbroadcast"

definition etharp_acd_probe :: "'w lenv \<Rightarrow> 'w lwip \<Rightarrow> nat option \<Rightarrow> u32 \<Rightarrow> ('w lwip \<times> err_t) res" where
  "etharp_acd_probe E s nif ipaddr =
     bindR (netif_at s nif) (\<lambda>n.
     etharp_raw E s nif (hwaddr n) ethbroadcast (hwaddr n) IPADDR_ANY ethzero ipaddr ARP_REQUEST)"

definition etharp_acd_announce :: "'w lenv \<Rightarrow> 'w lwip \<Rightarrow> nat option \<Rightarrow> u32 \<Rightarrow> ('w lwip \<times> err_t) res" where
  "etharp_acd_announce E s nif ipaddr =
     bindR (netif_at s nif) (\<lambda>n.
     etharp_raw E s nif (hwaddr n) ethbroadcast (hwaddr n) ipaddr ethzero ipaddr ARP_REQUEST)"

section \<open>The table\<close>

definition etharp_free_entry :: "'w lenv \<Rightarrow> 'w lwip \<Rightarrow> nat \<Rightarrow> 'w lwip res" where
  "etharp_free_entry E s i =
     bindR (arp_entry s i) (\<lambda>e.
     bindR (case arp_q e of
              None \<Rightarrow> ret s
            | Some p \<Rightarrow> bindR (free_pbuf E s p) (\<lambda>s1. arp_upd s1 i (\<lambda>e. e\<lparr>arp_q := None\<rparr>))) (\<lambda>s2.
     arp_upd s2 i (\<lambda>e. e\<lparr>arp_state := ETHARP_STATE_EMPTY, arp_ctime := 0, arp_netif := None,
                         arp_ipaddr := 0, arp_ethaddr := ethzero\<rparr>)))"

fun etharp_tmr_loop :: "'w lenv \<Rightarrow> nat list \<Rightarrow> 'w lwip \<Rightarrow> 'w lwip res" where
  "etharp_tmr_loop E [] s = ret s"
| "etharp_tmr_loop E (i # is) s =
     bindR (arp_entry s i) (\<lambda>e.
     bindR
       (if arp_state e \<noteq> ETHARP_STATE_EMPTY then
          bindR (arp_upd s i (\<lambda>e. e\<lparr>arp_ctime := arp_ctime e + 1\<rparr>)) (\<lambda>s1.
          bindR (arp_entry s1 i) (\<lambda>e1.
          if arp_ctime e1 \<ge> ARP_MAXAGE \<or>
             (arp_state e1 = ETHARP_STATE_PENDING \<and> arp_ctime e1 \<ge> ARP_MAXPENDING)
          then etharp_free_entry E s1 i
          else if arp_state e1 = ETHARP_STATE_STABLE_REREQUESTING_1
          then arp_upd s1 i (\<lambda>e. e\<lparr>arp_state := ETHARP_STATE_STABLE_REREQUESTING_2\<rparr>)
          else if arp_state e1 = ETHARP_STATE_STABLE_REREQUESTING_2
          then arp_upd s1 i (\<lambda>e. e\<lparr>arp_state := ETHARP_STATE_STABLE\<rparr>)
          else if arp_state e1 = ETHARP_STATE_PENDING
          then bindR (etharp_request E s1 (arp_netif e1) (arp_ipaddr e1)) (\<lambda>(s2, _). ret s2)
          else ret s1))
        else ret s)
       (\<lambda>s3. etharp_tmr_loop E is s3))"

definition etharp_tmr :: "'w lenv \<Rightarrow> 'w lwip \<Rightarrow> 'w lwip res" where
  "etharp_tmr E s = etharp_tmr_loop E [0..<ARP_TABLE_SIZE] s"

text \<open>
  The candidates that the sweep of \<open>etharp_find_entry\<close> remembers; \<open>Inl i\<close> is its early return
  with a matching entry.
\<close>

record candidates =
  c_empty :: nat
  old_pending :: nat
  old_stable :: nat
  old_queue :: nat
  age_pending :: u16
  age_stable :: u16
  age_queue :: u16

definition no_candidates :: candidates where
  "no_candidates = \<lparr>c_empty = ARP_TABLE_SIZE, old_pending = ARP_TABLE_SIZE,
     old_stable = ARP_TABLE_SIZE, old_queue = ARP_TABLE_SIZE,
     age_pending = 0, age_stable = 0, age_queue = 0\<rparr>"

fun find_entry_sweep ::
  "u32 option \<Rightarrow> nat option \<Rightarrow> etharp_entry list \<Rightarrow> nat \<Rightarrow> candidates \<Rightarrow> (nat + candidates) res" where
  "find_entry_sweep ipaddr nif [] i c = ret (Inr c)"
| "find_entry_sweep ipaddr nif (e # es) i c =
     (if c_empty c = ARP_TABLE_SIZE \<and> arp_state e = ETHARP_STATE_EMPTY
      then find_entry_sweep ipaddr nif es (Suc i) (c\<lparr>c_empty := i\<rparr>)
      else if arp_state e \<noteq> ETHARP_STATE_EMPTY then
        bindR (lwip_assert (arp_state e = ETHARP_STATE_PENDING \<or> stable (arp_state e))) (\<lambda>_.
        if ipaddr = Some (arp_ipaddr e) \<and> (nif = None \<or> nif = arp_netif e)
        then ret (Inl i)
        else find_entry_sweep ipaddr nif es (Suc i)
          (if arp_state e = ETHARP_STATE_PENDING then
             if arp_q e \<noteq> None then
               if arp_ctime e \<ge> age_queue c then c\<lparr>old_queue := i, age_queue := arp_ctime e\<rparr> else c
             else
               if arp_ctime e \<ge> age_pending c then c\<lparr>old_pending := i, age_pending := arp_ctime e\<rparr> else c
           else if stable (arp_state e) then
             if arp_ctime e \<ge> age_stable c then c\<lparr>old_stable := i, age_stable := arp_ctime e\<rparr> else c
           else c))
      else find_entry_sweep ipaddr nif es (Suc i) c)"

definition etharp_find_entry ::
  "'w lenv \<Rightarrow> 'w lwip \<Rightarrow> u32 option \<Rightarrow> u8 \<Rightarrow> nat option \<Rightarrow> ('w lwip \<times> (err_t + nat)) res" where
  "etharp_find_entry E s ipaddr flgs nif =
     bindR (find_entry_sweep ipaddr nif (arp_table s) 0 no_candidates) (\<lambda>r.
     case r of
       Inl i \<Rightarrow> ret (s, Inr i)
     | Inr c \<Rightarrow>
         if flgs AND ETHARP_FLAG_FIND_ONLY \<noteq> 0 \<or>
            (c_empty c = ARP_TABLE_SIZE \<and> flgs AND ETHARP_FLAG_TRY_HARD = 0)
         then ret (s, Inl ERR_MEM)
         else
           bindR
             (if c_empty c < ARP_TABLE_SIZE then ret (s, Inr (c_empty c))
              else
                bindR (if old_stable c < ARP_TABLE_SIZE then
                         bindR (arp_entry s (old_stable c)) (\<lambda>e.
                         bindR (lwip_assert (arp_q e = None)) (\<lambda>_. ret (Inr (old_stable c))))
                       else if old_pending c < ARP_TABLE_SIZE then ret (Inr (old_pending c))
                       else if old_queue c < ARP_TABLE_SIZE then ret (Inr (old_queue c))
                       else ret (Inl ERR_MEM)) (\<lambda>v.
                case v of
                  Inl err \<Rightarrow> ret (s, Inl err)
                | Inr i \<Rightarrow>
                    bindR (lwip_assert (i < ARP_TABLE_SIZE)) (\<lambda>_.
                    bindR (etharp_free_entry E s i) (\<lambda>s1. ret (s1, Inr i))))) (\<lambda>(s1, v).
           case v of
             Inl err \<Rightarrow> ret (s1, Inl err)
           | Inr i \<Rightarrow>
               bindR (lwip_assert (i < ARP_TABLE_SIZE)) (\<lambda>_.
               bindR (arp_entry s1 i) (\<lambda>e.
               bindR (lwip_assert (arp_state e = ETHARP_STATE_EMPTY)) (\<lambda>_.
               bindR (arp_upd s1 i (\<lambda>e. (case ipaddr of None \<Rightarrow> e | Some ip \<Rightarrow> e\<lparr>arp_ipaddr := ip\<rparr>)
                 \<lparr>arp_ctime := 0, arp_netif := nif\<rparr>)) (\<lambda>s2.
               ret (s2, Inr i)))))))"

definition etharp_update_arp_entry ::
  "'w lenv \<Rightarrow> 'w lwip \<Rightarrow> nat \<Rightarrow> u32 \<Rightarrow> u8 list \<Rightarrow> u8 \<Rightarrow> ('w lwip \<times> err_t) res" where
  "etharp_update_arp_entry E s nif ipaddr ethaddr flgs =
     bindR (netif_at s (Some nif)) (\<lambda>n.
     bindR (lwip_assert (hwaddr_len n = ETH_HWADDR_LEN)) (\<lambda>_.
     if ip4_addr_isany_val ipaddr \<or> ip4_addr_isbroadcast_u32 ipaddr n \<or> ip4_addr_ismulticast ipaddr
     then ret (s, ERR_ARG)
     else
       bindR (etharp_find_entry E s (Some ipaddr) flgs (Some nif)) (\<lambda>(s1, r).
       case r of
         Inl err \<Rightarrow> ret (s1, err)
       | Inr i \<Rightarrow>
           bindR (arp_upd s1 i (\<lambda>e. e\<lparr>arp_state := ETHARP_STATE_STABLE, arp_netif := Some nif,
             arp_ethaddr := ethaddr, arp_ctime := 0\<rparr>)) (\<lambda>s2.
           bindR (arp_entry s2 i) (\<lambda>e.
           case arp_q e of
             None \<Rightarrow> ret (s2, ERR_OK)
           | Some p \<Rightarrow>
               bindR (arp_upd s2 i (\<lambda>e. e\<lparr>arp_q := None\<rparr>)) (\<lambda>s3.
               bindR (netif_at s3 (Some nif)) (\<lambda>n1.
               bindR (ethernet_output E s3 nif p (hwaddr n1) ethaddr ETHTYPE_IP) (\<lambda>(s4, _).
               bindR (free_pbuf E s4 p) (\<lambda>s5.
               ret (s5, ERR_OK))))))))))"

fun etharp_cleanup_loop :: "'w lenv \<Rightarrow> nat list \<Rightarrow> nat option \<Rightarrow> 'w lwip \<Rightarrow> 'w lwip res" where
  "etharp_cleanup_loop E [] nif s = ret s"
| "etharp_cleanup_loop E (i # is) nif s =
     bindR (arp_entry s i) (\<lambda>e.
     bindR (if arp_state e \<noteq> ETHARP_STATE_EMPTY \<and> arp_netif e = nif then etharp_free_entry E s i else ret s)
       (\<lambda>s1. etharp_cleanup_loop E is nif s1))"

definition etharp_cleanup_netif :: "'w lenv \<Rightarrow> 'w lwip \<Rightarrow> nat option \<Rightarrow> 'w lwip res" where
  "etharp_cleanup_netif E s nif = etharp_cleanup_loop E [0..<ARP_TABLE_SIZE] nif s"

text \<open>
  \<open>etharp_find_addr\<close> returns -1 (\<open>None\<close>) or the index with what its result pointers point at.
\<close>

definition etharp_find_addr ::
  "'w lenv \<Rightarrow> 'w lwip \<Rightarrow> nat option \<Rightarrow> u32 option \<Rightarrow> ('w lwip \<times> (nat \<times> u8 list \<times> u32) option) res" where
  "etharp_find_addr E s nif ipaddr =
     bindR (etharp_find_entry E s ipaddr ETHARP_FLAG_FIND_ONLY nif) (\<lambda>(s1, r).
     case r of
       Inl _ \<Rightarrow> ret (s1, None)
     | Inr i \<Rightarrow>
         bindR (arp_entry s1 i) (\<lambda>e.
         ret (s1, if stable (arp_state e) then Some (i, arp_ethaddr e, arp_ipaddr e) else None)))"

definition etharp_get_entry :: "'w lwip \<Rightarrow> nat \<Rightarrow> (u32 \<times> nat option \<times> u8 list) option" where
  "etharp_get_entry s i =
     (if i < ARP_TABLE_SIZE \<and> stable (arp_state (arp_table s ! i))
      then Some (arp_ipaddr (arp_table s ! i), arp_netif (arp_table s ! i), arp_ethaddr (arp_table s ! i))
      else None)"

section \<open>Output of IP packets\<close>

definition etharp_output_to_arp_index ::
  "'w lenv \<Rightarrow> 'w lwip \<Rightarrow> nat \<Rightarrow> nat \<Rightarrow> nat \<Rightarrow> ('w lwip \<times> err_t) res" where
  "etharp_output_to_arp_index E s nif q arp_idx =
     bindR (arp_entry s arp_idx) (\<lambda>e.
     bindR (lwip_assert (stable (arp_state e))) (\<lambda>_.
     bindR
       (if arp_state e = ETHARP_STATE_STABLE then
          if arp_ctime e \<ge> ARP_AGE_REREQUEST_USED_BROADCAST then
            bindR (etharp_request E s (Some nif) (arp_ipaddr e)) (\<lambda>(s1, r).
            if r = ERR_OK
            then arp_upd s1 arp_idx (\<lambda>e. e\<lparr>arp_state := ETHARP_STATE_STABLE_REREQUESTING_1\<rparr>)
            else ret s1)
          else if arp_ctime e \<ge> ARP_AGE_REREQUEST_USED_UNICAST then
            bindR (etharp_request_dst E s (Some nif) (arp_ipaddr e) (arp_ethaddr e)) (\<lambda>(s1, r).
            if r = ERR_OK
            then arp_upd s1 arp_idx (\<lambda>e. e\<lparr>arp_state := ETHARP_STATE_STABLE_REREQUESTING_1\<rparr>)
            else ret s1)
          else ret s
        else ret s) (\<lambda>s2.
     bindR (netif_at s2 (Some nif)) (\<lambda>n.
     bindR (arp_entry s2 arp_idx) (\<lambda>e2.
     ethernet_output E s2 nif q (hwaddr n) (arp_ethaddr e2) ETHTYPE_IP)))))"

definition PBUF_NEEDS_COPY :: "pbuf \<Rightarrow> bool" where
  "PBUF_NEEDS_COPY b \<longleftrightarrow> type_internal b AND PBUF_TYPE_FLAG_DATA_VOLATILE \<noteq> 0"

partial_function (option) copy_needed_loop :: "pstate \<Rightarrow> nat option \<Rightarrow> bool res" where
  "copy_needed_loop s p =
     (if p = None then ret False
      else bindR (deref s p) (\<lambda>b.
           bindR (lwip_assert (len b \<noteq> tot_len b \<or> pnext b = None)) (\<lambda>_.
           if PBUF_NEEDS_COPY b then ret True else copy_needed_loop s (pnext b))))"

definition etharp_query_packet ::
  "'w lenv \<Rightarrow> 'w lwip \<Rightarrow> nat \<Rightarrow> nat \<Rightarrow> nat \<Rightarrow> err_t \<Rightarrow> ('w lwip \<times> err_t) res" where
  "etharp_query_packet E s nif i q result =
     bindR (arp_entry s i) (\<lambda>e.
     if stable (arp_state e) then
       bindR (netif_at s (Some nif)) (\<lambda>n.
       ethernet_output E (s\<lparr>etharp_cached_entry := i\<rparr>) nif q (hwaddr n) (arp_ethaddr e) ETHTYPE_IP)
     else if arp_state e = ETHARP_STATE_PENDING then
       bindR (copy_needed_loop (eps s) (Some q)) (\<lambda>copy_needed.
       bindR (if copy_needed then liftP s (pbuf_clone (penv_of E) (eps s) PBUF_LINK PBUF_RAM (Some q))
              else liftP s (bindR (pbuf_ref (eps s) (Some q)) (\<lambda>ps. ret (ps, Some q)))) (\<lambda>(s1, p).
       if p \<noteq> None then
         bindR (arp_entry s1 i) (\<lambda>e1.
         bindR (case arp_q e1 of None \<Rightarrow> ret s1 | Some old \<Rightarrow> free_pbuf E s1 old) (\<lambda>s2.
         bindR (arp_upd s2 i (\<lambda>e. e\<lparr>arp_q := p\<rparr>)) (\<lambda>s3.
         ret (s3, ERR_OK))))
       else ret (etharp_stats_inc sp_memerr_update s1, ERR_MEM)))
     else ret (s, result))"

definition etharp_query ::
  "'w lenv \<Rightarrow> 'w lwip \<Rightarrow> nat \<Rightarrow> u32 \<Rightarrow> nat option \<Rightarrow> ('w lwip \<times> err_t) res" where
  "etharp_query E s nif ipaddr q =
     bindR (netif_at s (Some nif)) (\<lambda>n.
     if ip4_addr_isbroadcast_u32 ipaddr n \<or> ip4_addr_ismulticast ipaddr \<or> ip4_addr_isany_val ipaddr
     then ret (s, ERR_ARG)
     else
       bindR (etharp_find_entry E s (Some ipaddr) ETHARP_FLAG_TRY_HARD (Some nif)) (\<lambda>(s1, r).
       case r of
         Inl err \<Rightarrow> ret (if q \<noteq> None then etharp_stats_inc sp_memerr_update s1 else s1, err)
       | Inr i \<Rightarrow>
           bindR (lwip_assert (i < NETIF_ADDR_IDX_MAX)) (\<lambda>_.
           bindR (arp_entry s1 i) (\<lambda>e.
           let is_new_entry = (arp_state e = ETHARP_STATE_EMPTY) in
           bindR (if is_new_entry
                  then arp_upd s1 i (\<lambda>e. e\<lparr>arp_state := ETHARP_STATE_PENDING, arp_netif := Some nif\<rparr>)
                  else ret s1) (\<lambda>s2.
           bindR (arp_entry s2 i) (\<lambda>e2.
           bindR (lwip_assert (arp_state e2 = ETHARP_STATE_PENDING \<or> stable (arp_state e2))) (\<lambda>_.
           bindR
             (if is_new_entry \<or> q = None then
                bindR (etharp_request E s2 (Some nif) ipaddr) (\<lambda>(s3, result).
                if result \<noteq> ERR_OK then ret (s3, result)
                else
                  bindR (arp_entry s3 i) (\<lambda>e3.
                  bindR (if arp_state e3 = ETHARP_STATE_PENDING \<and> \<not> is_new_entry
                         then arp_upd s3 i (\<lambda>e. e\<lparr>arp_ctime := 0\<rparr>) else ret s3) (\<lambda>s4.
                  ret (s4, result))))
              else ret (s2, ERR_MEM)) (\<lambda>(s5, result).
           case q of
             None \<Rightarrow> ret (s5, result)
           | Some qp \<Rightarrow> etharp_query_packet E s5 nif i qp result))))))))"

text \<open>The loop of \<open>etharp_output\<close> over the stable entries.\<close>

fun find_stable_loop :: "nat \<Rightarrow> u32 \<Rightarrow> etharp_entry list \<Rightarrow> nat \<Rightarrow> nat option" where
  "find_stable_loop nif dst_addr [] i = None"
| "find_stable_loop nif dst_addr (e # es) i =
     (if stable (arp_state e) \<and> arp_netif e = Some nif \<and> dst_addr = arp_ipaddr e then Some i
      else find_stable_loop nif dst_addr es (Suc i))"

definition multicast_ethaddr :: "u32 \<Rightarrow> u8 list" where
  "multicast_ethaddr ipaddr = [0x01, 0x00, 0x5e, (bytes32 ipaddr ! 1) AND 0x7f, bytes32 ipaddr ! 2, bytes32 ipaddr ! 3]"

definition etharp_output ::
  "'w lenv \<Rightarrow> 'w lwip \<Rightarrow> nat option \<Rightarrow> nat option \<Rightarrow> u32 \<Rightarrow> ('w lwip \<times> err_t) res" where
  "etharp_output E s nif q ipaddr =
     (case nif of None \<Rightarrow> fault Assertion | Some nifp \<Rightarrow>
      case q of None \<Rightarrow> fault Assertion | Some qp \<Rightarrow>
      bindR (netif_at s nif) (\<lambda>n.
      if ip4_addr_isbroadcast_u32 ipaddr n then
        ethernet_output E s nifp qp (hwaddr n) ethbroadcast ETHTYPE_IP
      else if ip4_addr_ismulticast ipaddr then
        ethernet_output E s nifp qp (hwaddr n) (multicast_ethaddr ipaddr) ETHTYPE_IP
      else
        let remote = (\<not> ip4_addr_net_eq ipaddr (ip_addr n) (netmask n) \<and> \<not> ip4_addr_islinklocal ipaddr) in
        if remote \<and> ip4_addr_isany_val (gw n) then ret (s, ERR_RTE)
        else
          let dst_addr = (if remote then gw n else ipaddr) in
          bindR (arp_entry s (etharp_cached_entry s)) (\<lambda>e.
          if stable (arp_state e) \<and> arp_netif e = nif \<and> dst_addr = arp_ipaddr e then
            etharp_output_to_arp_index E (etharp_stats_inc sp_cachehit_update s) nifp qp (etharp_cached_entry s)
          else
            (case find_stable_loop nifp dst_addr (arp_table s) 0 of
               Some i \<Rightarrow> etharp_output_to_arp_index E (s\<lparr>etharp_cached_entry := i\<rparr>) nifp qp i
             | None \<Rightarrow> etharp_query E s nifp dst_addr q))))"

end
