(* ===== verification/Acd.thy ===== *)
theory Acd
  imports Etharp
begin

text \<open>
  IPv4 address conflict detection (RFC 5227): all of \<open>core/ipv4/acd.c\<close>.

  \<open>ACD_TMR_INTERVAL\<close> is 100 ms, so a second has ten ticks. The list of clients of an interface
  is a linked list; the loops over it are \<open>partial_function\<close>s. \<open>acd_tmr\<close> visits the
  interfaces that are in \<open>netif_list\<close> when it is called. The conflict callback of a client is
  a function pointer (0 is \<open>NULL\<close>), called through \<open>acd_callback_fn\<close> of the environment.
\<close>

abbreviation (input) ACD_TICKS_PER_SECOND :: nat where "ACD_TICKS_PER_SECOND \<equiv> 10"
abbreviation (input) PROBE_WAIT :: nat where "PROBE_WAIT \<equiv> 1"
abbreviation (input) PROBE_MIN :: nat where "PROBE_MIN \<equiv> 1"
abbreviation (input) PROBE_MAX :: nat where "PROBE_MAX \<equiv> 2"
abbreviation (input) PROBE_NUM :: u8 where "PROBE_NUM \<equiv> 3"
abbreviation (input) ANNOUNCE_NUM :: u8 where "ANNOUNCE_NUM \<equiv> 2"
abbreviation (input) ANNOUNCE_INTERVAL :: nat where "ANNOUNCE_INTERVAL \<equiv> 2"
abbreviation (input) ANNOUNCE_WAIT :: nat where "ANNOUNCE_WAIT \<equiv> 2"
abbreviation (input) MAX_CONFLICTS :: u8 where "MAX_CONFLICTS \<equiv> 10"
abbreviation (input) RATE_LIMIT_INTERVAL :: nat where "RATE_LIMIT_INTERVAL \<equiv> 60"
abbreviation (input) DEFEND_INTERVAL :: nat where "DEFEND_INTERVAL \<equiv> 10"

section \<open>Clients\<close>

definition ACD_RANDOM_PROBE_WAIT :: "u32 \<Rightarrow> u32" where
  "ACD_RANDOM_PROBE_WAIT r = r mod of_nat (PROBE_WAIT * ACD_TICKS_PER_SECOND)"

definition ACD_RANDOM_PROBE_INTERVAL :: "u32 \<Rightarrow> u32" where
  "ACD_RANDOM_PROBE_INTERVAL r =
     r mod of_nat ((PROBE_MAX - PROBE_MIN) * ACD_TICKS_PER_SECOND) + of_nat (PROBE_MIN * ACD_TICKS_PER_SECOND)"

partial_function (option) acd_on_list :: "'w lwip \<Rightarrow> nat option \<Rightarrow> nat \<Rightarrow> bool res" where
  "acd_on_list s acd2 acd =
     (case acd2 of
        None \<Rightarrow> ret False
      | Some a \<Rightarrow> if a = acd then ret True
                  else bindR (acd_at s a) (\<lambda>c. acd_on_list s (acd_next c) acd))"

definition acd_add :: "'w lwip \<Rightarrow> nat \<Rightarrow> nat \<Rightarrow> nat \<Rightarrow> ('w lwip \<times> err_t) res" where
  "acd_add s nif acd callback =
     bindR (lwip_assert (callback \<noteq> 0)) (\<lambda>_.
     bindR (acd_upd s acd (\<lambda>c. c\<lparr>acd_conflict_callback := callback\<rparr>)) (\<lambda>s1.
     bindR (netif_at s1 (Some nif)) (\<lambda>n.
     bindR (acd_on_list s1 (acd_list n) acd) (\<lambda>found.
     if found then ret (s1, ERR_OK)
     else
       bindR (acd_upd s1 acd (\<lambda>c. c\<lparr>acd_next := acd_list n\<rparr>)) (\<lambda>s2.
       bindR (netif_upd s2 nif (\<lambda>n. n\<lparr>acd_list := Some acd\<rparr>)) (\<lambda>s3.
       ret (s3, ERR_OK)))))))"

partial_function (option) acd_remove_loop ::
  "'w lwip \<Rightarrow> nat \<Rightarrow> nat \<Rightarrow> nat option \<Rightarrow> nat option \<Rightarrow> 'w lwip res" where
  "acd_remove_loop s nif acd prev acd2 =
     (case acd2 of
        None \<Rightarrow> fault Assertion
      | Some a \<Rightarrow>
          bindR (acd_at s a) (\<lambda>c.
          if a = acd then
            (case prev of
               Some p \<Rightarrow> acd_upd s p (\<lambda>pc. pc\<lparr>acd_next := acd_next c\<rparr>)
             | None \<Rightarrow> netif_upd s nif (\<lambda>n. n\<lparr>acd_list := acd_next c\<rparr>))
          else acd_remove_loop s nif acd (Some a) (acd_next c)))"

definition acd_remove :: "'w lwip \<Rightarrow> nat \<Rightarrow> nat \<Rightarrow> 'w lwip res" where
  "acd_remove s nif acd =
     bindR (netif_at s (Some nif)) (\<lambda>n. acd_remove_loop s nif acd None (acd_list n))"

definition acd_start :: "'w lenv \<Rightarrow> 'w lwip \<Rightarrow> nat \<Rightarrow> nat \<Rightarrow> u32 \<Rightarrow> ('w lwip \<times> err_t) res" where
  "acd_start E s nif acd ipaddr =
     bindR (acd_upd s acd (\<lambda>c. c\<lparr>sent_num := 0, lastconflict := 0, acd_ipaddr := ipaddr,
       acd_state := ACD_STATE_PROBE_WAIT\<rparr>)) (\<lambda>s1.
     case lwip_rand E s1 of (s2, r) \<Rightarrow>
     bindR (acd_upd s2 acd (\<lambda>c. c\<lparr>ttw := ucast (ACD_RANDOM_PROBE_WAIT r)\<rparr>)) (\<lambda>s3.
     ret (s3, ERR_OK)))"

definition acd_stop :: "'w lwip \<Rightarrow> nat option \<Rightarrow> ('w lwip \<times> err_t) res" where
  "acd_stop s acd =
     (case acd of
        None \<Rightarrow> ret (s, ERR_OK)
      | Some a \<Rightarrow> bindR (acd_upd s a (\<lambda>c. c\<lparr>acd_state := ACD_STATE_OFF\<rparr>)) (\<lambda>s1. ret (s1, ERR_OK)))"

partial_function (option) acd_stop_loop :: "'w lwip \<Rightarrow> nat option \<Rightarrow> 'w lwip res" where
  "acd_stop_loop s acd =
     (case acd of
        None \<Rightarrow> ret s
      | Some a \<Rightarrow>
          bindR (acd_stop s acd) (\<lambda>(s1, _).
          bindR (acd_at s1 a) (\<lambda>c. acd_stop_loop s1 (acd_next c))))"

definition acd_network_changed_link_down :: "'w lwip \<Rightarrow> nat \<Rightarrow> 'w lwip res" where
  "acd_network_changed_link_down s nif = bindR (netif_at s (Some nif)) (\<lambda>n. acd_stop_loop s (acd_list n))"

definition call_acd_callback :: "'w lenv \<Rightarrow> 'w lwip \<Rightarrow> nat \<Rightarrow> nat \<Rightarrow> acd_callback_enum \<Rightarrow> 'w lwip res" where
  "call_acd_callback E s acd nif st =
     bindR (acd_at s acd) (\<lambda>c. acd_callback_fn E (acd_conflict_callback c) nif st s)"

section \<open>The timer\<close>

text \<open>The body of the inner loop of \<open>acd_tmr\<close>: one tick of one client.\<close>

definition acd_tmr_client :: "'w lenv \<Rightarrow> 'w lwip \<Rightarrow> nat \<Rightarrow> nat \<Rightarrow> 'w lwip res" where
  "acd_tmr_client E s nif acd =
     bindR (acd_upd s acd (\<lambda>c. if lastconflict c > 0 then c\<lparr>lastconflict := lastconflict c - 1\<rparr> else c)) (\<lambda>s1.
     bindR (acd_upd s1 acd (\<lambda>c. if ttw c > 0 then c\<lparr>ttw := ttw c - 1\<rparr> else c)) (\<lambda>s2.
     bindR (acd_at s2 acd) (\<lambda>c.
     if acd_state c = ACD_STATE_PROBE_WAIT \<or> acd_state c = ACD_STATE_PROBING then
       if ttw c = 0 then
         bindR (acd_upd s2 acd (\<lambda>c. c\<lparr>acd_state := ACD_STATE_PROBING\<rparr>)) (\<lambda>s3.
         bindR (etharp_acd_probe E s3 (Some nif) (acd_ipaddr c)) (\<lambda>(s4, _).
         bindR (acd_upd s4 acd (\<lambda>c. c\<lparr>sent_num := sent_num c + 1\<rparr>)) (\<lambda>s5.
         bindR (acd_at s5 acd) (\<lambda>c5.
         if sent_num c5 \<ge> PROBE_NUM then
           acd_upd s5 acd (\<lambda>c. c\<lparr>acd_state := ACD_STATE_ANNOUNCE_WAIT, sent_num := 0,
             ttw := of_nat (ANNOUNCE_WAIT * ACD_TICKS_PER_SECOND)\<rparr>)
         else
           (case lwip_rand E s5 of (s6, r) \<Rightarrow>
            acd_upd s6 acd (\<lambda>c. c\<lparr>ttw := ucast (ACD_RANDOM_PROBE_INTERVAL r)\<rparr>))))))
       else ret s2
     else if acd_state c = ACD_STATE_ANNOUNCE_WAIT \<or> acd_state c = ACD_STATE_ANNOUNCING then
       if ttw c = 0 then
         bindR (if sent_num c = 0
                then acd_upd s2 acd (\<lambda>c. c\<lparr>acd_state := ACD_STATE_ANNOUNCING, num_conflicts := 0\<rparr>)
                else ret s2) (\<lambda>s3.
         bindR (etharp_acd_announce E s3 (Some nif) (acd_ipaddr c)) (\<lambda>(s4, _).
         bindR (acd_upd s4 acd (\<lambda>c. c\<lparr>ttw := of_nat (ANNOUNCE_INTERVAL * ACD_TICKS_PER_SECOND),
           sent_num := sent_num c + 1\<rparr>)) (\<lambda>s5.
         bindR (acd_at s5 acd) (\<lambda>c5.
         if sent_num c5 \<ge> ANNOUNCE_NUM then
           bindR (acd_upd s5 acd (\<lambda>c. c\<lparr>acd_state := ACD_STATE_ONGOING, sent_num := 0, ttw := 0\<rparr>)) (\<lambda>s6.
           call_acd_callback E s6 acd nif ACD_IP_OK)
         else ret s5))))
       else ret s2
     else if acd_state c = ACD_STATE_RATE_LIMIT then
       if ttw c = 0 then
         bindR (acd_stop s2 (Some acd)) (\<lambda>(s3, _). call_acd_callback E s3 acd nif ACD_RESTART_CLIENT)
       else ret s2
     else ret s2)))"

partial_function (option) acd_tmr_clients :: "'w lenv \<Rightarrow> 'w lwip \<Rightarrow> nat \<Rightarrow> nat option \<Rightarrow> 'w lwip res" where
  "acd_tmr_clients E s nif acd =
     (case acd of
        None \<Rightarrow> ret s
      | Some a \<Rightarrow>
          bindR (acd_tmr_client E s nif a) (\<lambda>s1.
          bindR (acd_at s1 a) (\<lambda>c. acd_tmr_clients E s1 nif (acd_next c))))"

fun acd_tmr_netifs :: "'w lenv \<Rightarrow> nat list \<Rightarrow> 'w lwip \<Rightarrow> 'w lwip res" where
  "acd_tmr_netifs E [] s = ret s"
| "acd_tmr_netifs E (nif # nifs) s =
     bindR (netif_at s (Some nif)) (\<lambda>n.
     bindR (acd_tmr_clients E s nif (acd_list n)) (\<lambda>s1. acd_tmr_netifs E nifs s1))"

definition acd_tmr :: "'w lenv \<Rightarrow> 'w lwip \<Rightarrow> 'w lwip res" where
  "acd_tmr E s = acd_tmr_netifs E (netif_list s) s"

section \<open>Conflicts\<close>

definition acd_restart :: "'w lenv \<Rightarrow> 'w lwip \<Rightarrow> nat \<Rightarrow> nat \<Rightarrow> 'w lwip res" where
  "acd_restart E s nif acd =
     bindR (acd_upd s acd (\<lambda>c. c\<lparr>num_conflicts := num_conflicts c + 1\<rparr>)) (\<lambda>s1.
     bindR (call_acd_callback E s1 acd nif ACD_DECLINE) (\<lambda>s2.
     bindR (acd_at s2 acd) (\<lambda>c.
     if num_conflicts c \<ge> MAX_CONFLICTS then
       acd_upd s2 acd (\<lambda>c. c\<lparr>acd_state := ACD_STATE_RATE_LIMIT,
         ttw := of_nat (RATE_LIMIT_INTERVAL * ACD_TICKS_PER_SECOND)\<rparr>)
     else
       bindR (acd_stop s2 (Some acd)) (\<lambda>(s3, _). call_acd_callback E s3 acd nif ACD_RESTART_CLIENT))))"

definition acd_handle_arp_conflict :: "'w lenv \<Rightarrow> 'w lwip \<Rightarrow> nat \<Rightarrow> nat \<Rightarrow> 'w lwip res" where
  "acd_handle_arp_conflict E s nif acd =
     bindR (acd_at s acd) (\<lambda>c.
     if acd_state c = ACD_STATE_PASSIVE_ONGOING then
       bindR (acd_stop s (Some acd)) (\<lambda>(s1, _). call_acd_callback E s1 acd nif ACD_DECLINE)
     else if lastconflict c > 0 then acd_restart E s nif acd
     else
       bindR (etharp_acd_announce E s (Some nif) (acd_ipaddr c)) (\<lambda>(s1, _).
       acd_upd s1 acd (\<lambda>c. c\<lparr>lastconflict := of_nat (DEFEND_INTERVAL * ACD_TICKS_PER_SECOND)\<rparr>)))"

partial_function (option) acd_arp_reply_loop ::
  "'w lenv \<Rightarrow> 'w lwip \<Rightarrow> nat \<Rightarrow> nat \<Rightarrow> u8 list \<Rightarrow> u32 \<Rightarrow> u32 \<Rightarrow> nat option \<Rightarrow> 'w lwip res" where
  "acd_arp_reply_loop E s nif hdr netifaddr sipaddr dipaddr acd =
     (case acd of
        None \<Rightarrow> ret s
      | Some a \<Rightarrow>
          bindR (acd_at s a) (\<lambda>c.
          bindR
            (if acd_state c = ACD_STATE_PROBE_WAIT \<or> acd_state c = ACD_STATE_PROBING \<or>
                acd_state c = ACD_STATE_ANNOUNCE_WAIT then
               bindR (if sipaddr = acd_ipaddr c then ret True
                      else if ip4_addr_isany_val sipaddr \<and> dipaddr = acd_ipaddr c
                      then bindR (mread (mem s) (hdr + 8) 6) (\<lambda>shwaddr. ret (netifaddr \<noteq> shwaddr))
                      else ret False) (\<lambda>conflict.
               if conflict then acd_restart E s nif a else ret s)
             else if acd_state c = ACD_STATE_ANNOUNCING \<or> acd_state c = ACD_STATE_ONGOING \<or>
                acd_state c = ACD_STATE_PASSIVE_ONGOING then
               bindR (if sipaddr = acd_ipaddr c
                      then bindR (mread (mem s) (hdr + 8) 6) (\<lambda>shwaddr. ret (netifaddr \<noteq> shwaddr))
                      else ret False) (\<lambda>conflict.
               if conflict then acd_handle_arp_conflict E s nif a else ret s)
             else ret s) (\<lambda>s1.
          bindR (acd_at s1 a) (\<lambda>c1.
          acd_arp_reply_loop E s1 nif hdr netifaddr sipaddr dipaddr (acd_next c1)))))"

definition acd_arp_reply :: "'w lenv \<Rightarrow> 'w lwip \<Rightarrow> nat \<Rightarrow> nat \<Rightarrow> 'w lwip res" where
  "acd_arp_reply E s nif hdr =
     bindR (netif_at s (Some nif)) (\<lambda>n.
     bindR (load32 (mem s) (hdr + 14)) (\<lambda>sipaddr.
     bindR (load32 (mem s) (hdr + 24)) (\<lambda>dipaddr.
     acd_arp_reply_loop E s nif hdr (hwaddr n) sipaddr dipaddr (acd_list n))))"

definition acd_put_in_passive_mode :: "'w lenv \<Rightarrow> 'w lwip \<Rightarrow> nat \<Rightarrow> nat \<Rightarrow> 'w lwip res" where
  "acd_put_in_passive_mode E s nif acd =
     bindR (acd_at s acd) (\<lambda>c.
     case acd_state c of
       ACD_STATE_PROBE_WAIT \<Rightarrow> bindR (acd_stop s (Some acd)) (\<lambda>(s1, _). call_acd_callback E s1 acd nif ACD_DECLINE)
     | ACD_STATE_PROBING \<Rightarrow> bindR (acd_stop s (Some acd)) (\<lambda>(s1, _). call_acd_callback E s1 acd nif ACD_DECLINE)
     | ACD_STATE_ANNOUNCE_WAIT \<Rightarrow> bindR (acd_stop s (Some acd)) (\<lambda>(s1, _). call_acd_callback E s1 acd nif ACD_DECLINE)
     | ACD_STATE_RATE_LIMIT \<Rightarrow> bindR (acd_stop s (Some acd)) (\<lambda>(s1, _). call_acd_callback E s1 acd nif ACD_DECLINE)
     | ACD_STATE_ANNOUNCING \<Rightarrow> acd_upd s acd (\<lambda>c. c\<lparr>acd_state := ACD_STATE_PASSIVE_ONGOING\<rparr>)
     | ACD_STATE_ONGOING \<Rightarrow> acd_upd s acd (\<lambda>c. c\<lparr>acd_state := ACD_STATE_PASSIVE_ONGOING\<rparr>)
     | _ \<Rightarrow> ret s)"

partial_function (option) acd_addr_changed_loop ::
  "'w lenv \<Rightarrow> 'w lwip \<Rightarrow> nat \<Rightarrow> u32 \<Rightarrow> u32 \<Rightarrow> nat option \<Rightarrow> 'w lwip res" where
  "acd_addr_changed_loop E s nif old_addr new_addr acd =
     (case acd of
        None \<Rightarrow> ret s
      | Some a \<Rightarrow>
          bindR (acd_at s a) (\<lambda>c.
          bindR (if acd_ipaddr c = old_addr \<and> ip4_addr_islinklocal old_addr \<and> \<not> ip4_addr_islinklocal new_addr
                 then acd_put_in_passive_mode E s nif a else ret s) (\<lambda>s1.
          bindR (acd_at s1 a) (\<lambda>c1. acd_addr_changed_loop E s1 nif old_addr new_addr (acd_next c1)))))"

definition acd_netif_ip_addr_changed :: "'w lenv \<Rightarrow> 'w lwip \<Rightarrow> nat \<Rightarrow> u32 \<Rightarrow> u32 \<Rightarrow> 'w lwip res" where
  "acd_netif_ip_addr_changed E s nif old_addr new_addr =
     (if ip4_addr_isany_val old_addr \<or> ip4_addr_isany_val new_addr then ret s
      else bindR (netif_at s (Some nif)) (\<lambda>n. acd_addr_changed_loop E s nif old_addr new_addr (acd_list n)))"

end
