(* ===== verification/Etharp_Send.thy ===== *)
theory Etharp_Send
  imports Etharp Pbuf_Copy
begin

text \<open>
  What \<open>ethernet_output\<close> and \<open>etharp_raw\<close> put on the wire. \<open>driver_ok\<close> states what the stack
  relies on of the driver; with it both functions are described by equations
  (\<open>ethernet_output_spec\<close>, \<open>etharp_raw_run\<close>), on which the lemmas of the ARP table, of conflict
  detection and of input rest.
\<close>

section \<open>Access to the state\<close>

lemma netif_at_Some [simp]: "netifs s a = Some n \<Longrightarrow> netif_at s (Some a) = ret n"
  by (simp add: netif_at_def)

lemma liftP_ret [simp]: "liftP s (ret (ps, x)) = ret (s\<lparr>eps := ps\<rparr>, x)"
  by (simp add: liftP_def)

lemma store_bytes_ok [simp]:
  "mapped (mem s) a (length xs) \<Longrightarrow>
    store_bytes s a xs = ret (s\<lparr>eps := (eps s)\<lparr>memory := put_bytes (mem s) a xs\<rparr>\<rparr>)"
  by (simp add: store_bytes_def mwrite_eq)

lemma mapped_put_bytesI: "mapped m b n \<Longrightarrow> mapped (put_bytes m a xs) b n"
  by (auto simp: mapped_def put_bytes_def)

lemma bytes_at_put_exact: "n = length xs \<Longrightarrow> bytes_at (put_bytes m a xs) a n = xs"
  by (simp add: bytes_at_put_same)

lemma length_bytes16 [simp]: "length (bytes16 v) = 2"
  by (simp add: bytes16_def)

lemma length_bytes32 [simp]: "length (bytes32 v) = 4"
  by (simp add: bytes32_def)

lemma stats_inc_simps [simp]:
  "eps (etharp_stats_inc f s) = eps s" "netifs (etharp_stats_inc f s) = netifs s"
  "arp_table (etharp_stats_inc f s) = arp_table s" "acds (etharp_stats_inc f s) = acds s"
  "world (etharp_stats_inc f s) = world s" "netif_list (etharp_stats_inc f s) = netif_list s"
  "etharp_cached_entry (etharp_stats_inc f s) = etharp_cached_entry s"
  "eps (link_stats_inc f s) = eps s" "netifs (link_stats_inc f s) = netifs s"
  "arp_table (link_stats_inc f s) = arp_table s" "acds (link_stats_inc f s) = acds s"
  "world (link_stats_inc f s) = world s" "netif_list (link_stats_inc f s) = netif_list s"
  "etharp_cached_entry (link_stats_inc f s) = etharp_cached_entry s"
  by (simp_all add: etharp_stats_inc_def link_stats_inc_def)

section \<open>Frames\<close>

text \<open>
  The frames of Ethernet and the packets of RFC 826 as byte strings; numbers are big-endian,
  addresses are in network order in memory already.
\<close>

definition be16 :: "u16 \<Rightarrow> u8 list" where
  "be16 v = [ucast (drop_bit 8 v), ucast v]"

definition eth_frame :: "u8 list \<Rightarrow> u8 list \<Rightarrow> u16 \<Rightarrow> u8 list \<Rightarrow> u8 list" where
  "eth_frame dst src eth_type body = dst @ src @ be16 eth_type @ body"

definition arp_packet :: "u16 \<Rightarrow> u8 list \<Rightarrow> u32 \<Rightarrow> u8 list \<Rightarrow> u32 \<Rightarrow> u8 list" where
  "arp_packet opcode shw sip dhw dip =
     [0, 1, 8, 0, 6, 4] @ be16 opcode @ shw @ bytes32 sip @ dhw @ bytes32 dip"

lemma bytes16_htons [simp]: "bytes16 (lwip_htons v) = be16 v"
proof -
  have "(ucast (lwip_htons v) :: u8) = ucast (drop_bit 8 v)"
    unfolding lwip_htons_def
    by (rule bit_word_eqI) (auto simp: bit_simps mask_consts dest: bit_imp_le_length)
  moreover have "(ucast (drop_bit 8 (lwip_htons v)) :: u8) = ucast v"
    unfolding lwip_htons_def
    by (rule bit_word_eqI) (auto simp: bit_simps mask_consts dest: bit_imp_le_length)
  ultimately show ?thesis by (simp add: bytes16_def be16_def)
qed

lemma length_be16 [simp]: "length (be16 v) = 2"
  by (simp add: be16_def)

lemma length_arp_packet [simp]: "length shw = 6 \<Longrightarrow> length dhw = 6 \<Longrightarrow> length (arp_packet opcode shw sip dhw dip) = 28"
  by (simp add: arp_packet_def)

lemma be16_consts: "be16 1 = [0, 1]" "be16 0x0800 = [8, 0]" "be16 0x0806 = [8, 6]" "be16 2 = [0, 2]"
  by (simp_all add: be16_def) 

section \<open>ethernet\_output\<close>

text \<open>
  What the stack relies on of the driver behind \<open>netif->linkoutput\<close>: it outputs the pbuf as is
  and touches nothing of the stack's state. \<open>tx\<close> is its effect on the world, given the
  function pointer, the interface and the bytes of the frame.
\<close>

definition driver_ok :: "'w lenv \<Rightarrow> (nat \<Rightarrow> nat \<Rightarrow> u8 list \<Rightarrow> 'w \<Rightarrow> 'w \<times> err_t) \<Rightarrow> bool" where
  "driver_ok E tx \<longleftrightarrow> (\<forall>f nif p s as. chain (pbufs (eps s)) (Some p) as \<longrightarrow> readable (eps s) as \<longrightarrow>
     linkoutput_fn E f nif p s =
       ret (s\<lparr>world := fst (tx f nif (data (eps s) as) (world s))\<rparr>, snd (tx f nif (data (eps s) as) (world s))))"

lemma driver_run:
  assumes "driver_ok E tx" and "chain (pbufs ps) (Some p) as" and "readable ps as" and "data ps as = d"
  shows "linkoutput_fn E f nif p (s\<lparr>eps := ps\<rparr>) =
    ret (s\<lparr>eps := ps, world := fst (tx f nif d (world s))\<rparr>, snd (tx f nif d (world s)))"
  using assms(1) [unfolded driver_ok_def, rule_format, of "s\<lparr>eps := ps\<rparr>" p as f nif] assms(2-4) by simp

text \<open>
  Room for a header of \<open>k\<close> bytes in front of the payload: the pbuf is contiguous, the total length
  does not overflow, and the bytes are accessible and belong to no pbuf of the tail.
\<close>

definition header_fits :: "pstate \<Rightarrow> nat \<Rightarrow> nat \<Rightarrow> bool" where
  "header_fits ps p k \<longleftrightarrow> (let b = the (pbufs ps p) in
     type_internal b AND PBUF_TYPE_FLAG_STRUCT_DATA_CONTIGUOUS \<noteq> 0 \<and>
     p + SIZEOF_STRUCT_PBUF \<le> payload b - k \<and> unat (tot_len b) + k < 65536)"

definition header_room :: "pstate \<Rightarrow> nat \<Rightarrow> nat list \<Rightarrow> nat \<Rightarrow> bool" where
  "header_room ps p as k \<longleftrightarrow> header_fits ps p k \<longrightarrow>
     mapped (memory ps) (payload (the (pbufs ps p)) - k) k \<and>
     (\<forall>x \<in> set as. apart (payload (the (pbufs ps p)) - k) k
        (payload (the (pbufs ps x))) (unat (len (the (pbufs ps x)))))"

definition with_header :: "pstate \<Rightarrow> nat \<Rightarrow> u8 list \<Rightarrow> pstate" where
  "with_header ps p h =
     (let b = the (pbufs ps p); k = length h in
      (upd ps p (b\<lparr>payload := payload b - k, len := len b + of_nat k, tot_len := tot_len b + of_nat k\<rparr>))
        \<lparr>memory := put_bytes (memory ps) (payload b - k) h\<rparr>)"

lemma pbuf_add_header_14:
  assumes "pbufs s p = Some b"
  shows "pbuf_add_header s (Some p) 14 =
    (if header_fits s p 14
     then ret (upd s p (b\<lparr>payload := payload b - 14, len := len b + 14, tot_len := tot_len b + 14\<rparr>), 0)
     else ret (s, 1))"
proof -
  have "(14 + tot_len b < 14) = (\<not> unat (tot_len b) + 14 < 65536)"
    using unat_u16_less [of "tot_len b"]
    by (simp add: word_less_nat_alt unat_word_ariths mod_if del: unat_u16_less) linarith
  then show ?thesis
    using assms by (auto simp: pbuf_add_header_def pbuf_add_header_impl_def header_fits_def Let_def not_less)
qed

lemma bytes_at_cat: "k = i + j \<Longrightarrow> bytes_at m a k = bytes_at m a i @ bytes_at m (a + i) j"
  using bytes_at_split [of i k m a] by simp

lemma put_bytes_prepend: "put_bytes (put_bytes m (a + length xs) ys) a xs = put_bytes m a (xs @ ys)"
  by (rule ext) (auto simp: put_bytes_def nth_append)

lemma put_bytes_commute:
  "apart a (length xs) b (length ys) \<Longrightarrow>
    put_bytes (put_bytes m a xs) b ys = put_bytes (put_bytes m b ys) a xs"
  by (rule ext) (auto simp: put_bytes_def apart_def)

lemma data_with_header:
  assumes "chain (pbufs ps) (Some p) (p # as)" and "tot_ok (pbufs ps) (p # as)" and "header_fits ps p (length h)"
    and "header_room ps p as (length h)" and "readable ps (p # as)"
  shows "chain (pbufs (with_header ps p h)) (Some p) (p # as)"
    and "readable (with_header ps p h) (p # as)"
    and "data (with_header ps p h) (p # as) = h @ data ps (p # as)"
    and "tot_ok (pbufs (with_header ps p h)) (p # as)"
proof -
  obtain b where b: "pbufs ps p = Some b" using assms(1) by auto
  have p: "p \<notin> set as" using chain_distinct [OF assms(1)] by simp
  let ?k = "length h" and ?t = "with_header ps p h"
  have fits: "p + SIZEOF_STRUCT_PBUF \<le> payload b - ?k" "unat (tot_len b) + ?k < 65536"
    using assms(3) b by (simp_all add: header_fits_def Let_def)
  then have pl: "payload b - ?k + ?k = payload b" by linarith
  have room: "mapped (memory ps) (payload b - ?k) ?k"
    "\<And>x. x \<in> set as \<Longrightarrow> apart (payload b - ?k) ?k (payload (the (pbufs ps x))) (unat (len (the (pbufs ps x))))"
    using assms(3,4) b by (simp_all add: header_room_def)
  have le: "unat (len b) \<le> unat (tot_len b)" using assms(2) b by simp
  have len: "unat (len b + of_nat ?k) = unat (len b) + ?k" "unat (tot_len b + of_nat ?k) = unat (tot_len b) + ?k"
    using fits(2) le by (simp_all add: unat_word_ariths unat_of_nat)
  have pb: "pbufs ?t p = Some (b\<lparr>payload := payload b - ?k, len := len b + of_nat ?k, tot_len := tot_len b + of_nat ?k\<rparr>)"
    "\<And>x. x \<noteq> p \<Longrightarrow> pbufs ?t x = pbufs ps x" "memory ?t = put_bytes (memory ps) (payload b - ?k) h"
    using b by (auto simp: with_header_def Let_def fun_upd_apply)
  show "chain (pbufs ?t) (Some p) (p # as)" using assms(1) b p by (simp add: with_header_def Let_def)
  show "tot_ok (pbufs ?t) (p # as)" using assms(2) b p len by (simp add: with_header_def Let_def)
  have seg: "seg ?t p = h @ seg ps p"
    using pb(1,3) b pl len
    by (simp add: seg_def bytes_at_cat [of _ ?k "unat (len b)"] bytes_at_put_exact bytes_at_put_other apart_def)
  have "data ?t as = data ps as"
  proof (rule data_cong)
    fix x assume x: "x \<in> set as"
    then have "x \<noteq> p" using p by blast
    with room(2) [OF x] pb(2) [of x] pb(3) show "seg ?t x = seg ps x" by (simp add: seg_def bytes_at_put_other)
  qed
  with seg show "data ?t (p # as) = h @ data ps (p # as)" by simp
  have r: "mapped (memory ps) (payload b) (unat (len b))" using assms(5) b by simp
  have "mapped (memory ps) (payload b - ?k) (unat (len b) + ?k)"
    unfolding mapped_iff
  proof (intro allI impI)
    fix k assume k: "payload b - ?k \<le> k" "k < payload b - ?k + (unat (len b) + ?k)"
    show "memory ps k \<noteq> None"
      using room(1) r k pl by (cases "k < payload b") (auto simp: mapped_iff)
  qed
  moreover have "\<forall>x \<in> set as. mapped (memory ps) (payload (the (pbufs ps x))) (unat (len (the (pbufs ps x))))"
    using assms(5) by (simp add: readable_def)
  moreover have "\<forall>x \<in> set as. pbufs ?t x = pbufs ps x" using pb(2) p by metis
  ultimately show "readable ?t (p # as)"
    using pb(1,3) len by (auto simp: readable_def intro!: mapped_put_bytesI)
qed

lemma ethernet_output_spec:
  fixes eth_type :: u16
  assumes "driver_ok E tx" and "netifs s nif = Some n" and "hwaddr_len n = ETH_HWADDR_LEN"
    and "length src = 6" and "length dst = 6"
    and "chain (pbufs (eps s)) (Some p) (p # as)" and "tot_ok (pbufs (eps s)) (p # as)"
    and "header_room (eps s) p as 14" and "readable (eps s) (p # as)"
  defines "r \<equiv> tx (linkoutput n) nif (eth_frame dst src eth_type (data (eps s) (p # as))) (world s)"
  shows "ethernet_output E s nif p src dst eth_type =
    (if header_fits (eps s) p 14
     then ret (s\<lparr>eps := with_header (eps s) p (dst @ src @ be16 eth_type), world := fst r\<rparr>, snd r)
     else ret (link_stats_inc sp_lenerr_update s, ERR_BUF))"
proof (cases "header_fits (eps s) p 14")
  case True
  let ?h = "dst @ src @ be16 eth_type"
  have h: "length ?h = 14" using assms(4,5) by simp
  note data = data_with_header [OF assms(6,7), of ?h, unfolded h, OF True assms(8,9)]
  obtain b where b: "pbufs (eps s) p = Some b" using assms(6) by auto
  have room: "mapped (mem s) (payload b - 14) 14"
    using True assms(8) b by (simp add: header_room_def)
  then have m: "mapped (mem s) (payload b - 14) 6" "mapped (mem s) (payload b - 14 + 6) 6"
    "mapped (mem s) (payload b - 14 + 12) 2"
    using mapped_mono [OF room, of 0 6] mapped_mono [OF room, of 6 6] mapped_mono [OF room, of 12 2]
    by simp_all
  let ?a = "payload b - 14"
  have put: "put_bytes (put_bytes (put_bytes (mem s) (?a + 12) (be16 eth_type)) ?a dst) (?a + 6) src =
      put_bytes (mem s) ?a ?h"
    using assms(4,5)
    by (subst put_bytes_commute [of ?a dst "?a + 6" src]) (simp_all add: apart_def add.commute flip: put_bytes_prepend)
  have "linkoutput_fn E (linkoutput n) nif p (s\<lparr>eps := with_header (eps s) p ?h\<rparr>) =
      ret (s\<lparr>eps := with_header (eps s) p ?h, world := fst r\<rparr>, snd r)"
    unfolding r_def eth_frame_def using data(3) by (intro driver_run [OF assms(1) data(1,2)]) simp
  moreover have "with_header (eps s) p ?h =
      (upd (eps s) p (b\<lparr>payload := ?a, len := len b + 14, tot_len := tot_len b + 14\<rparr>))
        \<lparr>memory := put_bytes (mem s) ?a ?h\<rparr>"
    using b h by (simp add: with_header_def Let_def)
  ultimately show ?thesis
    using True b m assms(2,3,4,5) put
    by (simp add: ethernet_output_def pbuf_add_header_14 mapped_put_bytesI fun_upd_apply Let_def)
next
  case False
  obtain b where "pbufs (eps s) p = Some b" using assms(6) by auto
  with False show ?thesis by (simp add: ethernet_output_def pbuf_add_header_14)
qed

section \<open>etharp\_raw\<close>

lemma pbuf_alloc_RAM_run:
  fixes n layer :: u16
  defines "N \<equiv> SIZEOF_STRUCT_PBUF + unat layer + unat n"
  shows "pbuf_alloc E s layer n PBUF_RAM =
    (case malloc E s N of
       None \<Rightarrow> ret (s, None)
     | Some (q, xs) \<Rightarrow> ret (s\<lparr>
         pbufs := (pbufs s)(q \<mapsto> \<lparr>pnext = None, payload = q + (SIZEOF_STRUCT_PBUF + unat layer),
           tot_len = n, len = n, type_internal = 0x80, flags = 0, ref = 1, if_idx = 0\<rparr>),
         memory := (\<lambda>k. if q \<le> k \<and> k < q + SIZEOF_STRUCT_PBUF then None
           else if q \<le> k \<and> k < q + N then Some (xs ! (k - q)) else memory s k),
         blocks := (blocks s)(q \<mapsto> N)\<rparr>, Some q))"
proof -
  let ?pl = "ucast layer + ucast n :: usize"
  let ?al = "of_nat SIZEOF_STRUCT_PBUF + ?pl :: usize"
  have pl: "unat ?pl = unat layer + unat n"
    using unat_u16_less [of layer] unat_u16_less [of n]
    by (simp add: unat_word_ariths del: unat_u16_less)
  then have al: "unat ?al = N"
    using unat_u16_less [of layer] unat_u16_less [of n]
    by (simp add: N_def unat_word_ariths del: unat_u16_less)
  have "\<not> ?pl < ucast n" "\<not> ?al < ucast n" using pl al by (simp_all add: N_def word_less_nat_alt)
  with al show ?thesis
    by (cases s) (auto simp: pbuf_alloc_def Let_def mem_malloc_def pbuf_init_alloced_pbuf_def upd_def
        type_internal_RAM add.assoc cong: if_cong split: option.split)
qed

lemma free_pbuf_single:
  assumes "pbufs (eps s) p = Some b" and "pnext b = None" and "ref b = 1" and "std (eps s) p"
  shows "free_pbuf E s p = ret (s\<lparr>eps := std_free (eps s) p\<rparr>)"
  using assms by (simp add: free_pbuf_def pbuf_free_spec [where as = "[p]"])

text \<open>
  \<open>etharp_raw\<close> with a working driver either reports that there is no memory, or sends exactly
  the ARP packet in an Ethernet frame. In both cases the packet buffers are as before.
\<close>

definition raw_result ::
  "'w lenv \<Rightarrow> (nat \<Rightarrow> nat \<Rightarrow> u8 list \<Rightarrow> 'w \<Rightarrow> 'w \<times> err_t) \<Rightarrow> 'w lwip \<Rightarrow> nat \<Rightarrow> netif \<Rightarrow> u8 list \<Rightarrow>
    'w lwip \<times> err_t" where
  "raw_result E tx s nif n frame =
     (if malloc (penv_of E) (eps s) 66 = None then (etharp_stats_inc sp_memerr_update s, ERR_MEM)
      else (etharp_stats_inc sp_xmit_update s
              \<lparr>world := fst (tx (linkoutput n) nif frame (world s))\<rparr>, ERR_OK))"

lemma put_bytes_other: "\<not> (a \<le> k \<and> k < a + length xs) \<Longrightarrow> put_bytes m a xs k = m k"
  unfolding put_bytes_def by (rule if_not_P)

lemma bytes_at_28:
  "bytes_at m a 28 = bytes_at m a 2 @ bytes_at m (a + 2) 2 @ bytes_at m (a + 4) 2 @
     bytes_at m (a + 6) 2 @ bytes_at m (a + 8) 6 @ bytes_at m (a + 14) 4 @ bytes_at m (a + 18) 6 @
     bytes_at m (a + 24) 4"
  using bytes_at_cat [of 28 2 26 m a] bytes_at_cat [of 26 2 24 m "a + 2"] bytes_at_cat [of 24 2 22 m "a + 4"]
    bytes_at_cat [of 22 2 20 m "a + 6"] bytes_at_cat [of 20 6 14 m "a + 8"] bytes_at_cat [of 14 4 10 m "a + 14"]
    bytes_at_cat [of 10 6 4 m "a + 18"] by (simp add: add.assoc del: add_2_eq_Suc')

lemma bytes_at_4_5: "bytes_at m (a + 4) 2 = bytes_at m (a + 4) 1 @ bytes_at m (a + 5) 1"
  using bytes_at_cat [of 2 1 1 m "a + 4"] by (simp add: add.commute)

lemma bytes_at_arp:
  assumes "length shw = 6" and "length dhw = 6"
  shows "bytes_at (put_bytes (put_bytes (put_bytes (put_bytes (put_bytes (put_bytes (put_bytes (put_bytes
      (put_bytes m (a + 6) (be16 opcode)) (a + 8) shw) (a + 18) dhw) (a + 14) (bytes32 sip)) (a + 24) (bytes32 dip))
      a (be16 1)) (a + 2) (be16 0x0800)) (a + 4) [6]) (a + 5) [4]) a 28 = arp_packet opcode shw sip dhw dip"
  unfolding bytes_at_28 bytes_at_4_5
  using assms by (simp add: bytes_at_put_exact bytes_at_put_other apart_def arp_packet_def be16_consts)

lemma etharp_raw_run:
  assumes "driver_ok E tx" and "netifs s nif = Some n" and "hwaddr_len n = ETH_HWADDR_LEN"
    and "malloc_fresh (penv_of E) (eps s)"
    and "length ethsrc = 6" and "length ethdst = 6" and "length hwsrc = 6" and "length hwdst = 6"
  shows "etharp_raw E s (Some nif) ethsrc ethdst hwsrc ipsrc hwdst ipdst opcode =
    ret (raw_result E tx s nif n
      (eth_frame ethdst ethsrc ETHTYPE_ARP (arp_packet opcode hwsrc ipsrc hwdst ipdst)))"
proof (cases "malloc (penv_of E) (eps s) 66")
  case None
  then show ?thesis by (simp add: etharp_raw_def pbuf_alloc_RAM_run raw_result_def)
next
  case (Some r)
  obtain q xs where r: "malloc (penv_of E) (eps s) 66 = Some (q, xs)" using Some by (cases r) auto
  let ?b = "\<lparr>pnext = None, payload = q + 38, tot_len = 28, len = 28, type_internal = 0x80, flags = 0, ref = 1, if_idx = 0\<rparr> :: pbuf"
  let ?m = "\<lambda>k. if q \<le> k \<and> k < q + 24 then None
           else if q \<le> k \<and> k < q + 66 then Some (xs ! (k - q)) else mem s k"
  let ?ps = "(eps s)\<lparr>pbufs := (pbufs (eps s))(q \<mapsto> ?b), memory := ?m, blocks := (blocks (eps s))(q \<mapsto> 66)\<rparr>"
  have alloc: "pbuf_alloc (penv_of E) (eps s) 14 28 0x280 = ret (?ps, Some q)"
    using r by (simp add: pbuf_alloc_RAM_run cong: if_cong)
  have m: "mapped ?m x k" if "q + 24 \<le> x" "x + k \<le> q + 66" for x k
    using that by (auto simp: mapped_iff)
  let ?a = "q + 38"
  define m10 where "m10 = put_bytes (put_bytes (put_bytes (put_bytes (put_bytes (put_bytes (put_bytes (put_bytes
      (put_bytes ?m (?a + 6) (be16 opcode)) (?a + 8) hwsrc) (?a + 18) hwdst) (?a + 14) (bytes32 ipsrc)) (?a + 24) (bytes32 ipdst))
      ?a (be16 1)) (?a + 2) (be16 0x0800)) (?a + 4) [6]) (?a + 5) [4]"
  have m10: "bytes_at m10 (q + 38) 28 = arp_packet opcode hwsrc ipsrc hwdst ipdst"
    unfolding m10_def using assms(7,8) by (rule bytes_at_arp)
  have mapped: "mapped m10 x k" if "q + 24 \<le> x" "x + k \<le> q + 66" for x k
    unfolding m10_def using m [OF that] by (simp add: mapped_put_bytesI)
  have outside: "m10 k = ?m k" if "\<not> (q \<le> k \<and> k < q + 66)" for k
  proof -
    from that have "k < q \<or> q + 66 \<le> k" by linarith
    then show ?thesis unfolding m10_def using assms(7,8) by (elim disjE) (simp_all add: put_bytes_other)
  qed
  let ?ps10 = "?ps\<lparr>memory := m10\<rparr>"
  have raw: "etharp_raw E s (Some nif) ethsrc ethdst hwsrc ipsrc hwdst ipdst opcode =
     bindR (ethernet_output E (s\<lparr>eps := ?ps10\<rparr>) nif q ethsrc ethdst ETHTYPE_ARP) (\<lambda>(s11, _).
     bindR (free_pbuf E (etharp_stats_inc sp_xmit_update s11) q) (\<lambda>s12. ret (s12, ERR_OK)))"
    unfolding m10_def
    using assms(2,3,7,8) m by (simp add: etharp_raw_def alloc mapped_put_bytesI Let_def)
  have fresh: "pbufs (eps s) q = None" "blocks (eps s) q = None" "\<And>k. q \<le> k \<Longrightarrow> k < q + 66 \<Longrightarrow> mem s k = None"
  proof -
    have f: "\<forall>k. q \<le> k \<longrightarrow> k < q + 66 \<longrightarrow> mem s k = None" "\<forall>x. pbufs (eps s) x \<noteq> None \<longrightarrow> apart q 66 x 24"
      "blocks (eps s) q = None"
      using assms(4) r unfolding malloc_fresh_def by blast+
    then show "blocks (eps s) q = None" "\<And>k. q \<le> k \<Longrightarrow> k < q + 66 \<Longrightarrow> mem s k = None" by blast+
    show "pbufs (eps s) q = None" using f(2) by (cases "pbufs (eps s) q") (auto simp: apart_def dest: spec [of _ q])
  qed
  let ?frame = "eth_frame ethdst ethsrc ETHTYPE_ARP (arp_packet opcode hwsrc ipsrc hwdst ipdst)"
  let ?tx = "tx (linkoutput n) nif ?frame (world s)"
  let ?ps11 = "with_header ?ps10 q (ethdst @ ethsrc @ be16 ETHTYPE_ARP)"
  have out: "ethernet_output E (s\<lparr>eps := ?ps10\<rparr>) nif q ethsrc ethdst ETHTYPE_ARP =
      ret (s\<lparr>eps := ?ps11, world := fst ?tx\<rparr>, snd ?tx)"
    using m10 mapped assms(1,2,3,5,6)
    by (subst ethernet_output_spec [where as = "[]"])
       (simp_all add: header_fits_def header_room_def readable_def seg_def Let_def data_def)
  have heap: "pbuf_get_allocsrc (the (pbufs ?ps11 q)) = 0" and blk: "blocks ?ps11 q = Some 66"
    and pb: "pbufs ?ps11 q = Some (?b\<lparr>payload := q + 24, len := 42, tot_len := 42\<rparr>)"
    using assms(5,6) by (simp_all add: with_header_def Let_def pbuf_get_allocsrc_def)
  have "std_free ?ps11 q = eps s"
  proof -
    have "(\<lambda>k. if q \<le> k \<and> k < q + 66 then None else memory ?ps11 k) = mem s"
      using assms(5,6) fresh(3) outside
      by (auto simp: with_header_def Let_def put_bytes_other fun_eq_iff not_le not_less)
    then show ?thesis
      using heap blk fresh(1,2) unfolding std_free_def Let_def
      by (cases "eps s") (simp add: with_header_def Let_def upd_def fun_upd_idem)
  qed
  moreover have "std ?ps11 q" using heap blk pb by (simp add: std_def)
  ultimately have free: "free_pbuf E t q = ret (t\<lparr>eps := eps s\<rparr>)" if "eps t = ?ps11" for t
    using free_pbuf_single [of t q "?b\<lparr>payload := q + 24, len := 42, tot_len := 42\<rparr>" E] that pb by simp
  show ?thesis
    using r unfolding raw out
    by (cases s) (simp add: free raw_result_def etharp_stats_inc_def)
qed

end
