(* ===== verification/Etharp_Table.thy ===== *)
theory Etharp_Table
  imports Etharp_Send
begin

text \<open>
  The ARP table. \<open>table_ok\<close> is its invariant and \<open>arp_map\<close> the map from addresses to hardware
  addresses that it implements. The lemmas give the entry that \<open>etharp_find_entry\<close> selects
  (\<open>least_important\<close>) and the effect of \<open>etharp_free_entry\<close> and
  \<open>etharp_update_arp_entry\<close> on the table, on queued packets and on the wire.
\<close>

section \<open>The sweep of etharp\_find\_entry\<close>

abbreviation (input) occupied :: "etharp_entry \<Rightarrow> bool" where
  "occupied e \<equiv> arp_state e \<noteq> ETHARP_STATE_EMPTY"

definition entry_matches :: "u32 option \<Rightarrow> nat option \<Rightarrow> etharp_entry \<Rightarrow> bool" where
  "entry_matches ipaddr nif e \<longleftrightarrow>
     occupied e \<and> ipaddr = Some (arp_ipaddr e) \<and> (nif = None \<or> nif = arp_netif e)"

lemma not_stable_cases: "\<not> stable st \<Longrightarrow> st \<noteq> ETHARP_STATE_EMPTY \<Longrightarrow> st = ETHARP_STATE_PENDING"
  by (cases st) (auto simp: stable_def)

lemma state_assert: "st \<noteq> ETHARP_STATE_EMPTY \<Longrightarrow> st = ETHARP_STATE_PENDING \<or> stable st"
  using not_stable_cases by blast

lemma stable_simps [simp]:
  "\<not> stable ETHARP_STATE_EMPTY" "\<not> stable ETHARP_STATE_PENDING" "stable ETHARP_STATE_STABLE"
  "stable ETHARP_STATE_STABLE_REREQUESTING_1" "stable ETHARP_STATE_STABLE_REREQUESTING_2"
  by (simp_all add: stable_def)

lemma stable_occupied: "stable st \<Longrightarrow> st \<noteq> ETHARP_STATE_EMPTY"
  by auto

lemma sweep_match:
  "find_entry_sweep ipaddr nif es i c = ret (Inl j) \<longleftrightarrow>
    (\<exists>k. index_of (entry_matches ipaddr nif) es = Some k \<and> j = i + k)"
proof (induction es arbitrary: i c)
  case (Cons e es)
  show ?case
    by (cases "arp_state e = ETHARP_STATE_EMPTY")
       (auto simp: Cons.IH entry_matches_def state_assert)
qed simp

text \<open>The oldest entry with a property, the last one of several of the same age.\<close>

definition is_oldest :: "(etharp_entry \<Rightarrow> bool) \<Rightarrow> etharp_entry list \<Rightarrow> nat \<Rightarrow> bool" where
  "is_oldest P es j \<longleftrightarrow> j < length es \<and> P (es ! j) \<and>
     (\<forall>k < length es. P (es ! k) \<longrightarrow> arp_ctime (es ! k) \<le> arp_ctime (es ! j))"

text \<open>What a remembered candidate is after the entries \<open>es\<close>: none (10), or the oldest.\<close>

definition cand_ok :: "(etharp_entry \<Rightarrow> bool) \<Rightarrow> etharp_entry list \<Rightarrow> nat \<Rightarrow> u16 \<Rightarrow> bool" where
  "cand_ok P es j a \<longleftrightarrow>
     (if \<forall>e \<in> set es. \<not> P e then j = ARP_TABLE_SIZE \<and> a = 0
      else is_oldest P es j \<and> a = arp_ctime (es ! j))"

lemma cand_ok_skip: "\<not> P e \<Longrightarrow> length es < ARP_TABLE_SIZE \<Longrightarrow> cand_ok P es j a \<Longrightarrow> cand_ok P (es @ [e]) j a"
  by (auto simp: cand_ok_def is_oldest_def nth_append less_Suc_eq in_set_conv_nth split: if_splits)

lemma cand_ok_keep:
  "cand_ok P es j a \<Longrightarrow> \<not> a \<le> arp_ctime e \<Longrightarrow> cand_ok P (es @ [e]) j a"
  by (auto simp: cand_ok_def is_oldest_def nth_append less_Suc_eq in_set_conv_nth split: if_splits)

lemma cand_ok_take:
  "P e \<Longrightarrow> cand_ok P es j a \<Longrightarrow> a \<le> arp_ctime e \<Longrightarrow> cand_ok P (es @ [e]) (length es) (arp_ctime e)"
  by (auto simp: cand_ok_def is_oldest_def nth_append less_Suc_eq in_set_conv_nth split: if_splits
      dest: nth_mem intro: order_trans)

lemma cand_ok_step:
  "cand_ok P es j a \<Longrightarrow> length es < ARP_TABLE_SIZE \<Longrightarrow>
    cand_ok P (es @ [e]) (if P e \<and> a \<le> arp_ctime e then length es else j)
      (if P e \<and> a \<le> arp_ctime e then arp_ctime e else a)"
  using cand_ok_skip [of P e es j a] cand_ok_keep [of P es j a e] cand_ok_take [of P e es j a] by auto

abbreviation (input) waiting :: "etharp_entry \<Rightarrow> bool" where
  "waiting e \<equiv> arp_state e = ETHARP_STATE_PENDING \<and> arp_q e \<noteq> None"

abbreviation (input) asking :: "etharp_entry \<Rightarrow> bool" where
  "asking e \<equiv> arp_state e = ETHARP_STATE_PENDING \<and> arp_q e = None"

definition cands_ok :: "etharp_entry list \<Rightarrow> candidates \<Rightarrow> bool" where
  "cands_ok es c \<longleftrightarrow>
     c_empty c = (case index_of (\<lambda>e. \<not> occupied e) es of None \<Rightarrow> ARP_TABLE_SIZE | Some j \<Rightarrow> j) \<and>
     cand_ok (\<lambda>e. stable (arp_state e)) es (old_stable c) (age_stable c) \<and>
     cand_ok asking es (old_pending c) (age_pending c) \<and>
     cand_ok waiting es (old_queue c) (age_queue c)"

lemma index_of_append:
  "index_of P (xs @ [x]) = (case index_of P xs of Some i \<Rightarrow> Some i | None \<Rightarrow> if P x then Some (length xs) else None)"
  by (induction xs) (auto split: option.split)

lemma sweep_candidates:
  assumes "cands_ok es0 c" and "length es0 + length es \<le> ARP_TABLE_SIZE"
    and "\<forall>e \<in> set es. \<not> entry_matches ipaddr nif e"
  shows "\<exists>c'. find_entry_sweep ipaddr nif es (length es0) c = ret (Inr c') \<and> cands_ok (es0 @ es) c'"
  using assms
proof (induction es arbitrary: es0 c)
  case (Cons e es)
  have IH: "\<exists>c'. find_entry_sweep ipaddr nif es (Suc (length es0)) c1 = ret (Inr c') \<and> cands_ok (es0 @ e # es) c'"
    if "cands_ok (es0 @ [e]) c1" for c1
    using Cons.IH [OF that] Cons.prems by simp
  have short: "length es0 < ARP_TABLE_SIZE" using Cons.prems(2) by simp
  have c: "c_empty c = (case index_of (\<lambda>e. \<not> occupied e) es0 of None \<Rightarrow> ARP_TABLE_SIZE | Some j \<Rightarrow> j)"
    "cand_ok (\<lambda>e. stable (arp_state e)) es0 (old_stable c) (age_stable c)"
    "cand_ok asking es0 (old_pending c) (age_pending c)" "cand_ok waiting es0 (old_queue c) (age_queue c)"
    using Cons.prems(1) by (simp_all add: cands_ok_def)
  have full: "c_empty c = ARP_TABLE_SIZE \<longleftrightarrow> index_of (\<lambda>e. \<not> occupied e) es0 = None"
    using c(1) short by (auto simp: index_of_Some split: option.splits)
  show ?case
  proof (cases "arp_state e = ETHARP_STATE_EMPTY")
    case True
    show ?thesis
    proof (cases "c_empty c = ARP_TABLE_SIZE")
      case empty: True
      have "cands_ok (es0 @ [e]) (c\<lparr>c_empty := length es0\<rparr>)"
        using c full empty True short by (auto simp: cands_ok_def index_of_append intro!: cand_ok_skip)
      from IH [OF this] show ?thesis using True empty by simp
    next
      case False
      have "cands_ok (es0 @ [e]) c"
        using c full False True short by (auto simp: cands_ok_def index_of_append intro!: cand_ok_skip)
      from IH [OF this] show ?thesis using True False by simp
    qed
  next
    case occ: False
    have nomatch: "\<not> (ipaddr = Some (arp_ipaddr e) \<and> (nif = None \<or> nif = arp_netif e))"
      using Cons.prems(3) occ by (simp add: entry_matches_def)
    let ?c1 = "if arp_state e = ETHARP_STATE_PENDING then
             if arp_q e \<noteq> None then
               if arp_ctime e \<ge> age_queue c then c\<lparr>old_queue := length es0, age_queue := arp_ctime e\<rparr> else c
             else
               if arp_ctime e \<ge> age_pending c then c\<lparr>old_pending := length es0, age_pending := arp_ctime e\<rparr> else c
           else if stable (arp_state e) then
             if arp_ctime e \<ge> age_stable c then c\<lparr>old_stable := length es0, age_stable := arp_ctime e\<rparr> else c
           else c"
    consider "stable (arp_state e)" "arp_state e \<noteq> ETHARP_STATE_PENDING" | "asking e" | "waiting e"
      using state_assert [OF occ] by fastforce
    moreover have emp: "c_empty c = (case index_of (\<lambda>e. \<not> occupied e) (es0 @ [e]) of None \<Rightarrow> ARP_TABLE_SIZE | Some j \<Rightarrow> j)"
      using c(1) occ by (simp add: index_of_append split: option.split)
    note step = cand_ok_step [OF c(2) short, of e] cand_ok_step [OF c(3) short, of e] cand_ok_step [OF c(4) short, of e]
    ultimately have "cands_ok (es0 @ [e]) ?c1"
    proof cases
      case 1
      then show ?thesis
        using emp step by (cases "age_stable c \<le> arp_ctime e") (simp_all add: cands_ok_def)
    next
      case 2
      then show ?thesis
        using emp step by (cases "age_pending c \<le> arp_ctime e") (simp_all add: cands_ok_def)
    next
      case 3
      then obtain y where "arp_q e = Some y" "arp_state e = ETHARP_STATE_PENDING" by auto
      then show ?thesis
        using emp step by (cases "age_queue c \<le> arp_ctime e") (simp_all add: cands_ok_def)
    qed
    from IH [OF this] show ?thesis
      using occ nomatch state_assert [OF occ] by simp
  qed
qed simp

section \<open>Well-formed tables\<close>

text \<open>
  The table has its ten entries; only pending entries queue a packet; every entry in use has an
  interface; there is at most one entry in use for an address on an interface.
\<close>

definition table_ok :: "etharp_entry list \<Rightarrow> bool" where
  "table_ok es \<longleftrightarrow> length es = ARP_TABLE_SIZE \<and>
     (\<forall>e \<in> set es. arp_state e \<noteq> ETHARP_STATE_PENDING \<longrightarrow> arp_q e = None) \<and>
     (\<forall>e \<in> set es. occupied e \<longrightarrow> arp_netif e \<noteq> None) \<and>
     (\<forall>i < length es. \<forall>j < length es. occupied (es ! i) \<longrightarrow> occupied (es ! j) \<longrightarrow>
        arp_ipaddr (es ! i) = arp_ipaddr (es ! j) \<longrightarrow> arp_netif (es ! i) = arp_netif (es ! j) \<longrightarrow> i = j)"

text \<open>A packet that can be sent with an Ethernet header and released.\<close>

definition packet_chain :: "pstate \<Rightarrow> nat \<Rightarrow> nat list \<Rightarrow> bool" where
  "packet_chain ps p as \<longleftrightarrow> chain (pbufs ps) (Some p) (p # as) \<and> tot_ok (pbufs ps) (p # as) \<and>
     readable ps (p # as) \<and> header_room ps p as 14 \<and> releasable ps (p # as)"

definition packet_ok :: "pstate \<Rightarrow> nat \<Rightarrow> bool" where
  "packet_ok ps p \<longleftrightarrow> (\<exists>as. packet_chain ps p as)"

definition queues_ok :: "'w lwip \<Rightarrow> bool" where
  "queues_ok s \<longleftrightarrow> (\<forall>e \<in> set (arp_table s). \<forall>p. arp_q e = Some p \<longrightarrow> packet_ok (eps s) p)"

definition released :: "pstate \<Rightarrow> nat option \<Rightarrow> pstate \<Rightarrow> bool" where
  "released ps q ps' \<longleftrightarrow> (case q of None \<Rightarrow> ps' = ps
     | Some p \<Rightarrow> \<exists>as. chain (pbufs ps) (Some p) as \<and> ps' = free_spec ps as)"

lemma free_pbuf_chain:
  assumes "chain (pbufs (eps s)) (Some p) as" and "releasable (eps s) as"
  shows "free_pbuf E s p = ret (s\<lparr>eps := free_spec (eps s) as\<rparr>)"
proof -
  have "\<forall>a \<in> set as. ref (the (pbufs (eps s) a)) > 0" "\<forall>a \<in> set (gone (pbufs (eps s)) as). std (eps s) a"
    using assms(2) set_gone [of "pbufs (eps s)" as] by (auto simp: releasable_def)
  from pbuf_free_spec [OF assms(1) this, of "penv_of E"] show ?thesis by (simp add: free_pbuf_def)
qed

lemma free_pbuf_ok:
  assumes "packet_ok (eps s) p"
  shows "\<exists>ps. free_pbuf E s p = ret (s\<lparr>eps := ps\<rparr>) \<and> released (eps s) (Some p) ps"
proof -
  obtain as where "chain (pbufs (eps s)) (Some p) (p # as)" "releasable (eps s) (p # as)"
    using assms unfolding packet_ok_def packet_chain_def by blast
  from this(1) free_pbuf_chain [OF this] show ?thesis unfolding released_def option.case by blast
qed

lemma arp_entry_ok [simp]: "i < ARP_TABLE_SIZE \<Longrightarrow> arp_entry s i = ret (arp_table s ! i)"
  by (simp add: arp_entry_def)

lemma arp_upd_ok [simp]:
  "i < ARP_TABLE_SIZE \<Longrightarrow> arp_upd s i f = ret (s\<lparr>arp_table := (arp_table s)[i := f (arp_table s ! i)]\<rparr>)"
  by (simp add: arp_upd_def)

definition empty_entry :: etharp_entry where
  "empty_entry = \<lparr>arp_q = None, arp_ipaddr = 0, arp_netif = None, arp_ethaddr = ethzero, arp_ctime = 0,
     arp_state = ETHARP_STATE_EMPTY\<rparr>"

lemma etharp_free_entry_run:
  assumes "i < ARP_TABLE_SIZE" and "length (arp_table s) = ARP_TABLE_SIZE"
    and "\<And>p. arp_q (arp_table s ! i) = Some p \<Longrightarrow> packet_ok (eps s) p"
  shows "\<exists>ps. etharp_free_entry E s i = ret (s\<lparr>eps := ps, arp_table := (arp_table s)[i := empty_entry]\<rparr>) \<and>
    released (eps s) (arp_q (arp_table s ! i)) ps"
proof (cases "arp_q (arp_table s ! i)")
  case None
  then have "etharp_free_entry E s i = ret (s\<lparr>eps := eps s, arp_table := (arp_table s)[i := empty_entry]\<rparr>)"
    using assms(1) by (cases s; cases "arp_table s ! i") (simp add: etharp_free_entry_def empty_entry_def)
  with None show ?thesis unfolding released_def by (intro exI [of _ "eps s"]) simp
next
  case (Some p)
  then obtain ps where ps: "free_pbuf E s p = ret (s\<lparr>eps := ps\<rparr>)" "released (eps s) (Some p) ps"
    using free_pbuf_ok assms(3) by blast
  have "etharp_free_entry E s i = ret (s\<lparr>eps := ps, arp_table := (arp_table s)[i := empty_entry]\<rparr>)"
    using assms(1,2) Some ps(1)
    by (cases "arp_table s ! i") (simp add: etharp_free_entry_def empty_entry_def)
  with ps(2) Some show ?thesis by auto
qed

section \<open>etharp\_find\_entry\<close>

text \<open>
  How important an entry is for the choice of the entry to recycle, from free entries to entries
  with a queued packet, and the entry that is chosen.
\<close>

definition importance :: "etharp_entry \<Rightarrow> nat" where
  "importance e = (if \<not> occupied e then 0 else if stable (arp_state e) then 1
     else if arp_q e = None then 2 else 3)"

definition least_important :: "etharp_entry list \<Rightarrow> nat \<Rightarrow> bool" where
  "least_important es i \<longleftrightarrow> i < length es \<and>
     (\<forall>j < length es. importance (es ! i) < importance (es ! j) \<or>
        importance (es ! i) = importance (es ! j) \<and>
          (if occupied (es ! i) then arp_ctime (es ! j) \<le> arp_ctime (es ! i) else i \<le> j))"

definition fresh_entry :: "u32 \<Rightarrow> nat option \<Rightarrow> u8 list \<Rightarrow> etharp_entry" where
  "fresh_entry ip nif mac = \<lparr>arp_q = None, arp_ipaddr = ip, arp_netif = nif, arp_ethaddr = mac,
     arp_ctime = 0, arp_state = ETHARP_STATE_EMPTY\<rparr>"

lemma no_candidates_ok: "cands_ok [] no_candidates"
  by (simp add: cands_ok_def cand_ok_def no_candidates_def)

lemma cand_ok_full: "cand_ok P es j a \<Longrightarrow> length es = ARP_TABLE_SIZE \<Longrightarrow>
  (j < ARP_TABLE_SIZE \<longleftrightarrow> (\<exists>e \<in> set es. P e)) \<and> (j < ARP_TABLE_SIZE \<longrightarrow> is_oldest P es j)"
  by (auto simp: cand_ok_def is_oldest_def split: if_splits)

lemma is_oldest_least:
  assumes "is_oldest P es i" and "\<And>e. e \<in> set es \<Longrightarrow> P e \<longleftrightarrow> importance e = k"
    and "\<And>e. e \<in> set es \<Longrightarrow> k \<le> importance e" and "0 < k"
  shows "least_important es i"
proof -
  have i: "i < length es" "importance (es ! i) = k" using assms(1,2) by (auto simp: is_oldest_def)
  then have "occupied (es ! i)" using assms(4) by (auto simp: importance_def)
  moreover have "k < importance (es ! j) \<or> k = importance (es ! j) \<and> arp_ctime (es ! j) \<le> arp_ctime (es ! i)"
    if "j < length es" for j
    using that assms(1) assms(2,3) [OF nth_mem [OF that]] by (auto simp: is_oldest_def)
  ultimately show ?thesis using i by (simp add: least_important_def)
qed

lemma index_of_least:
  assumes "index_of (\<lambda>e. \<not> occupied e) es = Some i"
  shows "least_important es i"
  using assms by (auto simp: index_of_Some least_important_def importance_def intro: leI split: if_splits)

lemma sweep_full:
  assumes "length es = ARP_TABLE_SIZE" and "index_of (entry_matches ipaddr nif) es = None"
  obtains c where "find_entry_sweep ipaddr nif es 0 no_candidates = ret (Inr c)" and "cands_ok es c"
  using sweep_candidates [OF no_candidates_ok, of es ipaddr nif] assms by (auto simp: index_of_None)

text \<open>The choice between the candidates of a complete sweep.\<close>

definition victim :: "candidates \<Rightarrow> nat" where
  "victim c = (if c_empty c < ARP_TABLE_SIZE then c_empty c
     else if old_stable c < ARP_TABLE_SIZE then old_stable c
     else if old_pending c < ARP_TABLE_SIZE then old_pending c else old_queue c)"

lemma victim_least:
  assumes "cands_ok es c" and "length es = ARP_TABLE_SIZE"
  shows "least_important es (victim c)"
    and "c_empty c < ARP_TABLE_SIZE \<longleftrightarrow> (\<exists>e \<in> set es. \<not> occupied e)"
proof -
  note c = assms(1) [unfolded cands_ok_def]
  note st = cand_ok_full [OF conjunct1 [OF conjunct2 [OF c]] assms(2)]
    and pe = cand_ok_full [OF conjunct1 [OF conjunct2 [OF conjunct2 [OF c]]] assms(2)]
    and qu = cand_ok_full [OF conjunct2 [OF conjunct2 [OF conjunct2 [OF c]]] assms(2)]
  show empty: "c_empty c < ARP_TABLE_SIZE \<longleftrightarrow> (\<exists>e \<in> set es. \<not> occupied e)"
  proof (cases "index_of (\<lambda>e. \<not> occupied e) es")
    case None
    then show ?thesis using conjunct1 [OF c] index_of_None [THEN iffD1, OF None] by auto
  next
    case (Some j)
    then show ?thesis using conjunct1 [OF c] index_of_Some [THEN iffD1, OF Some] assms(2) nth_mem [of j es] by auto
  qed
  have imp: "occupied e \<Longrightarrow> stable (arp_state e) = (importance e = 1) \<and> asking e = (importance e = 2) \<and>
      waiting e = (importance e = 3) \<and> 1 \<le> importance e \<and> importance e \<le> 3" for e
    using state_assert [of "arp_state e"] by (auto simp: importance_def)
  consider "c_empty c < ARP_TABLE_SIZE" | "\<not> c_empty c < ARP_TABLE_SIZE" "old_stable c < ARP_TABLE_SIZE"
    | "\<not> c_empty c < ARP_TABLE_SIZE" "\<not> old_stable c < ARP_TABLE_SIZE" "old_pending c < ARP_TABLE_SIZE"
    | "\<not> c_empty c < ARP_TABLE_SIZE" "\<not> old_stable c < ARP_TABLE_SIZE" "\<not> old_pending c < ARP_TABLE_SIZE"
    by blast
  then show "least_important es (victim c)"
  proof cases
    case 1
    then have "index_of (\<lambda>e. \<not> occupied e) es = Some (c_empty c)"
      using conjunct1 [OF c] by (auto split: option.splits)
    with 1 show ?thesis by (simp add: victim_def index_of_least)
  next
    case 2
    then have "is_oldest (\<lambda>e. stable (arp_state e)) es (old_stable c)" using st by blast
    from is_oldest_least [OF this, of 1] have "least_important es (old_stable c)"
      using 2(1) empty imp by simp
    with 2 show ?thesis by (simp add: victim_def)
  next
    case 3
    then have old: "is_oldest asking es (old_pending c)" using pe by blast
    have "2 \<le> importance e" if "e \<in> set es" for e
      using 3(1,2) empty st imp [of e] that by force
    with is_oldest_least [OF old, of 2] have "least_important es (old_pending c)"
      using 3(1) empty imp by simp
    with 3 show ?thesis by (simp add: victim_def)
  next
    case 4
    have three: "importance e = 3" if "e \<in> set es" for e
    proof -
      have "occupied e" using 4(1) empty that by blast
      moreover have "importance e \<noteq> 1" "importance e \<noteq> 2"
        using 4(2,3) st pe imp [OF calculation] that by blast+
      ultimately show ?thesis using imp [of e] by linarith
    qed
    have occ: "\<And>e. e \<in> set es \<Longrightarrow> occupied e" using 4(1) empty by blast
    have w: "waiting e" if "e \<in> set es" for e using three [OF that] imp [OF occ [OF that]] by blast
    have "hd es \<in> set es" using assms(2) by (cases es) auto
    then have "is_oldest waiting es (old_queue c)" using qu w by blast
    from is_oldest_least [OF this, of 3] have "least_important es (old_queue c)"
      using three imp [OF occ] by simp
    with 4 show ?thesis by (simp add: victim_def)
  qed
qed

lemma etharp_find_entry_match:
  assumes "index_of (entry_matches ipaddr nif) (arp_table s) = Some i"
  shows "etharp_find_entry E s ipaddr flgs nif = ret (s, Inr i)"
proof -
  have "find_entry_sweep ipaddr nif (arp_table s) 0 no_candidates = ret (Inl i)"
    using assms by (simp add: sweep_match)
  then show ?thesis by (simp add: etharp_find_entry_def)
qed

lemma etharp_find_entry_none:
  assumes "index_of (entry_matches ipaddr nif) (arp_table s) = None" and "length (arp_table s) = ARP_TABLE_SIZE"
    and "flgs AND ETHARP_FLAG_FIND_ONLY \<noteq> 0 \<or>
      flgs AND ETHARP_FLAG_TRY_HARD = 0 \<and> (\<forall>e \<in> set (arp_table s). occupied e)"
  shows "etharp_find_entry E s ipaddr flgs nif = ret (s, Inl ERR_MEM)"
proof -
  obtain c where c: "find_entry_sweep ipaddr nif (arp_table s) 0 no_candidates = ret (Inr c)" "cands_ok (arp_table s) c"
    using sweep_full [OF assms(2,1)] .
  have "c_empty c \<le> ARP_TABLE_SIZE"
    using c(2) assms(2) by (auto simp: cands_ok_def index_of_Some split: option.split)
  with c victim_least(2) [OF c(2) assms(2)] assms(3) show ?thesis
    by (auto simp: etharp_find_entry_def)
qed

lemma etharp_find_entry_new:
  assumes "index_of (entry_matches (Some ip) nif) (arp_table s) = None"
    and "table_ok (arp_table s)" and "queues_ok s" and "flgs AND ETHARP_FLAG_FIND_ONLY = 0"
    and "flgs AND ETHARP_FLAG_TRY_HARD \<noteq> 0 \<or> (\<exists>e \<in> set (arp_table s). \<not> occupied e)"
  shows "\<exists>i ps mac. etharp_find_entry E s (Some ip) flgs nif =
      ret (s\<lparr>eps := ps, arp_table := (arp_table s)[i := fresh_entry ip nif mac]\<rparr>, Inr i) \<and>
    least_important (arp_table s) i \<and> released (eps s) (arp_q (arp_table s ! i)) ps"
proof -
  let ?t = "arp_table s"
  have len: "length ?t = ARP_TABLE_SIZE" and noq: "\<And>e. e \<in> set ?t \<Longrightarrow> arp_state e \<noteq> ETHARP_STATE_PENDING \<Longrightarrow> arp_q e = None"
    using assms(2) by (simp_all add: table_ok_def)
  obtain c where c: "find_entry_sweep (Some ip) nif ?t 0 no_candidates = ret (Inr c)" "cands_ok ?t c"
    using sweep_full [OF len assms(1)] .
  note least = victim_least [OF c(2) len]
  let ?i = "victim c"
  have i: "?i < ARP_TABLE_SIZE" "?t ! ?i \<in> set ?t" using least(1) len by (simp_all add: least_important_def)
  have le: "c_empty c \<le> ARP_TABLE_SIZE"
    using c(2) len by (auto simp: cands_ok_def index_of_Some split: option.split)
  show ?thesis
  proof (cases "c_empty c < ARP_TABLE_SIZE")
    case True
    then have v: "?i = c_empty c" by (simp add: victim_def)
    have "index_of (\<lambda>e. \<not> occupied e) ?t = Some (c_empty c)"
      using True c(2) by (cases "index_of (\<lambda>e. \<not> occupied e) ?t") (auto simp: cands_ok_def)
    then have e: "\<not> occupied (?t ! ?i)" unfolding v index_of_Some by blast
    have q: "arp_q (?t ! ?i) = None" using noq [OF i(2)] e by simp
    have "(?t ! ?i)\<lparr>arp_ipaddr := ip, arp_ctime := 0, arp_netif := nif\<rparr> = fresh_entry ip nif (arp_ethaddr (?t ! ?i))"
      using e q by (cases "?t ! ?i") (simp add: fresh_entry_def)
    then have "etharp_find_entry E s (Some ip) flgs nif =
        ret (s\<lparr>eps := eps s, arp_table := ?t[?i := fresh_entry ip nif (arp_ethaddr (?t ! ?i))]\<rparr>, Inr ?i)"
      using True c(1) assms(4) e by (cases s) (simp add: etharp_find_entry_def v)
    then show ?thesis using least(1) q unfolding released_def
      by (intro exI [of _ ?i] exI [of _ "eps s"] exI [of _ "arp_ethaddr (?t ! ?i)"]) simp
  next
    case False
    then have occ: "\<And>e. e \<in> set ?t \<Longrightarrow> occupied e" using least(2) by blast
    have full: "c_empty c = ARP_TABLE_SIZE" using False le by simp
    have hard: "flgs AND ETHARP_FLAG_TRY_HARD \<noteq> 0" using assms(5) occ by blast
    obtain ps where ps: "etharp_free_entry E s ?i = ret (s\<lparr>eps := ps, arp_table := ?t[?i := empty_entry]\<rparr>)"
      "released (eps s) (arp_q (?t ! ?i)) ps"
      using etharp_free_entry_run [OF i(1) len, of E] assms(3) i(2) unfolding queues_ok_def by blast
    have choice: "(if old_stable c < ARP_TABLE_SIZE then
           bindR (arp_entry s (old_stable c)) (\<lambda>e.
           bindR (lwip_assert (arp_q e = None)) (\<lambda>_. ret (Inr (old_stable c))))
         else if old_pending c < ARP_TABLE_SIZE then ret (Inr (old_pending c))
         else if old_queue c < ARP_TABLE_SIZE then ret (Inr (old_queue c))
         else ret (Inl ERR_MEM)) = ret (Inr ?i :: err_t + nat)"
    proof (cases "old_stable c < ARP_TABLE_SIZE")
      case st: True
      then have "is_oldest (\<lambda>e. stable (arp_state e)) ?t (old_stable c)"
        using c(2) cand_ok_full [OF _ len] unfolding cands_ok_def by blast
      then have "stable (arp_state (?t ! old_stable c))" "?t ! old_stable c \<in> set ?t" by (simp_all add: is_oldest_def)
      then have "arp_q (?t ! old_stable c) = None" using noq by force
      with st full show ?thesis by (simp add: victim_def)
    next
      case nst: False
      then show ?thesis using full i(1) by (simp add: victim_def split: if_splits)
    qed
    have "empty_entry\<lparr>arp_ipaddr := ip, arp_ctime := 0, arp_netif := nif\<rparr> = fresh_entry ip nif ethzero"
      by (simp add: fresh_entry_def empty_entry_def)
    then have "etharp_find_entry E s (Some ip) flgs nif =
        ret (s\<lparr>eps := ps, arp_table := ?t[?i := fresh_entry ip nif ethzero]\<rparr>, Inr ?i)"
      using full assms(4) hard i(1) len ps(1)
      unfolding etharp_find_entry_def c(1) bindR_simps sum.case choice
      by (simp add: empty_entry_def)
    with least(1) ps(2) show ?thesis by blast
  qed
qed

section \<open>etharp\_update\_arp\_entry\<close>

definition netif_ok :: "netif \<Rightarrow> bool" where
  "netif_ok n \<longleftrightarrow> hwaddr_len n = ETH_HWADDR_LEN \<and> length (hwaddr n) = 6"

definition unicast :: "u32 \<Rightarrow> netif \<Rightarrow> bool" where
  "unicast ip n \<longleftrightarrow> \<not> ip4_addr_isany_val ip \<and> \<not> ip4_addr_isbroadcast_u32 ip n \<and> \<not> ip4_addr_ismulticast ip"

definition stable_entry :: "u32 \<Rightarrow> nat \<Rightarrow> u8 list \<Rightarrow> etharp_entry" where
  "stable_entry ip nif mac = \<lparr>arp_q = None, arp_ipaddr = ip, arp_netif = Some nif, arp_ethaddr = mac,
     arp_ctime = 0, arp_state = ETHARP_STATE_STABLE\<rparr>"

lemma stable_entry_simps [simp]:
  "arp_q (stable_entry ip nif mac) = None" "arp_ipaddr (stable_entry ip nif mac) = ip"
  "arp_netif (stable_entry ip nif mac) = Some nif" "arp_ethaddr (stable_entry ip nif mac) = mac"
  "arp_state (stable_entry ip nif mac) = ETHARP_STATE_STABLE" "arp_ctime (stable_entry ip nif mac) = 0"
  by (simp_all add: stable_entry_def)

text \<open>The world after a packet was handed to \<open>ethernet_output\<close>.\<close>

definition sent :: "(nat \<Rightarrow> nat \<Rightarrow> u8 list \<Rightarrow> 'w \<Rightarrow> 'w \<times> err_t) \<Rightarrow> 'w lwip \<Rightarrow> nat \<Rightarrow> netif \<Rightarrow> nat \<Rightarrow>
    nat list \<Rightarrow> u8 list \<Rightarrow> 'w" where
  "sent tx s nif n p as mac =
     (if header_fits (eps s) p 14
      then fst (tx (linkoutput n) nif (eth_frame mac (hwaddr n) ETHTYPE_IP (data (eps s) (p # as))) (world s))
      else world s)"

definition headed :: "pstate \<Rightarrow> netif \<Rightarrow> nat \<Rightarrow> u8 list \<Rightarrow> pstate" where
  "headed ps n p mac = (if header_fits ps p 14 then with_header ps p (mac @ hwaddr n @ be16 ETHTYPE_IP) else ps)"

lemma with_header_releasable:
  assumes "pbufs ps p = Some b" and "releasable ps as"
  shows "releasable (with_header ps p h) as"
  using assms by (auto simp: releasable_def with_header_def Let_def std_def pbuf_get_allocsrc_def fun_upd_apply)

lemma output_and_free:
  assumes "driver_ok E tx" and "netifs s nif = Some n" and "netif_ok n" and "length mac = 6"
    and "chain (pbufs (eps s)) (Some p) (p # as)" and "tot_ok (pbufs (eps s)) (p # as)"
    and "readable (eps s) (p # as)" and "header_room (eps s) p as 14" and "releasable (eps s) (p # as)"
  shows "\<exists>s1 e s2. ethernet_output E s nif p (hwaddr n) mac ETHTYPE_IP = ret (s1, e) \<and> free_pbuf E s1 p = ret s2 \<and>
    arp_table s2 = arp_table s \<and> netifs s2 = netifs s \<and> acds s2 = acds s \<and> world s2 = sent tx s nif n p as mac \<and>
    eps s2 = free_spec (headed (eps s) n p mac) (p # as)"
proof (cases "header_fits (eps s) p 14")
  case True
  let ?h = "mac @ hwaddr n @ be16 ETHTYPE_IP"
  let ?ps = "with_header (eps s) p ?h"
  let ?s1 = "s\<lparr>eps := ?ps, world := sent tx s nif n p as mac\<rparr>"
  have h: "length ?h = 14" using assms(3,4) by (simp add: netif_ok_def)
  have "\<exists>e. ethernet_output E s nif p (hwaddr n) mac ETHTYPE_IP = ret (?s1, e)"
    using True assms by (subst ethernet_output_spec [OF assms(1,2), where as = as]) (simp_all add: sent_def netif_ok_def)
  then obtain e where out: "ethernet_output E s nif p (hwaddr n) mac ETHTYPE_IP = ret (?s1, e)" ..
  obtain b where "pbufs (eps s) p = Some b" using assms(5) by auto
  then have "releasable ?ps (p # as)" using assms(9) by (rule with_header_releasable)
  moreover have "chain (pbufs ?ps) (Some p) (p # as)"
    using data_with_header(1) [OF assms(5,6), of ?h] True assms(7,8) h by simp
  ultimately have "free_pbuf E ?s1 p = ret (?s1\<lparr>eps := free_spec ?ps (p # as)\<rparr>)"
    using free_pbuf_chain [of ?s1 p "p # as" E] by simp
  with out show ?thesis
    by (intro exI [of _ ?s1] exI [of _ e] exI [of _ "?s1\<lparr>eps := free_spec ?ps (p # as)\<rparr>"])
       (simp add: headed_def True)
next
  case False
  let ?s1 = "link_stats_inc sp_lenerr_update s"
  have "ethernet_output E s nif p (hwaddr n) mac ETHTYPE_IP = ret (?s1, ERR_BUF)"
    using False assms by (subst ethernet_output_spec [OF assms(1,2), where as = as]) (simp_all add: netif_ok_def)
  moreover have "free_pbuf E ?s1 p = ret (?s1\<lparr>eps := free_spec (eps s) (p # as)\<rparr>)"
    using free_pbuf_chain [of ?s1 p "p # as" E] assms(5,9) by simp
  ultimately show ?thesis
    using False by (intro exI [of _ ?s1] exI [of _ ERR_BUF] exI [of _ "?s1\<lparr>eps := free_spec (eps s) (p # as)\<rparr>"])
      (simp add: sent_def headed_def)
qed

lemma packet_okE:
  assumes "packet_ok ps p"
  obtains as where "chain (pbufs ps) (Some p) (p # as)" "tot_ok (pbufs ps) (p # as)"
    "readable ps (p # as)" "header_room ps p as 14" "releasable ps (p # as)"
  using assms unfolding packet_ok_def packet_chain_def by blast

text \<open>The final steps of \<open>etharp_update_arp_entry\<close>, for the entry that was found or created.\<close>

lemma update_stores:
  assumes "driver_ok E tx" and "netifs s nif = Some n" and "netif_ok n" and "length mac = 6"
    and "length (arp_table s) = ARP_TABLE_SIZE" and "i < ARP_TABLE_SIZE" and "arp_ipaddr (arp_table s ! i) = ip"
    and "etharp_find_entry E s0 (Some ip) flgs (Some nif) = ret (s, Inr i)" and "netifs s0 nif = Some n"
    and "unicast ip n" and "\<And>p. arp_q (arp_table s ! i) = Some p \<Longrightarrow> packet_ok (eps s) p"
  shows "\<exists>s'. etharp_update_arp_entry E s0 nif ip mac flgs = ret (s', ERR_OK) \<and>
    arp_table s' = (arp_table s)[i := stable_entry ip nif mac] \<and> netifs s' = netifs s \<and> acds s' = acds s \<and>
    (case arp_q (arp_table s ! i) of None \<Rightarrow> world s' = world s
     | Some p \<Rightarrow> \<forall>as. chain (pbufs (eps s)) (Some p) (p # as) \<longrightarrow> world s' = sent tx s nif n p as mac \<and>
         eps s' = free_spec (headed (eps s) n p mac) (p # as))"
proof -
  let ?e = "(arp_table s ! i)\<lparr>arp_state := ETHARP_STATE_STABLE, arp_netif := Some nif, arp_ethaddr := mac, arp_ctime := 0\<rparr>"
  have e: "?e\<lparr>arp_q := None\<rparr> = stable_entry ip nif mac"
    using assms(7) by (cases "arp_table s ! i") (simp add: stable_entry_def)
  have guard: "\<not> (ip4_addr_isany_val ip \<or> ip4_addr_isbroadcast_u32 ip n \<or> ip4_addr_ismulticast ip)"
    "hwaddr_len n = ETH_HWADDR_LEN"
    using assms(3,10) by (auto simp: unicast_def netif_ok_def)
  show ?thesis
  proof (cases "arp_q (arp_table s ! i)")
    case None
    have "etharp_update_arp_entry E s0 nif ip mac flgs = ret (s\<lparr>arp_table := (arp_table s)[i := ?e]\<rparr>, ERR_OK)"
      using None assms(5-9) guard by (simp add: etharp_update_arp_entry_def)
    moreover have "?e = stable_entry ip nif mac"
      using e None by (cases "arp_table s ! i") (simp add: stable_entry_def)
    ultimately show ?thesis using None by (intro exI [of _ "s\<lparr>arp_table := (arp_table s)[i := ?e]\<rparr>"]) simp
  next
    case (Some p)
    let ?s3 = "s\<lparr>arp_table := (arp_table s)[i := ?e\<lparr>arp_q := None\<rparr>]\<rparr>"
    obtain as where as: "chain (pbufs (eps s)) (Some p) (p # as)" "tot_ok (pbufs (eps s)) (p # as)"
      "readable (eps s) (p # as)" "header_room (eps s) p as 14" "releasable (eps s) (p # as)"
      using assms(11) [OF Some] by (rule packet_okE)
    obtain s1 err s2 where out: "ethernet_output E ?s3 nif p (hwaddr n) mac ETHTYPE_IP = ret (s1, err)"
      "free_pbuf E s1 p = ret s2" "arp_table s2 = arp_table ?s3" "netifs s2 = netifs s" "acds s2 = acds s"
      "world s2 = sent tx ?s3 nif n p as mac" "eps s2 = free_spec (headed (eps s) n p mac) (p # as)"
      using output_and_free [OF assms(1), of ?s3 nif n mac p as] assms(2-4) as by auto
    have w: "sent tx ?s3 nif n p as mac = sent tx s nif n p as mac" by (simp add: sent_def)
    have "etharp_update_arp_entry E s0 nif ip mac flgs = ret (s2, ERR_OK)"
      using assms(2,5-9) guard Some out(1,2) by (simp add: etharp_update_arp_entry_def)
    moreover have "bs = as" if "chain (pbufs (eps s)) (Some p) (p # bs)" for bs
      using chain_unique [OF that as(1)] by simp
    moreover have "arp_table s2 = (arp_table s)[i := stable_entry ip nif mac]"
      unfolding out(3) e by simp
    ultimately show ?thesis using out(4-7) w Some by auto
  qed
qed

section \<open>Refinement of a map\<close>

text \<open>
  The table as a map from an address on an interface to a hardware address. \<open>learns\<close> is the
  abstract operation: the pair is entered, at the price of at most one other.
\<close>

type_synonym arp_cache = "u32 \<times> nat \<rightharpoonup> u8 list"

definition arp_map :: "etharp_entry list \<Rightarrow> arp_cache" where
  "arp_map es = (\<lambda>(ip, nif).
     case index_of (\<lambda>e. stable (arp_state e) \<and> arp_ipaddr e = ip \<and> arp_netif e = Some nif) es of
       None \<Rightarrow> None | Some i \<Rightarrow> Some (arp_ethaddr (es ! i)))"

definition learns :: "arp_cache \<Rightarrow> u32 \<times> nat \<Rightarrow> u8 list \<Rightarrow> arp_cache \<Rightarrow> bool" where
  "learns A k mac A' \<longleftrightarrow> (\<exists>lost. A' = (A(lost := None))(k \<mapsto> mac))"

lemma table_ok_unique:
  assumes "table_ok es" and "i < length es" and "j < length es" and "occupied (es ! i)" and "occupied (es ! j)"
    and "arp_ipaddr (es ! i) = arp_ipaddr (es ! j)" and "arp_netif (es ! i) = arp_netif (es ! j)"
  shows "i = j"
  using assms unfolding table_ok_def by blast

lemma arp_map_iff:
  assumes "table_ok es"
  shows "arp_map es (ip, nif) = Some mac \<longleftrightarrow>
    (\<exists>i < length es. stable (arp_state (es ! i)) \<and> arp_ipaddr (es ! i) = ip \<and> arp_netif (es ! i) = Some nif \<and>
       arp_ethaddr (es ! i) = mac)" (is "?L = ?R")
proof -
  let ?P = "\<lambda>e. stable (arp_state e) \<and> arp_ipaddr e = ip \<and> arp_netif e = Some nif"
  have occ: "occupied e" if "stable (arp_state e)" for e using that by auto
  show ?thesis
  proof (cases "index_of ?P es")
    case None
    then have "\<forall>j < length es. \<not> ?P (es ! j)" unfolding index_of_None by simp
    moreover have "arp_map es (ip, nif) = None" using None by (simp add: arp_map_def)
    ultimately show ?thesis by auto
  next
    case (Some i)
    then have i: "i < length es" "?P (es ! i)" by (auto simp: index_of_Some)
    have uniq: "j = i" if "j < length es" "?P (es ! j)" for j
      using table_ok_unique [OF assms that(1) i(1)] that(2) i(2) occ by metis
    have "arp_map es (ip, nif) = Some (arp_ethaddr (es ! i))" using Some by (simp add: arp_map_def)
    moreover have "?R \<longleftrightarrow> arp_ethaddr (es ! i) = mac" using i uniq by metis
    ultimately show ?thesis by simp
  qed
qed

lemma table_ok_update:
  assumes "table_ok es" and "i < length es" and "arp_netif e \<noteq> None"
    and "arp_state e \<noteq> ETHARP_STATE_PENDING \<longrightarrow> arp_q e = None"
    and "\<And>j. j < length es \<Longrightarrow> j \<noteq> i \<Longrightarrow> \<not> entry_matches (Some (arp_ipaddr e)) (arp_netif e) (es ! j)"
  shows "table_ok (es[i := e])"
proof -
  have "i' = j'" if "i' < length es" "j' < length es" "occupied (es[i := e] ! i')" "occupied (es[i := e] ! j')"
    "arp_ipaddr (es[i := e] ! i') = arp_ipaddr (es[i := e] ! j')" "arp_netif (es[i := e] ! i') = arp_netif (es[i := e] ! j')"
    for i' j'
    using that table_ok_unique [OF assms(1) that(1,2)] assms(5) [of i'] assms(5) [of j']
    by (cases "i' = i"; cases "j' = i") (auto simp: entry_matches_def)
  moreover have "\<forall>x \<in> set (es[i := e]). arp_state x \<noteq> ETHARP_STATE_PENDING \<longrightarrow> arp_q x = None"
    "\<forall>x \<in> set (es[i := e]). occupied x \<longrightarrow> arp_netif x \<noteq> None"
    using assms(1,3,4) set_update_subset_insert [of es i e] unfolding table_ok_def by blast+
  ultimately show ?thesis
    using assms(1) unfolding table_ok_def by simp
qed

lemma arp_map_update:
  assumes "table_ok es" and "i < length es"
    and "\<And>j. j < length es \<Longrightarrow> j \<noteq> i \<Longrightarrow> \<not> entry_matches (Some ip) (Some nif) (es ! j)"
  shows "table_ok (es[i := stable_entry ip nif mac])"
    and "arp_map (es[i := stable_entry ip nif mac]) =
      (if stable (arp_state (es ! i)) then (arp_map es)((arp_ipaddr (es ! i), the (arp_netif (es ! i))) := None)
       else arp_map es)((ip, nif) \<mapsto> mac)"
proof -
  let ?es = "es[i := stable_entry ip nif mac]"
  show ok: "table_ok ?es" using assms by (intro table_ok_update) auto
  show "arp_map ?es = (if stable (arp_state (es ! i)) then (arp_map es)((arp_ipaddr (es ! i), the (arp_netif (es ! i))) := None)
       else arp_map es)((ip, nif) \<mapsto> mac)" (is "_ = ?A")
  proof (rule ext)
    fix k :: "u32 \<times> nat"
    obtain ip' nif' where k: "k = (ip', nif')" by (cases k)
    define P where "P j m \<longleftrightarrow> stable (arp_state (es ! j)) \<and> arp_ipaddr (es ! j) = ip' \<and>
      arp_netif (es ! j) = Some nif' \<and> arp_ethaddr (es ! j) = m" for j m
    have old: "arp_map es k = Some m \<longleftrightarrow> (\<exists>j < length es. P j m)" for m
      using arp_map_iff [OF assms(1), of ip' nif' m] unfolding k P_def by simp
    have new: "arp_map ?es k = Some m \<longleftrightarrow>
        (k = (ip, nif) \<and> m = mac) \<or> (\<exists>j < length es. j \<noteq> i \<and> P j m)" for m
      using arp_map_iff [OF ok, of ip' nif' m] assms(2) unfolding k P_def
      by (auto simp: nth_list_update)
    have same: "j = i" if "P j m" "P i m'" "j < length es" for j m m'
      using table_ok_unique [OF assms(1) that(3) assms(2)] that(1,2) stable_occupied unfolding P_def by metis
    have mine: "\<not> P j m" if "k = (ip, nif)" "j < length es" "j \<noteq> i" for j m
      using assms(3) [OF that(2,3)] that(1) k unfolding P_def entry_matches_def by auto
    have at_i: "(stable (arp_state (es ! i)) \<and> k = (arp_ipaddr (es ! i), the (arp_netif (es ! i)))) = (\<exists>m. P i m)"
    proof (cases "arp_netif (es ! i)")
      case None
      then have "\<not> occupied (es ! i)" using assms(1) nth_mem [OF assms(2)] unfolding table_ok_def by blast
      then show ?thesis unfolding P_def by auto
    qed (auto simp: k P_def)
    have "arp_map ?es k = Some m \<longleftrightarrow> ?A k = Some m" for m
    proof (cases "k = (ip, nif)")
      case True
      then show ?thesis using new [of m] mine by auto
    next
      case False
      then have "?A k = (if \<exists>m. P i m then None else arp_map es k)" using at_i by (auto simp: fun_upd_def)
      then show ?thesis using new [of m] old [of m] same False by (auto simp: fun_upd_def)
    qed
    then show "arp_map ?es k = ?A k" by (metis not_None_eq)
  qed
qed

lemma index_of_SomeD:
  "index_of P xs = Some i \<Longrightarrow> i < length xs \<and> P (xs ! i)"
  by (simp add: index_of_Some)

lemma matches_other:
  assumes "table_ok es" and "index_of (entry_matches (Some ip) (Some nif)) es = Some i" and "j < length es" and "j \<noteq> i"
  shows "\<not> entry_matches (Some ip) (Some nif) (es ! j)"
  using table_ok_unique [OF assms(1,3), of i] index_of_SomeD [OF assms(2)] assms(4)
  unfolding entry_matches_def by (metis option.distinct(1) option.inject)

lemma update_match:
  assumes "driver_ok E tx" and "netifs s nif = Some n" and "netif_ok n" and "unicast ip n" and "length mac = 6"
    and "table_ok (arp_table s)" and "queues_ok s"
    and "index_of (entry_matches (Some ip) (Some nif)) (arp_table s) = Some i"
  shows "\<exists>s'. etharp_update_arp_entry E s nif ip mac flgs = ret (s', ERR_OK) \<and> table_ok (arp_table s') \<and>
    arp_table s' = (arp_table s)[i := stable_entry ip nif mac] \<and>
    arp_map (arp_table s') = (arp_map (arp_table s))((ip, nif) \<mapsto> mac) \<and> netifs s' = netifs s \<and>
    (case arp_q (arp_table s ! i) of None \<Rightarrow> world s' = world s
     | Some p \<Rightarrow> \<forall>as. chain (pbufs (eps s)) (Some p) (p # as) \<longrightarrow> world s' = sent tx s nif n p as mac \<and>
         eps s' = free_spec (headed (eps s) n p mac) (p # as))"
proof -
  let ?t = "arp_table s"
  have len: "length ?t = ARP_TABLE_SIZE" using assms(6) by (simp add: table_ok_def)
  have i: "i < length ?t" "entry_matches (Some ip) (Some nif) (?t ! i)" using index_of_SomeD [OF assms(8)] by blast+
  have q: "\<And>p. arp_q (?t ! i) = Some p \<Longrightarrow> packet_ok (eps s) p" using assms(7) i(1) by (auto simp: queues_ok_def)
  have ip: "arp_ipaddr (?t ! i) = ip" "arp_netif (?t ! i) = Some nif" using i(2) by (auto simp: entry_matches_def)
  note find = etharp_find_entry_match [OF assms(8), of E flgs]
  note upd = arp_map_update [OF assms(6) i(1) matches_other [OF assms(6,8)], of mac]
  have "arp_map (?t[i := stable_entry ip nif mac]) = (arp_map ?t)((ip, nif) \<mapsto> mac)"
    using upd(2) ip by simp
  with update_stores [OF assms(1-3,5) len _ ip(1) find assms(2,4) q] i(1) len upd(1)
  show ?thesis by fastforce
qed

lemma update_new:
  assumes "driver_ok E tx" and "netifs s nif = Some n" and "netif_ok n" and "unicast ip n" and "length mac = 6"
    and "table_ok (arp_table s)" and "queues_ok s"
    and "index_of (entry_matches (Some ip) (Some nif)) (arp_table s) = None"
  shows "\<exists>s' i. etharp_update_arp_entry E s nif ip mac ETHARP_FLAG_TRY_HARD = ret (s', ERR_OK) \<and>
    least_important (arp_table s) i \<and> table_ok (arp_table s') \<and>
    arp_table s' = (arp_table s)[i := stable_entry ip nif mac] \<and>
    arp_map (arp_table s') = (if stable (arp_state (arp_table s ! i))
      then (arp_map (arp_table s))((arp_ipaddr (arp_table s ! i), the (arp_netif (arp_table s ! i))) := None)
      else arp_map (arp_table s))((ip, nif) \<mapsto> mac) \<and> netifs s' = netifs s \<and> world s' = world s"
proof -
  let ?t = "arp_table s"
  have len: "length ?t = ARP_TABLE_SIZE" using assms(6) by (simp add: table_ok_def)
  obtain i ps m where find: "etharp_find_entry E s (Some ip) ETHARP_FLAG_TRY_HARD (Some nif) =
      ret (s\<lparr>eps := ps, arp_table := ?t[i := fresh_entry ip (Some nif) m]\<rparr>, Inr i)" (is "_ = ret (?s1, _)")
    and least: "least_important ?t i"
    using etharp_find_entry_new [OF assms(8,6,7), of ETHARP_FLAG_TRY_HARD E] by auto
  have i: "i < length ?t" using least by (simp add: least_important_def)
  have e: "arp_table ?s1 ! i = fresh_entry ip (Some nif) m" "length (arp_table ?s1) = ARP_TABLE_SIZE" using i len by simp_all
  have none: "\<And>j. j < length ?t \<Longrightarrow> j \<noteq> i \<Longrightarrow> \<not> entry_matches (Some ip) (Some nif) (?t ! j)"
    using assms(8) by (auto simp: index_of_None)
  note upd = arp_map_update [OF assms(6) i none, of mac]
  have "\<exists>s'. etharp_update_arp_entry E s nif ip mac ETHARP_FLAG_TRY_HARD = ret (s', ERR_OK) \<and>
    arp_table s' = (arp_table ?s1)[i := stable_entry ip nif mac] \<and> netifs s' = netifs ?s1 \<and> acds s' = acds ?s1 \<and>
    world s' = world ?s1"
    using update_stores [OF assms(1) _ assms(3,5) e(2) _ _ find assms(2,4)] assms(2) i len e(1)
    by (simp add: fresh_entry_def)
  then show ?thesis using least upd by auto
qed

section \<open>etharp\_query\<close>

lemma copy_not_needed:
  assumes "chain (pbufs ps) p as" and "tot_ok (pbufs ps) as"
    and "\<forall>a \<in> set as. 0 < unat (len (the (pbufs ps a))) \<and> \<not> PBUF_NEEDS_COPY (the (pbufs ps a))"
  shows "copy_needed_loop ps p = ret False"
  using assms
proof (induction as arbitrary: p)
  case Nil
  then show ?case by (simp add: copy_needed_loop.simps)
next
  case (Cons a as)
  then obtain b where b: "p = Some a" "pbufs ps a = Some b" "chain (pbufs ps) (pnext b) as" by auto
  have "len b \<noteq> tot_len b \<or> pnext b = None"
  proof (cases as)
    case Nil
    then show ?thesis using b(3) by (cases "pnext b") auto
  next
    case (Cons c cs)
    then have "0 < lens (pbufs ps) as" using Cons.prems(3) by simp
    moreover have "unat (tot_len b) = unat (len b) + lens (pbufs ps) as" using Cons.prems(2) b(2) by simp
    ultimately show ?thesis by auto
  qed
  then show ?case using Cons b by (subst copy_needed_loop.simps) simp
qed

text \<open>The frame of a request and what is sent by \<open>etharp_request\<close>.\<close>

definition request_frame :: "netif \<Rightarrow> u8 list \<Rightarrow> u32 \<Rightarrow> u8 list" where
  "request_frame n dst ip =
     eth_frame dst (hwaddr n) ETHTYPE_ARP (arp_packet ARP_REQUEST (hwaddr n) (ip_addr n) ethzero ip)"

lemma length_eth_consts [simp]: "length ethzero = 6" "length ethbroadcast = 6"
  by (simp_all add: ethzero_def ethbroadcast_def)

lemma etharp_request_dst_run:
  assumes "driver_ok E tx" and "netifs s nif = Some n" and "netif_ok n"
    and "malloc_fresh (penv_of E) (eps s)" and "length dst = 6"
  shows "etharp_request_dst E s (Some nif) ip dst = ret (raw_result E tx s nif n (request_frame n dst ip))"
  using etharp_raw_run [OF assms(1,2) _ assms(4)] assms(2,3,5)
  by (simp add: etharp_request_dst_def netif_ok_def request_frame_def)

lemma etharp_request_run:
  assumes "driver_ok E tx" and "netifs s nif = Some n" and "netif_ok n" and "malloc_fresh (penv_of E) (eps s)"
  shows "etharp_request E s (Some nif) ip = ret (raw_result E tx s nif n (request_frame n ethbroadcast ip))"
  using etharp_request_dst_run [OF assms, of ethbroadcast] by (simp add: etharp_request_def)

lemma raw_result_simps [simp]:
  "eps (fst (raw_result E tx s nif n fr)) = eps s" "netifs (fst (raw_result E tx s nif n fr)) = netifs s"
  "arp_table (fst (raw_result E tx s nif n fr)) = arp_table s" "acds (fst (raw_result E tx s nif n fr)) = acds s"
  "netif_list (fst (raw_result E tx s nif n fr)) = netif_list s"
  "etharp_cached_entry (fst (raw_result E tx s nif n fr)) = etharp_cached_entry s"
  "world (fst (raw_result E tx s nif n fr)) =
     (if malloc (penv_of E) (eps s) 66 = None then world s else fst (tx (linkoutput n) nif fr (world s)))"
  "snd (raw_result E tx s nif n fr) = (if malloc (penv_of E) (eps s) 66 = None then ERR_MEM else ERR_OK)"
  by (auto simp: raw_result_def)

definition pending_entry :: "u32 \<Rightarrow> nat \<Rightarrow> u8 list \<Rightarrow> nat option \<Rightarrow> etharp_entry" where
  "pending_entry ip nif mac q = \<lparr>arp_q = q, arp_ipaddr = ip, arp_netif = Some nif, arp_ethaddr = mac,
     arp_ctime = 0, arp_state = ETHARP_STATE_PENDING\<rparr>"

lemma packet_queue_new:
  assumes "i < ARP_TABLE_SIZE" and "length (arp_table s) = ARP_TABLE_SIZE"
    and "arp_table s ! i = pending_entry ip nif mac None"
    and "chain (pbufs (eps s)) (Some p) (p # as)" and "tot_ok (pbufs (eps s)) (p # as)"
    and "\<forall>a \<in> set (p # as). 0 < unat (len (the (pbufs (eps s) a))) \<and> \<not> PBUF_NEEDS_COPY (the (pbufs (eps s) a))"
    and "pbufs (eps s) p = Some b" and "ref b \<noteq> 255"
  shows "etharp_query_packet E s nif i p r = ret (s\<lparr>eps := upd (eps s) p (b\<lparr>ref := ref b + 1\<rparr>),
    arp_table := (arp_table s)[i := pending_entry ip nif mac (Some p)]\<rparr>, ERR_OK)"
proof -
  have "(255 :: u8) = - 1" by simp
  with assms(8) have "ref b + 1 \<noteq> 0" unfolding eq_neg_iff_add_eq_0 [symmetric] by metis
  then have "ref b + 1 > 0" by (simp add: word_gt_0)
  then show ?thesis
    using assms copy_not_needed [OF assms(4,5,6)]
    by (simp add: etharp_query_packet_def pbuf_ref_def pending_entry_def)
qed

lemma empty_least:
  assumes "least_important es i" and "\<exists>e \<in> set es. \<not> occupied e"
  shows "\<not> occupied (es ! i)"
proof -
  from assms(2) obtain j where j: "j < length es" "\<not> occupied (es ! j)" by (metis in_set_conv_nth)
  then have "importance (es ! j) = 0" by (simp add: importance_def)
  with assms(1) j(1) have "importance (es ! i) = 0" by (auto simp: least_important_def)
  then show ?thesis by (auto simp: importance_def split: if_splits)
qed

lemma query_new:
  assumes "driver_ok E tx" and "netifs s nif = Some n" and "netif_ok n" and "unicast ip n"
    and "table_ok (arp_table s)" and "queues_ok s"
    and "index_of (entry_matches (Some ip) (Some nif)) (arp_table s) = None" and "\<exists>e \<in> set (arp_table s). \<not> occupied e"
    and "malloc_fresh (penv_of E) (eps s)"
    and "chain (pbufs (eps s)) (Some p) (p # as)" and "tot_ok (pbufs (eps s)) (p # as)"
    and "\<forall>a \<in> set (p # as). 0 < unat (len (the (pbufs (eps s) a))) \<and> \<not> PBUF_NEEDS_COPY (the (pbufs (eps s) a))"
    and "pbufs (eps s) p = Some b" and "ref b \<noteq> 255"
  shows "\<exists>s' i mac. etharp_query E s nif ip (Some p) = ret (s', ERR_OK) \<and> i < ARP_TABLE_SIZE \<and>
    \<not> occupied (arp_table s ! i) \<and> arp_table s' = (arp_table s)[i := pending_entry ip nif mac (Some p)] \<and>
    eps s' = upd (eps s) p (b\<lparr>ref := ref b + 1\<rparr>) \<and> netifs s' = netifs s \<and>
    world s' = (if malloc (penv_of E) (eps s) 66 = None then world s
      else fst (tx (linkoutput n) nif (request_frame n ethbroadcast ip) (world s)))"
proof -
  let ?t = "arp_table s"
  have len: "length ?t = ARP_TABLE_SIZE" using assms(5) by (simp add: table_ok_def)
  obtain i ps m where find: "etharp_find_entry E s (Some ip) ETHARP_FLAG_TRY_HARD (Some nif) =
      ret (s\<lparr>eps := ps, arp_table := ?t[i := fresh_entry ip (Some nif) m]\<rparr>, Inr i)" (is "_ = ret (?s1, _)")
    and least: "least_important ?t i" and rel: "released (eps s) (arp_q (?t ! i)) ps"
    using etharp_find_entry_new [OF assms(7,5,6), of ETHARP_FLAG_TRY_HARD E] by auto
  have i: "i < ARP_TABLE_SIZE" using least len by (simp add: least_important_def)
  have free: "\<not> occupied (?t ! i)" using empty_least [OF least assms(8)] .
  then have "arp_q (?t ! i) = None" using assms(5) i len nth_mem [of i ?t] by (auto simp: table_ok_def)
  then have ps: "ps = eps s" using rel by (simp add: released_def)
  let ?s2 = "s\<lparr>eps := eps s, arp_table := ?t[i := pending_entry ip nif m None]\<rparr>"
  obtain s3 err where raw: "raw_result E tx ?s2 nif n (request_frame n ethbroadcast ip) = (s3, err)" by fastforce
  have s3: "eps s3 = eps s" "netifs s3 = netifs s" "arp_table s3 = ?t[i := pending_entry ip nif m None]"
    "world s3 = (if malloc (penv_of E) (eps s) 66 = None then world s
      else fst (tx (linkoutput n) nif (request_frame n ethbroadcast ip) (world s)))"
    using raw_result_simps [of E tx ?s2 nif n "request_frame n ethbroadcast ip"] unfolding raw by simp_all
  have req: "etharp_request E ?s2 (Some nif) ip = ret (s3, err)"
    using etharp_request_run [OF assms(1), of ?s2 nif n ip] assms(2,3,9) raw by simp
  let ?s4 = "s3\<lparr>eps := upd (eps s) p (b\<lparr>ref := ref b + 1\<rparr>), arp_table := ?t[i := pending_entry ip nif m (Some p)]\<rparr>"
  have queue: "etharp_query_packet E s3 nif i p r = ret (?s4, ERR_OK)" for r
    using packet_queue_new [of i s3 ip nif m p as b E r] assms(10-14) i len s3 by simp
  have "etharp_query E s nif ip (Some p) = ret (?s4, ERR_OK)"
    using find assms(2,4) i len req s3 queue
    by (simp add: etharp_query_def unicast_def ps fresh_entry_def pending_entry_def Let_def)
  then show ?thesis
    using s3 i free by (intro exI [of _ ?s4] exI [of _ i] exI [of _ m]) simp
qed

text \<open>A change of a reference count alone.\<close>

lemma ref_fields:
  assumes "pbufs ps p = Some b"
  shows "pnext (the (((pbufs ps)(p \<mapsto> b\<lparr>ref := r\<rparr>)) x)) = pnext (the (pbufs ps x))"
    and "payload (the (((pbufs ps)(p \<mapsto> b\<lparr>ref := r\<rparr>)) x)) = payload (the (pbufs ps x))"
    and "len (the (((pbufs ps)(p \<mapsto> b\<lparr>ref := r\<rparr>)) x)) = len (the (pbufs ps x))"
    and "tot_len (the (((pbufs ps)(p \<mapsto> b\<lparr>ref := r\<rparr>)) x)) = tot_len (the (pbufs ps x))"
    and "type_internal (the (((pbufs ps)(p \<mapsto> b\<lparr>ref := r\<rparr>)) x)) = type_internal (the (pbufs ps x))"
    and "flags (the (((pbufs ps)(p \<mapsto> b\<lparr>ref := r\<rparr>)) x)) = flags (the (pbufs ps x))"
    and "((pbufs ps)(p \<mapsto> b\<lparr>ref := r\<rparr>)) x = None \<longleftrightarrow> pbufs ps x = None"
  using assms by (auto simp: fun_upd_apply)

lemma ref_shape:
  assumes "pbufs ps p = Some b"
  shows "chain (pbufs (upd ps p (b\<lparr>ref := r\<rparr>))) q as = chain (pbufs ps) q as"
    and "lens (pbufs (upd ps p (b\<lparr>ref := r\<rparr>))) as = lens (pbufs ps) as"
    and "tot_ok (pbufs (upd ps p (b\<lparr>ref := r\<rparr>))) as = tot_ok (pbufs ps) as"
    and "readable (upd ps p (b\<lparr>ref := r\<rparr>)) as = readable ps as"
    and "data (upd ps p (b\<lparr>ref := r\<rparr>)) as = data ps as"
    and "header_fits (upd ps p (b\<lparr>ref := r\<rparr>)) x k = header_fits ps x k"
    and "header_room (upd ps p (b\<lparr>ref := r\<rparr>)) x as k = header_room ps x as k"
proof -
  note f = ref_fields [OF assms, of r]
  show "chain (pbufs (upd ps p (b\<lparr>ref := r\<rparr>))) q as = chain (pbufs ps) q as"
    by (induction as arbitrary: q) (simp_all add: f assms del: not_None_eq fun_upd_apply)
  show lens: "lens (pbufs (upd ps p (b\<lparr>ref := r\<rparr>))) as = lens (pbufs ps) as" for as
    by (induction as) (simp_all add: f assms del: lens_same_len fun_upd_apply)
  show "tot_ok (pbufs (upd ps p (b\<lparr>ref := r\<rparr>))) as = tot_ok (pbufs ps) as"
    using lens by (induction as) (simp_all add: f assms del: lens_same_len fun_upd_apply)
  show "readable (upd ps p (b\<lparr>ref := r\<rparr>)) as = readable ps as" by (simp add: readable_def f del: fun_upd_apply)
  show "data (upd ps p (b\<lparr>ref := r\<rparr>)) as = data ps as" by (rule data_cong) (simp add: seg_def f del: fun_upd_apply)
  show fits: "header_fits (upd ps p (b\<lparr>ref := r\<rparr>)) x k = header_fits ps x k" by (simp add: header_fits_def f Let_def del: fun_upd_apply)
  show "header_room (upd ps p (b\<lparr>ref := r\<rparr>)) x as k = header_room ps x as k" by (simp add: header_room_def f fits del: fun_upd_apply)
qed

lemma packet_ok_ref:
  assumes "packet_ok ps p'" and "pbufs ps p = Some b" and "r > 0"
  shows "packet_ok (upd ps p (b\<lparr>ref := r\<rparr>)) p'"
proof -
  have "releasable (upd ps p (b\<lparr>ref := r\<rparr>)) as" if "releasable ps as" for as
  proof -
    have "ref (the (pbufs (upd ps p (b\<lparr>ref := r\<rparr>)) a)) > 0" if "ref (the (pbufs ps a)) > 0" for a
      using that assms(3) by (cases "a = p") simp_all
    with that show ?thesis
      by (simp add: releasable_def std_def pbuf_get_allocsrc_def ref_fields [OF assms(2)] del: fun_upd_apply)
  qed
  with assms(1) show ?thesis
    unfolding packet_ok_def packet_chain_def ref_shape [OF assms(2)] by metis
qed

end
