(* ===== verification/Etharp_Props.thy ===== *)
theory Etharp_Props
  imports Etharp_Table Pbuf_Props
begin

text \<open>
  The properties of address resolution, each with a witness on the example interface
  \<open>ex_lwip\<close> with the frame-recording driver \<open>ex_lenv\<close>.
\<close>

section \<open>An example interface\<close>

text \<open>
  A driver that records the frames it is given, and a state with one interface, 192.168.1.2/24,
  an empty ARP table and a packet of 20 bytes at 7000 with room for a header.
\<close>

partial_function (option) gather :: "pstate \<Rightarrow> nat option \<Rightarrow> u8 list res" where
  "gather ps p =
     (if p = None then ret []
      else bindR (deref ps p) (\<lambda>b.
           bindR (mread (memory ps) (payload b) (unat (len b))) (\<lambda>xs.
           bindR (gather ps (pnext b)) (\<lambda>ys. ret (xs @ ys)))))"

lemma gather_data: "chain (pbufs ps) p as \<Longrightarrow> readable ps as \<Longrightarrow> gather ps p = ret (data ps as)"
proof (induction as arbitrary: p)
  case Nil
  then show ?case by (subst gather.simps) (auto simp: data_def)
next
  case (Cons a as)
  then obtain b where b: "p = Some a" "pbufs ps a = Some b" "chain (pbufs ps) (pnext b) as" by auto
  with Cons show ?case by (subst gather.simps) (simp add: mread_eq seg_def)
qed

type_synonym wire = "(nat \<times> u8 list) list"

definition ex_tx :: "nat \<Rightarrow> nat \<Rightarrow> u8 list \<Rightarrow> wire \<Rightarrow> wire \<times> err_t" where
  "ex_tx f nif d w = (w @ [(nif, d)], ERR_OK)"

definition ex_lenv :: "wire lenv" where
  "ex_lenv = \<lparr>penv_of = ex_env,
     linkoutput_fn = (\<lambda>f nif p s. bindR (gather (eps s) (Some p)) (\<lambda>d.
       ret (s\<lparr>world := fst (ex_tx f nif d (world s))\<rparr>, snd (ex_tx f nif d (world s))))),
     acd_callback_fn = (\<lambda>f nif c s. ret s),
     netif_init_fn = (\<lambda>f nif s. ret (s, ERR_OK)),
     netif_output_fn = (\<lambda>f nif p ip s. ret (s, ERR_IF)),
     tcp_input_fn = (\<lambda>p nif s. ret s),
     tcp_netif_ip_addr_changed_fn = (\<lambda>old new s. ret s),
     dhcp_network_changed_link_up_fn = (\<lambda>nif s. ret s),
     udp_recv_fn = (\<lambda>f arg pcb p addr port s. ret s),
     raw_recv_fn = (\<lambda>f arg pcb p addr s. ret (s, 0)),
     lwip_rand = (\<lambda>s. (s, 7))\<rparr>"

definition ex_netif :: netif where
  "ex_netif = \<lparr>ip_addr = 0x0201A8C0, netmask = 0x00FFFFFF, gw = 0x0101A8C0, nif_input = 1, nif_output = 1,
     linkoutput = 3, nif_state = 0, client_data = None, mtu = 1500, hwaddr = [2, 0, 0, 0, 0, 1], hwaddr_len = 6,
     nif_flags = 0x1F, nif_name = (101, 110), nif_num = 0, acd_list = None\<rparr>"

definition ex_stats :: stats_proto where
  "ex_stats = \<lparr>sp_xmit = 0, sp_recv = 0, sp_fw = 0, sp_drop = 0, sp_chkerr = 0, sp_lenerr = 0, sp_memerr = 0,
     sp_rterr = 0, sp_proterr = 0, sp_opterr = 0, sp_err = 0, sp_cachehit = 0\<rparr>"

definition ex_ip_data :: ip_globals where
  "ex_ip_data = \<lparr>current_netif = None, current_input_netif = None, current_ip4_header = None,
     current_ip_header_tot_len = 0, current_iphdr_src = 0, current_iphdr_dest = 0\<rparr>"

definition ex_ip4 :: ip4_state where
  "ex_ip4 = \<lparr>ip_id = 0, reassdatagrams = [], reassdata = Map.empty, memp_reassdata = ex_pool,
     ip_reass_pbufcount = 0, ip_frag_stats = ex_stats\<rparr>"

definition ex_udp :: udp_state where
  "ex_udp = \<lparr>udp_pcbs = [], udp_pcb_map = Map.empty, memp_udp_pcb = ex_pool, udp_port = 0xC000, udp_stats = ex_stats\<rparr>"

definition ex_raw :: raw_state where
  "ex_raw = \<lparr>raw_pcbs = [], raw_pcb_map = Map.empty, memp_raw_pcb = ex_pool\<rparr>"

definition ex_heap :: pstate where
  "ex_heap = \<lparr>
     pbufs = [7000 \<mapsto> \<lparr>pnext = None, payload = 7058, tot_len = 20, len = 20, type_internal = 0x80, flags = 0,
              ref = 1, if_idx = 0\<rparr>],
     memory = (\<lambda>k. if 7024 \<le> k \<and> k < 7078 then Some (of_nat (k - 7058)) else None),
     blocks = [7000 \<mapsto> 78],
     memp_pbuf = ex_pool, memp_pbuf_pool = ex_pool, custom_free_function = Map.empty,
     memp_frag_pbuf = ex_pool, original = Map.empty, pbuf_free_ooseq_pending = 0\<rparr>"

definition ex_lwip :: "wire lwip" where
  "ex_lwip = \<lparr>eps = ex_heap, arp_table = replicate 10 empty_entry, etharp_cached_entry = 0,
     netifs = [100 \<mapsto> ex_netif], netif_list = [100], netif_default = Some 100, netif_num = 1,
     acds = Map.empty, etharp_stats = ex_stats, link_stats = ex_stats, ip_stats = ex_stats,
     icmp_stats = ex_stats, ip_data = ex_ip_data, ip4 = ex_ip4, udp = ex_udp, raw = ex_raw, world = []\<rparr>"

lemma ex_driver_ok: "driver_ok ex_lenv ex_tx"
  by (auto simp: driver_ok_def ex_lenv_def gather_data)

lemma ex_lwip_simps [simp]:
  "eps ex_lwip = ex_heap" "arp_table ex_lwip = replicate 10 empty_entry" "netifs ex_lwip 100 = Some ex_netif"
  "world ex_lwip = []" "penv_of ex_lenv = ex_env" "netif_list ex_lwip = [100]"
  by (simp_all add: ex_lwip_def ex_lenv_def)

lemma ex_netif_simps [simp]:
  "hwaddr ex_netif = [2, 0, 0, 0, 0, 1]" "hwaddr_len ex_netif = 6" "ip_addr ex_netif = 0x0201A8C0"
  "netmask ex_netif = 0x00FFFFFF" "nif_flags ex_netif = 0x1F" "linkoutput ex_netif = 3" "acd_list ex_netif = None"
  by (simp_all add: ex_netif_def)

lemma ex_netif_ok: "netif_ok ex_netif"
  by (simp add: netif_ok_def)

lemma ex_unicast: "unicast 0x0901A8C0 ex_netif"
  by (simp add: unicast_def ip4_addr_isany_val_def ip4_addr_isbroadcast_u32_def ip4_addr_ismulticast_def lwip_htonl_def)

lemma ex_table_ok: "table_ok (replicate 10 empty_entry)"
  by (simp add: table_ok_def empty_entry_def)

lemma ex_queues_ok: "queues_ok ex_lwip"
  by (simp add: queues_ok_def empty_entry_def)

lemma ex_heap_fresh: "malloc_fresh ex_env ex_heap"
  unfolding malloc_fresh_def
  by (auto simp: ex_env_def ex_heap_def apart_def fun_upd_apply split: if_splits)

lemma ex_packet:
  "chain (pbufs ex_heap) (Some 7000) [7000]" "tot_ok (pbufs ex_heap) [7000]" "readable ex_heap [7000]"
  "header_room ex_heap 7000 [] 14" "releasable ex_heap [7000]" "header_fits ex_heap 7000 14"
  by (simp_all add: ex_heap_def readable_def mapped_def header_room_def header_fits_def Let_def releasable_def
      std_def pbuf_get_allocsrc_def)

section \<open>Properties\<close>

lemma find_addr_stable:
  assumes "table_ok (arp_table s)" and "i < ARP_TABLE_SIZE" and "arp_table s ! i = stable_entry ip nif mac"
  shows "etharp_find_addr E s (Some nif) (Some ip) = ret (s, Some (i, mac, ip))"
proof -
  have len: "length (arp_table s) = ARP_TABLE_SIZE" using assms(1) by (simp add: table_ok_def)
  have m: "entry_matches (Some ip) (Some nif) (arp_table s ! i)" using assms(3) by (simp add: entry_matches_def)
  then obtain j where j: "index_of (entry_matches (Some ip) (Some nif)) (arp_table s) = Some j"
    using assms(2) len by (metis index_of_None not_None_eq nth_mem)
  then have "j = i" using matches_other [OF assms(1) j, of i] m assms(2) len by auto
  with etharp_find_entry_match [OF j] assms(2,3) show ?thesis by (simp add: etharp_find_addr_def)
qed

lemma learns_plain: "learns A k mac (A(k \<mapsto> mac))"
  unfolding learns_def by (rule exI [of _ k]) simp

lemma update_try_hard:
  assumes "driver_ok E tx" and "netifs s nif = Some n" and "netif_ok n" and "unicast ip n" and "length mac = 6"
    and "table_ok (arp_table s)" and "queues_ok s"
  shows "\<exists>s' i. etharp_update_arp_entry E s nif ip mac ETHARP_FLAG_TRY_HARD = ret (s', ERR_OK) \<and>
      table_ok (arp_table s') \<and> learns (arp_map (arp_table s)) (ip, nif) mac (arp_map (arp_table s')) \<and>
      ((\<exists>e \<in> set (arp_table s). \<not> occupied e \<or> entry_matches (Some ip) (Some nif) e) \<longrightarrow>
        arp_map (arp_table s') = (arp_map (arp_table s))((ip, nif) \<mapsto> mac)) \<and>
      etharp_find_addr E s' (Some nif) (Some ip) = ret (s', Some (i, mac, ip))"
proof -
  let ?t = "arp_table s"
  have len: "length ?t = ARP_TABLE_SIZE" using assms(6) by (simp add: table_ok_def)
  obtain s' i where s': "etharp_update_arp_entry E s nif ip mac ETHARP_FLAG_TRY_HARD = ret (s', ERR_OK)"
    "i < ARP_TABLE_SIZE" "table_ok (arp_table s')" "arp_table s' = ?t[i := stable_entry ip nif mac]"
    "learns (arp_map ?t) (ip, nif) mac (arp_map (arp_table s'))"
    "(\<exists>e \<in> set ?t. \<not> occupied e \<or> entry_matches (Some ip) (Some nif) e) \<longrightarrow>
        arp_map (arp_table s') = (arp_map ?t)((ip, nif) \<mapsto> mac)"
  proof (cases "index_of (entry_matches (Some ip) (Some nif)) ?t")
    case None
    obtain s' i where s': "etharp_update_arp_entry E s nif ip mac ETHARP_FLAG_TRY_HARD = ret (s', ERR_OK)"
      "least_important ?t i" "table_ok (arp_table s')" "arp_table s' = ?t[i := stable_entry ip nif mac]"
      "arp_map (arp_table s') = (if stable (arp_state (?t ! i))
        then (arp_map ?t)((arp_ipaddr (?t ! i), the (arp_netif (?t ! i))) := None) else arp_map ?t)((ip, nif) \<mapsto> mac)"
      using update_new [OF assms None] by blast
    have "learns (arp_map ?t) (ip, nif) mac (arp_map (arp_table s'))"
      using learns_plain unfolding s'(5) by (cases "stable (arp_state (?t ! i))") (auto simp: learns_def)
    moreover have "\<not> stable (arp_state (?t ! i))" if "\<exists>e \<in> set ?t. \<not> occupied e"
      using empty_least [OF s'(2) that] by (metis stable_occupied)
    ultimately show ?thesis
      using that [OF s'(1) _ s'(3,4)] s'(2,5) None len by (auto simp: index_of_None least_important_def)
  next
    case (Some i)
    obtain s1 where s1: "etharp_update_arp_entry E s nif ip mac ETHARP_FLAG_TRY_HARD = ret (s1, ERR_OK)"
      "table_ok (arp_table s1)" "arp_table s1 = ?t[i := stable_entry ip nif mac]"
      "arp_map (arp_table s1) = (arp_map ?t)((ip, nif) \<mapsto> mac)"
      using update_match [OF assms Some, of ETHARP_FLAG_TRY_HARD] by blast
    have "i < ARP_TABLE_SIZE" using index_of_SomeD [OF Some] len by simp
    then show ?thesis using that [OF s1(1) _ s1(2,3)] s1(4) learns_plain by simp
  qed
  have "arp_table s' ! i = stable_entry ip nif mac" using s'(2,4) len by simp
  from find_addr_stable [OF s'(3,2) this, of E] s'(1,3,5,6) show ?thesis by blast
qed

lemma update_find_only:
  assumes "driver_ok E tx" and "netifs s nif = Some n" and "netif_ok n" and "unicast ip n" and "length mac = 6"
    and "table_ok (arp_table s)" and "queues_ok s"
  shows "if \<exists>e \<in> set (arp_table s). entry_matches (Some ip) (Some nif) e
     then \<exists>s'. etharp_update_arp_entry E s nif ip mac ETHARP_FLAG_FIND_ONLY = ret (s', ERR_OK) \<and>
       table_ok (arp_table s') \<and> arp_map (arp_table s') = (arp_map (arp_table s))((ip, nif) \<mapsto> mac)
     else etharp_update_arp_entry E s nif ip mac ETHARP_FLAG_FIND_ONLY = ret (s, ERR_MEM)"
proof (cases "index_of (entry_matches (Some ip) (Some nif)) (arp_table s)")
  case None
  have len: "length (arp_table s) = ARP_TABLE_SIZE" using assms(6) by (simp add: table_ok_def)
  have "etharp_update_arp_entry E s nif ip mac ETHARP_FLAG_FIND_ONLY = ret (s, ERR_MEM)"
    using etharp_find_entry_none [OF None len, of ETHARP_FLAG_FIND_ONLY E] assms(2,3,4)
    by (simp add: etharp_update_arp_entry_def netif_ok_def unicast_def)
  with None show ?thesis by (auto simp: index_of_None)
next
  case (Some i)
  then have "\<exists>e \<in> set (arp_table s). entry_matches (Some ip) (Some nif) e"
    using index_of_SomeD nth_mem by metis
  with update_match [OF assms Some, of ETHARP_FLAG_FIND_ONLY] show ?thesis by auto
qed

text \<open>
  C3: the ARP table implements a map from an address on an interface to a hardware address. On a
  well-formed table, \<open>etharp_update_arp_entry\<close> for a unicast address with
  \<open>ETHARP_FLAG_TRY_HARD\<close> returns \<open>ERR_OK\<close>, keeps the table well-formed and enters the pair,
  losing at most one other pair, and none when the address is known or an entry is free; afterwards
  \<open>etharp_find_addr\<close> finds it. With \<open>ETHARP_FLAG_FIND_ONLY\<close> it replaces the hardware address of
  a known address and changes nothing for an unknown one.
\<close>

theorem etharp_update_refines:
  assumes "driver_ok E tx" and "netifs s nif = Some n" and "netif_ok n" and "unicast ip n" and "length mac = 6"
    and "table_ok (arp_table s)" and "queues_ok s"
  shows "(\<exists>s' i. etharp_update_arp_entry E s nif ip mac ETHARP_FLAG_TRY_HARD = ret (s', ERR_OK) \<and>
      table_ok (arp_table s') \<and> learns (arp_map (arp_table s)) (ip, nif) mac (arp_map (arp_table s')) \<and>
      ((\<exists>e \<in> set (arp_table s). \<not> occupied e \<or> entry_matches (Some ip) (Some nif) e) \<longrightarrow>
        arp_map (arp_table s') = (arp_map (arp_table s))((ip, nif) \<mapsto> mac)) \<and>
      etharp_find_addr E s' (Some nif) (Some ip) = ret (s', Some (i, mac, ip))) \<and>
    (if \<exists>e \<in> set (arp_table s). entry_matches (Some ip) (Some nif) e
     then \<exists>s'. etharp_update_arp_entry E s nif ip mac ETHARP_FLAG_FIND_ONLY = ret (s', ERR_OK) \<and>
       table_ok (arp_table s') \<and> arp_map (arp_table s') = (arp_map (arp_table s))((ip, nif) \<mapsto> mac)
     else etharp_update_arp_entry E s nif ip mac ETHARP_FLAG_FIND_ONLY = ret (s, ERR_MEM))"
  using update_try_hard [OF assms] update_find_only [OF assms] by (rule conjI)

theorem etharp_update_refines_witness:
  "\<exists>s' i. etharp_update_arp_entry ex_lenv ex_lwip 100 0x0901A8C0 [2, 0, 0, 0, 0, 9] ETHARP_FLAG_TRY_HARD = ret (s', ERR_OK) \<and>
     arp_map (arp_table s') = (arp_map (arp_table ex_lwip))((0x0901A8C0, 100) \<mapsto> [2, 0, 0, 0, 0, 9]) \<and>
     etharp_find_addr ex_lenv s' (Some 100) (Some 0x0901A8C0) = ret (s', Some (i, [2, 0, 0, 0, 0, 9], 0x0901A8C0))"
  using etharp_update_refines [OF ex_driver_ok, of ex_lwip 100 ex_netif "0x0901A8C0" "[2, 0, 0, 0, 0, 9]"]
    ex_netif_ok ex_unicast ex_table_ok ex_queues_ok
  by (auto simp: empty_entry_def)

lemma ref_succ: "(r :: u8) \<noteq> 255 \<Longrightarrow> r + 1 > 0"
proof -
  assume r: "r \<noteq> 255"
  have "(255 :: u8) = - 1" by simp
  with r have "r + 1 \<noteq> 0" unfolding eq_neg_iff_add_eq_0 [symmetric] by metis
  then show ?thesis by (simp add: word_gt_0)
qed

text \<open>
  C4: a packet for an unknown address is delivered when the address becomes known.
  \<open>etharp_query\<close> for an address that is not in the table, with a free entry, queues the packet
  with an additional reference and broadcasts an ARP request (unless there is no memory for one).
  The \<open>etharp_update_arp_entry\<close> of the answer then sends the packet in a frame to that hardware
  address, and the packet is left with the references it had before.
\<close>

theorem etharp_query_reply:
  assumes "driver_ok E tx" and "netifs s nif = Some n" and "netif_ok n" and "unicast ip n" and "length mac = 6"
    and "table_ok (arp_table s)" and "queues_ok s"
    and "\<forall>e \<in> set (arp_table s). \<not> entry_matches (Some ip) (Some nif) e" and "\<exists>e \<in> set (arp_table s). \<not> occupied e"
    and "malloc_fresh (penv_of E) (eps s)" and "packet_chain (eps s) p as" and "header_fits (eps s) p 14"
    and "\<forall>a \<in> set (p # as). 0 < unat (len (the (pbufs (eps s) a))) \<and> \<not> PBUF_NEEDS_COPY (the (pbufs (eps s) a))"
    and "ref (the (pbufs (eps s) p)) \<noteq> 255"
  shows "\<exists>s1 s2 b. etharp_query E s nif ip (Some p) = ret (s1, ERR_OK) \<and>
    world s1 = (if malloc (penv_of E) (eps s) 66 = None then world s
      else fst (tx (linkoutput n) nif (request_frame n ethbroadcast ip) (world s))) \<and>
    etharp_update_arp_entry E s1 nif ip mac ETHARP_FLAG_FIND_ONLY = ret (s2, ERR_OK) \<and>
    world s2 = fst (tx (linkoutput n) nif (eth_frame mac (hwaddr n) ETHTYPE_IP (data (eps s) (p # as))) (world s1)) \<and>
    pbufs (eps s2) p = Some b \<and> ref b = ref (the (pbufs (eps s) p))"
proof -
  have ch: "chain (pbufs (eps s)) (Some p) (p # as)" "tot_ok (pbufs (eps s)) (p # as)"
    using assms(11) by (simp_all add: packet_chain_def)
  obtain b where b: "pbufs (eps s) p = Some b" using ch(1) by auto
  have r: "ref b + 1 > 0" "ref b > 0"
    using ref_succ assms(11,14) b by (auto simp: packet_chain_def releasable_def)
  have none: "index_of (entry_matches (Some ip) (Some nif)) (arp_table s) = None"
    using assms(8) by (simp add: index_of_None)
  obtain s1 i m where s1: "etharp_query E s nif ip (Some p) = ret (s1, ERR_OK)" "i < ARP_TABLE_SIZE"
    "\<not> occupied (arp_table s ! i)" "arp_table s1 = (arp_table s)[i := pending_entry ip nif m (Some p)]"
    "eps s1 = upd (eps s) p (b\<lparr>ref := ref b + 1\<rparr>)" "netifs s1 = netifs s"
    "world s1 = (if malloc (penv_of E) (eps s) 66 = None then world s
      else fst (tx (linkoutput n) nif (request_frame n ethbroadcast ip) (world s)))"
    using query_new [OF assms(1-4,6,7) none assms(9,10) ch assms(13) b] assms(14) b by auto
  have len: "length (arp_table s) = ARP_TABLE_SIZE" using assms(6) by (simp add: table_ok_def)
  have e: "arp_table s1 ! i = pending_entry ip nif m (Some p)" using s1(2,4) len by simp
  have ok: "table_ok (arp_table s1)"
    unfolding s1(4) using assms(6,8) s1(2) len by (intro table_ok_update) (auto simp: pending_entry_def)
  have packets: "packet_ok (eps s1) x" if "packet_ok (eps s) x" for x
    unfolding s1(5) using packet_ok_ref [OF that b r(1)] .
  have "packet_ok (eps s) p" using assms(11) unfolding packet_ok_def by blast
  then have q: "queues_ok s1"
    using assms(7) packets set_update_subset_insert [of "arp_table s" i "pending_entry ip nif m (Some p)"]
    unfolding queues_ok_def s1(4) by (auto simp: pending_entry_def)
  have idx: "index_of (entry_matches (Some ip) (Some nif)) (arp_table s1) = Some i"
    unfolding index_of_Some s1(4) using s1(2) assms(8) len
    by (auto simp: entry_matches_def pending_entry_def)
  obtain s2 where s2: "etharp_update_arp_entry E s1 nif ip mac ETHARP_FLAG_FIND_ONLY = ret (s2, ERR_OK)"
    "world s2 = sent tx s1 nif n p as mac" "eps s2 = free_spec (headed (eps s1) n p mac) (p # as)"
    using update_match [OF assms(1) _ assms(3-5) ok q idx, of ETHARP_FLAG_FIND_ONLY] assms(2) s1(6) e
      ch(1) [folded ref_shape(1) [OF b, of "ref b + 1"], folded s1(5)]
    by (auto simp: pending_entry_def)
  have fits: "header_fits (eps s1) p 14" using assms(12) unfolding s1(5) ref_shape(6) [OF b] .
  have "sent tx s1 nif n p as mac =
      fst (tx (linkoutput n) nif (eth_frame mac (hwaddr n) ETHTYPE_IP (data (eps s) (p # as))) (world s1))"
    using fits ref_shape(5) [OF b, of "ref b + 1" "p # as", folded s1(5)] unfolding sent_def by simp
  moreover have "\<exists>b'. pbufs (eps s2) p = Some b' \<and> ref b' = ref b"
    unfolding s2(3) headed_def using fits r(2) s1(5) by (simp add: with_header_def Let_def word_gt_0)
  ultimately show ?thesis using s1(1,7) s2(1,2) b by auto
qed

theorem etharp_query_reply_witness:
  "\<exists>s1 s2. etharp_query ex_lenv ex_lwip 100 0x0901A8C0 (Some 7000) = ret (s1, ERR_OK) \<and>
    world s1 = [(100, request_frame ex_netif ethbroadcast 0x0901A8C0)] \<and>
    etharp_update_arp_entry ex_lenv s1 100 0x0901A8C0 [2, 0, 0, 0, 0, 9] ETHARP_FLAG_FIND_ONLY = ret (s2, ERR_OK) \<and>
    world s2 = [(100, request_frame ex_netif ethbroadcast 0x0901A8C0),
      (100, eth_frame [2, 0, 0, 0, 0, 9] [2, 0, 0, 0, 0, 1] ETHTYPE_IP (data ex_heap [7000]))]"
proof -
  have malloc: "malloc ex_env ex_heap 66 \<noteq> None" by (simp add: ex_env_def)
  have "packet_chain ex_heap 7000 []" using ex_packet by (simp add: packet_chain_def)
  moreover have "0 < unat (len (the (pbufs ex_heap 7000))) \<and> \<not> PBUF_NEEDS_COPY (the (pbufs ex_heap 7000)) \<and>
      ref (the (pbufs ex_heap 7000)) \<noteq> 255"
    by (simp add: ex_heap_def PBUF_NEEDS_COPY_def)
  ultimately show ?thesis
    using etharp_query_reply [OF ex_driver_ok, of ex_lwip 100 ex_netif "0x0901A8C0" "[2, 0, 0, 0, 0, 9]" 7000 "[]"]
      ex_netif_ok ex_unicast ex_table_ok ex_queues_ok ex_heap_fresh ex_packet(6) malloc
    by (auto simp: empty_entry_def entry_matches_def ex_tx_def)
qed

text \<open>
  C19: \<open>etharp_find_entry\<close> for an address that is not in the table recycles the least important
  entry when it may (\<open>ETHARP_FLAG_TRY_HARD\<close>): the first free one, else the oldest stable one, else the
  oldest pending one without a queued packet, else the oldest pending one. The packet queued on that entry
  is released, no other entry changes, and none of the function's assertions fails.
\<close>

theorem etharp_find_entry_recycles:
  assumes "table_ok (arp_table s)" and "queues_ok s"
    and "\<forall>e \<in> set (arp_table s). \<not> entry_matches (Some ip) nif e"
  shows "\<exists>i ps mac. etharp_find_entry E s (Some ip) ETHARP_FLAG_TRY_HARD nif =
      ret (s\<lparr>eps := ps, arp_table := (arp_table s)[i := fresh_entry ip nif mac]\<rparr>, Inr i) \<and>
    least_important (arp_table s) i \<and> released (eps s) (arp_q (arp_table s ! i)) ps"
  using etharp_find_entry_new [of ip nif s ETHARP_FLAG_TRY_HARD E] assms by (simp add: index_of_None)

theorem etharp_find_entry_recycles_witness:
  "\<exists>i ps mac. etharp_find_entry ex_lenv ex_lwip (Some 0x0901A8C0) ETHARP_FLAG_TRY_HARD (Some 100) =
      ret (ex_lwip\<lparr>eps := ps, arp_table := (replicate 10 empty_entry)[i := fresh_entry 0x0901A8C0 (Some 100) mac]\<rparr>, Inr i) \<and>
    least_important (replicate 10 empty_entry) i"
  using etharp_find_entry_recycles [of ex_lwip "0x0901A8C0" "Some 100" ex_lenv] ex_table_ok ex_queues_ok
  by (auto simp: entry_matches_def empty_entry_def)

text \<open>
  C20: \<open>etharp_raw\<close> with a working driver sends exactly one frame, the ARP packet of RFC 826 with the
  given addresses behind an Ethernet header, and releases its buffer; without memory it returns
  \<open>ERR_MEM\<close> and sends nothing. It returns \<open>ERR_OK\<close> also when the driver reports an error.
\<close>

theorem etharp_raw_sends:
  assumes "driver_ok E tx" and "netifs s nif = Some n" and "hwaddr_len n = ETH_HWADDR_LEN"
    and "malloc_fresh (penv_of E) (eps s)"
    and "length ethsrc = 6" and "length ethdst = 6" and "length hwsrc = 6" and "length hwdst = 6"
  shows "etharp_raw E s (Some nif) ethsrc ethdst hwsrc ipsrc hwdst ipdst opcode = ret
    (if malloc (penv_of E) (eps s) 66 = None then (etharp_stats_inc sp_memerr_update s, ERR_MEM)
     else (etharp_stats_inc sp_xmit_update s \<lparr>world := fst (tx (linkoutput n) nif
        (ethdst @ ethsrc @ [8, 6] @ [0, 1, 8, 0, 6, 4] @ be16 opcode @ hwsrc @ bytes32 ipsrc @ hwdst @ bytes32 ipdst)
        (world s))\<rparr>, ERR_OK))"
  using etharp_raw_run [OF assms] by (simp add: raw_result_def eth_frame_def arp_packet_def be16_consts)

theorem etharp_raw_sends_witness:
  "etharp_raw ex_lenv ex_lwip (Some 100) [2, 0, 0, 0, 0, 1] ethbroadcast [2, 0, 0, 0, 0, 1] 0x0201A8C0 ethzero 0x0901A8C0 1 =
    ret (etharp_stats_inc sp_xmit_update ex_lwip \<lparr>world := [(100,
      [255, 255, 255, 255, 255, 255, 2, 0, 0, 0, 0, 1, 8, 6, 0, 1, 8, 0, 6, 4, 0, 1, 2, 0, 0, 0, 0, 1, 192, 168, 1, 2,
       0, 0, 0, 0, 0, 0, 192, 168, 1, 9])]\<rparr>, ERR_OK)"
proof -
  have "malloc ex_env ex_heap 66 \<noteq> None" by (simp add: ex_env_def)
  then show ?thesis
    using etharp_raw_sends [OF ex_driver_ok, of ex_lwip 100 ex_netif "[2, 0, 0, 0, 0, 1]" ethbroadcast
        "[2, 0, 0, 0, 0, 1]" ethzero "0x0201A8C0" "0x0901A8C0" 1] ex_heap_fresh
    by (auto simp: ex_tx_def ethbroadcast_def ethzero_def bytes32_def be16_consts)
qed

end
