(* ===== verification/Acd_Props.thy ===== *)
theory Acd_Props
  imports Acd Etharp_Props
begin

text \<open>
  Address conflict detection in time: what one call of \<open>acd_tmr\<close> does to a client in every phase of
  probing and announcing, a measure that every tick decreases, and the property that
  a client started on an address without conflict gets \<open>ACD_IP_OK\<close> after a bounded number of ticks.
\<close>

section \<open>One tick of a client\<close>

lemma bindR_ret [simp]: "bindR m ret = m"
  by (cases m) (auto simp: bindR_def ret_def split: outcome.split)

lemma acd_at_Some [simp]: "acds s a = Some c \<Longrightarrow> acd_at s a = ret c"
  by (simp add: acd_at_def)

lemma acd_upd_Some [simp]: "acds s a = Some c \<Longrightarrow> acd_upd s a f = ret (s\<lparr>acds := (acds s)(a \<mapsto> f c)\<rparr>)"
  by (simp add: acd_upd_def)

text \<open>
  What is relied on of \<open>rand\<close> and of the driver: \<open>rand\<close> changes only its own part of the
  world and not the frames on the wire; the driver puts the frame it is given on the wire.
\<close>

definition rand_ok :: "'w lenv \<Rightarrow> ('w \<Rightarrow> u8 list list) \<Rightarrow> bool" where
  "rand_ok E wire \<longleftrightarrow> (\<forall>s. \<exists>w r. lwip_rand E s = (s\<lparr>world := w\<rparr>, r) \<and> wire w = wire (world s))"

definition wire_ok :: "(nat \<Rightarrow> nat \<Rightarrow> u8 list \<Rightarrow> 'w \<Rightarrow> 'w \<times> err_t) \<Rightarrow> ('w \<Rightarrow> u8 list list) \<Rightarrow> bool" where
  "wire_ok tx wire \<longleftrightarrow> (\<forall>f nif d w. wire (fst (tx f nif d w)) = wire w @ [d])"

definition probe_frame :: "netif \<Rightarrow> u32 \<Rightarrow> u8 list" where
  "probe_frame n ip = eth_frame ethbroadcast (hwaddr n) ETHTYPE_ARP (arp_packet ARP_REQUEST (hwaddr n) IPADDR_ANY ethzero ip)"

definition announce_frame :: "netif \<Rightarrow> u32 \<Rightarrow> u8 list" where
  "announce_frame n ip = eth_frame ethbroadcast (hwaddr n) ETHTYPE_ARP (arp_packet ARP_REQUEST (hwaddr n) ip ethzero ip)"

text \<open>The surroundings of a client that its timer leaves alone.\<close>

definition same_net :: "'w lwip \<Rightarrow> 'w lwip \<Rightarrow> bool" where
  "same_net s s' \<longleftrightarrow> eps s' = eps s \<and> netifs s' = netifs s \<and> netif_list s' = netif_list s"

definition frames :: "'w lenv \<Rightarrow> 'w lwip \<Rightarrow> u8 list list \<Rightarrow> u8 list list" where
  "frames E s fs = (if malloc (penv_of E) (eps s) 66 = None then [] else fs)"

lemma acd_probe_run:
  assumes "driver_ok E tx" and "wire_ok tx wire" and "netifs s nif = Some n" and "netif_ok n"
    and "malloc_fresh (penv_of E) (eps s)"
  shows "\<exists>s' e. etharp_acd_probe E s (Some nif) ip = ret (s', e) \<and> same_net s s' \<and> acds s' = acds s \<and>
      wire (world s') = wire (world s) @ frames E s [probe_frame n ip]"
    and "\<exists>s' e. etharp_acd_announce E s (Some nif) ip = ret (s', e) \<and> same_net s s' \<and> acds s' = acds s \<and>
      wire (world s') = wire (world s) @ frames E s [announce_frame n ip]"
proof -
  let ?r = "\<lambda>fr. raw_result E tx s nif n fr"
  have "same_net s (fst (?r fr)) \<and> acds (fst (?r fr)) = acds s \<and>
      wire (world (fst (?r fr))) = wire (world s) @ frames E s [fr]" for fr
    using assms(2) by (simp add: same_net_def wire_ok_def frames_def)
  moreover have "etharp_acd_probe E s (Some nif) ip = ret (?r (probe_frame n ip))"
    "etharp_acd_announce E s (Some nif) ip = ret (?r (announce_frame n ip))"
    using etharp_raw_run [OF assms(1,3) _ assms(5)] assms(3,4)
    by (simp_all add: etharp_acd_probe_def etharp_acd_announce_def netif_ok_def probe_frame_def announce_frame_def)
  ultimately show "\<exists>s' e. etharp_acd_probe E s (Some nif) ip = ret (s', e) \<and> same_net s s' \<and> acds s' = acds s \<and>
      wire (world s') = wire (world s) @ frames E s [probe_frame n ip]"
    "\<exists>s' e. etharp_acd_announce E s (Some nif) ip = ret (s', e) \<and> same_net s s' \<and> acds s' = acds s \<and>
      wire (world s') = wire (world s) @ frames E s [announce_frame n ip]"
    by (metis prod.collapse)+
qed

text \<open>The client after its two counters are decremented.\<close>

definition ticked :: "acd \<Rightarrow> acd" where
  "ticked c = c\<lparr>lastconflict := (if lastconflict c > 0 then lastconflict c - 1 else 0),
     ttw := (if ttw c > 0 then ttw c - 1 else 0)\<rparr>"

definition probing :: "acd \<Rightarrow> bool" where
  "probing c \<longleftrightarrow> acd_state c = ACD_STATE_PROBE_WAIT \<or> acd_state c = ACD_STATE_PROBING"

definition announcing :: "acd \<Rightarrow> bool" where
  "announcing c \<longleftrightarrow> acd_state c = ACD_STATE_ANNOUNCE_WAIT \<or> acd_state c = ACD_STATE_ANNOUNCING"

lemma acd_tmr_wait:
  assumes "acds s a = Some c" and "probing c \<or> announcing c" and "1 < ttw c"
  shows "acd_tmr_client E s nif a = ret (s\<lparr>acds := (acds s)(a \<mapsto> ticked c)\<rparr>)"
proof -
  have "ttw c \<noteq> 1" "ttw c \<noteq> 0" using assms(3) by auto
  then have t: "ttw c > 0" "ttw c - 1 \<noteq> 0" by (simp_all add: word_gt_0)
  show ?thesis
  proof (cases "lastconflict c > 0")
    case True
    then show ?thesis using assms(1,2) t unfolding probing_def announcing_def
      by (simp add: acd_tmr_client_def ticked_def)
  next
    case False
    then show ?thesis using assms(1,2) t unfolding probing_def announcing_def
      by (cases c) (simp add: acd_tmr_client_def ticked_def word_gt_0)
  qed
qed

lemma acd_tmr_start:
  assumes "acds s a = Some c"
  shows "bindR (acd_upd s a (\<lambda>c. if lastconflict c > 0 then c\<lparr>lastconflict := lastconflict c - 1\<rparr> else c)) (\<lambda>s1.
     bindR (acd_upd s1 a (\<lambda>c. if ttw c > 0 then c\<lparr>ttw := ttw c - 1\<rparr> else c)) f) =
     f (s\<lparr>acds := (acds s)(a \<mapsto> ticked c)\<rparr>)"
proof -
  have "(let c1 = (if lastconflict c > 0 then c\<lparr>lastconflict := lastconflict c - 1\<rparr> else c) in
      if ttw c1 > 0 then c1\<lparr>ttw := ttw c1 - 1\<rparr> else c1) = ticked c"
    by (cases c) (auto simp: ticked_def word_gt_0)
  then show ?thesis using assms by (simp add: Let_def)
qed

lemma ticked_simps [simp]:
  "acd_state (ticked c) = acd_state c" "sent_num (ticked c) = sent_num c" "acd_ipaddr (ticked c) = acd_ipaddr c"
  "acd_next (ticked c) = acd_next c" "acd_conflict_callback (ticked c) = acd_conflict_callback c"
  "num_conflicts (ticked c) = num_conflicts c"
  by (simp_all add: ticked_def)

lemma ttw_ticked: "ttw c \<le> 1 \<Longrightarrow> ttw (ticked c) = 0"
proof -
  assume "ttw c \<le> 1"
  then have "ttw c = 0 \<or> ttw c = 1" by (metis order.not_eq_order_implies_strict word_less_1)
  then show ?thesis by (auto simp: ticked_def)
qed

lemma probe_interval: "10 \<le> unat (ucast (ACD_RANDOM_PROBE_INTERVAL r) :: u16)" "unat (ucast (ACD_RANDOM_PROBE_INTERVAL r) :: u16) \<le> 19"
proof -
  have "unat (r mod 10) < 10" by (simp add: unat_mod_distrib)
  then have "unat (r mod 10 + 10) = unat (r mod 10) + 10" by (simp add: unat_word_ariths)
  moreover have "unat (ucast (r mod 10 + 10) :: u16) = unat (r mod 10 + 10)"
    using calculation \<open>unat (r mod 10) < 10\<close> by (simp add: unsigned_ucast_eq unsigned_take_bit_eq take_bit_nat_eq_self_iff)
  ultimately show "10 \<le> unat (ucast (ACD_RANDOM_PROBE_INTERVAL r) :: u16)" "unat (ucast (ACD_RANDOM_PROBE_INTERVAL r) :: u16) \<le> 19"
    using \<open>unat (r mod 10) < 10\<close> by (simp_all add: ACD_RANDOM_PROBE_INTERVAL_def)
qed

text \<open>The environment of the timer: one interface with one client.\<close>

definition acd_env_ok :: "'w lenv \<Rightarrow> (nat \<Rightarrow> nat \<Rightarrow> u8 list \<Rightarrow> 'w \<Rightarrow> 'w \<times> err_t) \<Rightarrow> ('w \<Rightarrow> u8 list list) \<Rightarrow>
    'w lwip \<Rightarrow> nat \<Rightarrow> netif \<Rightarrow> bool" where
  "acd_env_ok E tx wire s nif n \<longleftrightarrow> driver_ok E tx \<and> wire_ok tx wire \<and> rand_ok E wire \<and>
     netifs s nif = Some n \<and> netif_ok n \<and> malloc_fresh (penv_of E) (eps s)"

lemma acd_env_ok_same: "acd_env_ok E tx wire s nif n \<Longrightarrow> same_net s s' \<Longrightarrow> acd_env_ok E tx wire s' nif n"
  by (simp add: acd_env_ok_def same_net_def)

lemma acd_tmr_probe:
  assumes "acd_env_ok E tx wire s nif n" and "acds s a = Some c" and "probing c" and "ttw c \<le> 1"
    and "sent_num c = 0 \<or> sent_num c = 1"
  shows "\<exists>s' t. acd_tmr_client E s nif a = ret s' \<and> same_net s s' \<and>
    acds s' a = Some ((ticked c)\<lparr>acd_state := ACD_STATE_PROBING, sent_num := sent_num c + 1, ttw := t\<rparr>) \<and>
    10 \<le> unat t \<and> unat t \<le> 19 \<and>
    wire (world s') = wire (world s) @ frames E s [probe_frame n (acd_ipaddr c)]"
proof -
  let ?c = "ticked c"
  let ?s3 = "s\<lparr>acds := (acds s)(a \<mapsto> ?c\<lparr>acd_state := ACD_STATE_PROBING\<rparr>)\<rparr>"
  note env = assms(1) [unfolded acd_env_ok_def]
  obtain s4 e where s4: "etharp_acd_probe E ?s3 (Some nif) (acd_ipaddr c) = ret (s4, e)" "same_net ?s3 s4"
    "acds s4 = acds ?s3" "wire (world s4) = wire (world ?s3) @ frames E ?s3 [probe_frame n (acd_ipaddr c)]"
    using acd_probe_run(1) [of E tx wire ?s3 nif n "acd_ipaddr c"] env by auto
  let ?s5 = "s4\<lparr>acds := (acds s4)(a \<mapsto> ?c\<lparr>acd_state := ACD_STATE_PROBING, sent_num := sent_num c + 1\<rparr>)\<rparr>"
  obtain w r where r: "lwip_rand E ?s5 = (?s5\<lparr>world := w\<rparr>, r)" "wire w = wire (world ?s5)"
    using env unfolding rand_ok_def by blast
  have p: "acd_state ?c = ACD_STATE_PROBE_WAIT \<or> acd_state ?c = ACD_STATE_PROBING" using assms(3) by (simp add: probing_def)
  have sent: "\<not> sent_num c + 1 \<ge> 3" using assms(5) by (auto simp: word_le_nat_alt)
  have "acd_tmr_client E s nif a = ret (?s5\<lparr>world := w,
      acds := (acds ?s5)(a \<mapsto> ?c\<lparr>acd_state := ACD_STATE_PROBING, sent_num := sent_num c + 1,
        ttw := ucast (ACD_RANDOM_PROBE_INTERVAL r)\<rparr>)\<rparr>)"
    using p ttw_ticked [OF assms(4)] s4(1,3) sent r(1)
    unfolding acd_tmr_client_def acd_tmr_start [OF assms(2)] by simp
  then show ?thesis
    using s4 r(2) probe_interval [of r]
    by (intro exI [of _ "?s5\<lparr>world := w,
      acds := (acds ?s5)(a \<mapsto> ?c\<lparr>acd_state := ACD_STATE_PROBING, sent_num := sent_num c + 1,
        ttw := ucast (ACD_RANDOM_PROBE_INTERVAL r)\<rparr>)\<rparr>"] exI [of _ "ucast (ACD_RANDOM_PROBE_INTERVAL r)"])
      (simp add: same_net_def frames_def)
qed

lemma acd_tmr_last_probe:
  assumes "acd_env_ok E tx wire s nif n" and "acds s a = Some c" and "probing c" and "ttw c \<le> 1" and "sent_num c = 2"
  shows "\<exists>s'. acd_tmr_client E s nif a = ret s' \<and> same_net s s' \<and>
    acds s' a = Some ((ticked c)\<lparr>acd_state := ACD_STATE_ANNOUNCE_WAIT, sent_num := 0, ttw := 20\<rparr>) \<and>
    wire (world s') = wire (world s) @ frames E s [probe_frame n (acd_ipaddr c)]"
proof -
  let ?c = "ticked c"
  let ?s3 = "s\<lparr>acds := (acds s)(a \<mapsto> ?c\<lparr>acd_state := ACD_STATE_PROBING\<rparr>)\<rparr>"
  note env = assms(1) [unfolded acd_env_ok_def]
  obtain s4 e where s4: "etharp_acd_probe E ?s3 (Some nif) (acd_ipaddr c) = ret (s4, e)" "same_net ?s3 s4"
    "acds s4 = acds ?s3" "wire (world s4) = wire (world ?s3) @ frames E ?s3 [probe_frame n (acd_ipaddr c)]"
    using acd_probe_run(1) [of E tx wire ?s3 nif n "acd_ipaddr c"] env by auto
  have p: "acd_state ?c = ACD_STATE_PROBE_WAIT \<or> acd_state ?c = ACD_STATE_PROBING" using assms(3) by (simp add: probing_def)
  let ?s5 = "s4\<lparr>acds := (acds s4)(a \<mapsto> ?c\<lparr>acd_state := ACD_STATE_ANNOUNCE_WAIT, sent_num := 0, ttw := 20\<rparr>)\<rparr>"
  have "acd_tmr_client E s nif a = ret ?s5"
    using p ttw_ticked [OF assms(4)] s4(1,3) assms(5)
    unfolding acd_tmr_client_def acd_tmr_start [OF assms(2)] by simp
  then show ?thesis
    using s4 by (intro exI [of _ ?s5]) (simp add: same_net_def frames_def)
qed

lemma acd_tmr_announce:
  assumes "acd_env_ok E tx wire s nif n" and "acds s a = Some c" and "acd_state c = ACD_STATE_ANNOUNCE_WAIT"
    and "ttw c \<le> 1" and "sent_num c = 0"
  shows "\<exists>s'. acd_tmr_client E s nif a = ret s' \<and> same_net s s' \<and>
    acds s' a = Some ((ticked c)\<lparr>acd_state := ACD_STATE_ANNOUNCING, num_conflicts := 0, ttw := 20, sent_num := 1\<rparr>) \<and>
    wire (world s') = wire (world s) @ frames E s [announce_frame n (acd_ipaddr c)]"
proof -
  let ?c = "ticked c"
  let ?s3 = "s\<lparr>acds := (acds s)(a \<mapsto> ?c\<lparr>acd_state := ACD_STATE_ANNOUNCING, num_conflicts := 0\<rparr>)\<rparr>"
  note env = assms(1) [unfolded acd_env_ok_def]
  obtain s4 e where s4: "etharp_acd_announce E ?s3 (Some nif) (acd_ipaddr c) = ret (s4, e)" "same_net ?s3 s4"
    "acds s4 = acds ?s3" "wire (world s4) = wire (world ?s3) @ frames E ?s3 [announce_frame n (acd_ipaddr c)]"
    using acd_probe_run(2) [of E tx wire ?s3 nif n "acd_ipaddr c"] env by auto
  let ?s5 = "s4\<lparr>acds := (acds s4)(a \<mapsto> ?c\<lparr>acd_state := ACD_STATE_ANNOUNCING, num_conflicts := 0, ttw := 20, sent_num := 1\<rparr>)\<rparr>"
  have "acd_tmr_client E s nif a = ret ?s5"
    using assms(3,5) ttw_ticked [OF assms(4)] s4(1,3)
    unfolding acd_tmr_client_def acd_tmr_start [OF assms(2)] by (simp add: word_le_nat_alt)
  then show ?thesis
    using s4 by (intro exI [of _ ?s5]) (simp add: same_net_def frames_def)
qed

lemma acd_tmr_last_announce:
  assumes "acd_env_ok E tx wire s nif n" and "acds s a = Some c" and "acd_state c = ACD_STATE_ANNOUNCING"
    and "ttw c \<le> 1" and "sent_num c = 1"
  shows "\<exists>s'. acd_tmr_client E s nif a = acd_callback_fn E (acd_conflict_callback c) nif ACD_IP_OK s' \<and> same_net s s' \<and>
    acds s' a = Some ((ticked c)\<lparr>acd_state := ACD_STATE_ONGOING, sent_num := 0, ttw := 0\<rparr>) \<and>
    wire (world s') = wire (world s) @ frames E s [announce_frame n (acd_ipaddr c)]"
proof -
  let ?c = "ticked c"
  let ?s3 = "s\<lparr>acds := (acds s)(a \<mapsto> ?c)\<rparr>"
  note env = assms(1) [unfolded acd_env_ok_def]
  obtain s4 e where s4: "etharp_acd_announce E ?s3 (Some nif) (acd_ipaddr c) = ret (s4, e)" "same_net ?s3 s4"
    "acds s4 = acds ?s3" "wire (world s4) = wire (world ?s3) @ frames E ?s3 [announce_frame n (acd_ipaddr c)]"
    using acd_probe_run(2) [of E tx wire ?s3 nif n "acd_ipaddr c"] env by auto
  let ?s5 = "s4\<lparr>acds := (acds s4)(a \<mapsto> ?c\<lparr>acd_state := ACD_STATE_ONGOING, sent_num := 0, ttw := 0\<rparr>)\<rparr>"
  have "acd_tmr_client E s nif a = acd_callback_fn E (acd_conflict_callback c) nif ACD_IP_OK ?s5"
    using assms(3,5) ttw_ticked [OF assms(4)] s4(1,3)
    unfolding acd_tmr_client_def acd_tmr_start [OF assms(2)] by (simp add: call_acd_callback_def)
  then show ?thesis
    using s4 by (intro exI [of _ ?s5]) (simp add: same_net_def frames_def)
qed

section \<open>From the start to an address that can be used\<close>

fun acd_ticks :: "'w lenv \<Rightarrow> nat \<Rightarrow> 'w lwip \<Rightarrow> 'w lwip res" where
  "acd_ticks E 0 s = ret s"
| "acd_ticks E (Suc k) s = bindR (acd_tmr E s) (acd_ticks E k)"

text \<open>An upper bound of the ticks, and the frames, until the client reports that the address is good.\<close>

definition remaining :: "acd \<Rightarrow> nat" where
  "remaining c = (if probing c then max 1 (unat (ttw c)) + 19 * (2 - unat (sent_num c)) + 40
     else if acd_state c = ACD_STATE_ANNOUNCE_WAIT then max 1 (unat (ttw c)) + 20
     else max 1 (unat (ttw c)))"

definition pending_frames :: "netif \<Rightarrow> acd \<Rightarrow> u8 list list" where
  "pending_frames n c =
     (if probing c then replicate (3 - unat (sent_num c)) (probe_frame n (acd_ipaddr c)) else []) @
     replicate (if acd_state c = ACD_STATE_ANNOUNCING then 1 else 2) (announce_frame n (acd_ipaddr c))"

definition phase_ok :: "acd \<Rightarrow> bool" where
  "phase_ok c \<longleftrightarrow> probing c \<and> unat (sent_num c) < 3 \<or>
     acd_state c = ACD_STATE_ANNOUNCE_WAIT \<and> sent_num c = 0 \<or>
     acd_state c = ACD_STATE_ANNOUNCING \<and> sent_num c = 1"

lemma acd_tmr_single:
  assumes "netif_list s = [nif]" and "netifs s nif = Some n" and "acd_list n = Some a"
  shows "acd_tmr E s = bindR (acd_tmr_client E s nif a) (\<lambda>s1.
    bindR (acd_at s1 a) (\<lambda>c. acd_tmr_clients E s1 nif (acd_next c)))"
proof -
  have "acd_tmr_netifs E [] = ret" by (rule ext) simp
  with assms show ?thesis by (simp add: acd_tmr_def acd_tmr_clients.simps [of E s nif "Some a"])
qed

lemma acd_tmr_clients_None [simp]: "acd_tmr_clients E s nif None = ret s"
  by (simp add: acd_tmr_clients.simps)

lemma u8_below_3:
  assumes "unat (x :: u8) < 3"
  shows "x = 0 \<or> x = 1 \<or> x = 2"
proof -
  have x: "word_of_nat (unat x) = x" by simp
  have "unat x = 0 \<or> unat x = 1 \<or> unat x = 2" using assms by linarith
  then show ?thesis
  proof (elim disjE)
    assume "unat x = 2"
    then have "x = 2" using x by simp
    then show ?thesis by blast
  next
    assume "unat x = 1"
    then have "x = 1" using x by simp
    then show ?thesis by blast
  qed (simp add: unat_eq_zero)
qed

lemma ttw_ticked_less: "1 < ttw c \<Longrightarrow> unat (ttw (ticked c)) = unat (ttw c) - 1"
proof -
  assume "1 < ttw c"
  then have "1 \<le> ttw c" "ttw c > 0" by (auto simp: word_less_nat_alt word_le_nat_alt)
  then show ?thesis by (simp add: ticked_def unat_sub)
qed

text \<open>A tick that does not reach the end gets closer to it.\<close>

lemma acd_tick_progress:
  assumes "acd_env_ok E tx wire s nif n" and "acds s a = Some c" and "phase_ok c" and "acd_next c = None"
    and "netif_list s = [nif]" and "acd_list n = Some a"
    and "\<not> (acd_state c = ACD_STATE_ANNOUNCING \<and> ttw c \<le> 1)"
  shows "\<exists>s' c'. acd_tmr E s = ret s' \<and> same_net s s' \<and> acds s' a = Some c' \<and> phase_ok c' \<and>
    remaining c' < remaining c \<and> acd_next c' = None \<and> acd_ipaddr c' = acd_ipaddr c \<and>
    acd_conflict_callback c' = acd_conflict_callback c \<and>
    wire (world s') @ frames E s' (pending_frames n c') = wire (world s) @ frames E s (pending_frames n c)"
proof -
  note single = acd_tmr_single [OF assms(5) _ assms(6)]
  have n: "netifs s nif = Some n" using assms(1) by (simp add: acd_env_ok_def)
  have fr: "frames E s' fs = frames E s fs" if "same_net s s'" for s' fs
    using that by (simp add: frames_def same_net_def)
  have app: "frames E s xs @ frames E s ys = frames E s (xs @ ys)" for xs ys by (simp add: frames_def)
  consider "1 < ttw c" | "ttw c \<le> 1" "probing c" "sent_num c = 0 \<or> sent_num c = 1" | "ttw c \<le> 1" "probing c" "sent_num c = 2"
    | "ttw c \<le> 1" "acd_state c = ACD_STATE_ANNOUNCE_WAIT" "sent_num c = 0"
    using assms(3,7) u8_below_3 [of "sent_num c"] unfolding phase_ok_def
    by (cases "1 < ttw c") (auto simp: not_less)
  then show ?thesis
  proof cases
    case 1
    let ?s' = "s\<lparr>acds := (acds s)(a \<mapsto> ticked c)\<rparr>"
    have "probing c \<or> announcing c" using assms(3) by (auto simp: phase_ok_def announcing_def)
    then have "acd_tmr E s = ret ?s'" using single [OF n] acd_tmr_wait [OF assms(2) _ 1] assms(4) by simp
    moreover have "remaining (ticked c) < remaining c"
      using ttw_ticked_less [OF 1] 1 by (simp add: remaining_def probing_def word_less_nat_alt)
    moreover have "phase_ok (ticked c)" "pending_frames n (ticked c) = pending_frames n c"
      using assms(3) by (simp_all add: phase_ok_def probing_def pending_frames_def)
    ultimately show ?thesis
      using assms(4) by (intro exI [of _ ?s'] exI [of _ "ticked c"]) (simp add: same_net_def frames_def)
  next
    case 2
    obtain s' t where s': "acd_tmr_client E s nif a = ret s'" "same_net s s'"
      "acds s' a = Some ((ticked c)\<lparr>acd_state := ACD_STATE_PROBING, sent_num := sent_num c + 1, ttw := t\<rparr>)"
      (is "_ = Some ?c'")
      "10 \<le> unat t" "unat t \<le> 19" "wire (world s') = wire (world s) @ frames E s [probe_frame n (acd_ipaddr c)]"
      using acd_tmr_probe [OF assms(1,2) 2(2,1,3)] by blast
    have "acd_tmr E s = ret s'" using single [OF n] s'(1,3) assms(4) by simp
    moreover have "remaining ?c' < remaining c" "phase_ok ?c'"
      using 2 s'(4,5) by (auto simp: remaining_def probing_def phase_ok_def)
    moreover have "wire (world s') @ frames E s' (pending_frames n ?c') = wire (world s) @ frames E s (pending_frames n c)"
      using 2 s'(6) app by (auto simp: fr [OF s'(2)] pending_frames_def probing_def numeral_3_eq_3)
    ultimately show ?thesis using s'(2,3) assms(4) by (intro exI [of _ s'] exI [of _ ?c']) simp
  next
    case 3
    obtain s' where s': "acd_tmr_client E s nif a = ret s'" "same_net s s'"
      "acds s' a = Some ((ticked c)\<lparr>acd_state := ACD_STATE_ANNOUNCE_WAIT, sent_num := 0, ttw := 20\<rparr>)"
      (is "_ = Some ?c'")
      "wire (world s') = wire (world s) @ frames E s [probe_frame n (acd_ipaddr c)]"
      using acd_tmr_last_probe [OF assms(1,2) 3(2,1,3)] by blast
    have "acd_tmr E s = ret s'" using single [OF n] s'(1,3) assms(4) by simp
    moreover have "remaining ?c' < remaining c" "phase_ok ?c'"
      using 3 by (simp_all add: remaining_def probing_def phase_ok_def)
    moreover have "wire (world s') @ frames E s' (pending_frames n ?c') = wire (world s) @ frames E s (pending_frames n c)"
      using 3 s'(4) app by (auto simp: fr [OF s'(2)] pending_frames_def probing_def)
    ultimately show ?thesis using s'(2,3) assms(4) by (intro exI [of _ s'] exI [of _ ?c']) simp
  next
    case 4
    obtain s' where s': "acd_tmr_client E s nif a = ret s'" "same_net s s'"
      "acds s' a = Some ((ticked c)\<lparr>acd_state := ACD_STATE_ANNOUNCING, num_conflicts := 0, ttw := 20, sent_num := 1\<rparr>)"
      (is "_ = Some ?c'")
      "wire (world s') = wire (world s) @ frames E s [announce_frame n (acd_ipaddr c)]"
      using acd_tmr_announce [OF assms(1,2) 4(2,1,3)] by blast
    have "acd_tmr E s = ret s'" using single [OF n] s'(1,3) assms(4) by simp
    moreover have "remaining ?c' < remaining c" "phase_ok ?c'" using 4 by (simp_all add: remaining_def probing_def phase_ok_def)
    moreover have "wire (world s') @ frames E s' (pending_frames n ?c') = wire (world s) @ frames E s (pending_frames n c)"
      using 4 s'(4) app by (simp add: fr [OF s'(2)] pending_frames_def probing_def numeral_2_eq_2)
    ultimately show ?thesis using s'(2,3) assms(4) by (intro exI [of _ s'] exI [of _ ?c']) simp
  qed
qed

lemma acd_reaches_ok:
  assumes "acd_env_ok E tx wire s nif n" and "acds s a = Some c" and "phase_ok c" and "acd_next c = None"
    and "netif_list s = [nif]" and "acd_list n = Some a"
  shows "\<exists>k s' c'. k \<le> remaining c \<and> acd_ticks E k s =
      bindR (acd_callback_fn E (acd_conflict_callback c) nif ACD_IP_OK s') (\<lambda>s1.
      bindR (acd_at s1 a) (\<lambda>c. acd_tmr_clients E s1 nif (acd_next c))) \<and>
    acds s' a = Some c' \<and> acd_state c' = ACD_STATE_ONGOING \<and> acd_ipaddr c' = acd_ipaddr c \<and> acd_next c' = None \<and>
    wire (world s') = wire (world s) @ frames E s (pending_frames n c)"
  using assms
proof (induction "remaining c" arbitrary: s c rule: less_induct)
  case less
  have n: "netifs s nif = Some n" using less.prems(1) by (simp add: acd_env_ok_def)
  show ?case
  proof (cases "acd_state c = ACD_STATE_ANNOUNCING \<and> ttw c \<le> 1")
    case True
    then have "sent_num c = 1" using less.prems(3) by (auto simp: phase_ok_def probing_def)
    with True obtain s' where s': "acd_tmr_client E s nif a = acd_callback_fn E (acd_conflict_callback c) nif ACD_IP_OK s'"
      "acds s' a = Some ((ticked c)\<lparr>acd_state := ACD_STATE_ONGOING, sent_num := 0, ttw := 0\<rparr>)"
      "wire (world s') = wire (world s) @ frames E s [announce_frame n (acd_ipaddr c)]"
      using acd_tmr_last_announce [OF less.prems(1,2)] by blast
    have "acd_ticks E 1 s = bindR (acd_tmr E s) ret"
    proof -
      have "acd_ticks E 0 = ret" by (rule ext) simp
      then show ?thesis by simp
    qed
    moreover have "1 \<le> remaining c" by (simp add: remaining_def)
    moreover have "pending_frames n c = [announce_frame n (acd_ipaddr c)]"
      using True by (simp add: pending_frames_def probing_def)
    ultimately show ?thesis
      using acd_tmr_single [OF less.prems(5) n less.prems(6), of E] s' less.prems(4) by (intro exI [of _ 1] exI [of _ s']) simp
  next
    case False
    obtain s1 c1 where s1: "acd_tmr E s = ret s1" "same_net s s1" "acds s1 a = Some c1" "phase_ok c1"
      "remaining c1 < remaining c" "acd_next c1 = None" "acd_ipaddr c1 = acd_ipaddr c"
      "acd_conflict_callback c1 = acd_conflict_callback c"
      "wire (world s1) @ frames E s1 (pending_frames n c1) = wire (world s) @ frames E s (pending_frames n c)"
      using acd_tick_progress [OF less.prems False] by blast
    have "netif_list s1 = [nif]" using s1(2) less.prems(5) by (simp add: same_net_def)
    from less.hyps [OF s1(5) acd_env_ok_same [OF less.prems(1) s1(2)] s1(3,4,6) this less.prems(6)]
    obtain k s' c' where k: "k \<le> remaining c1" "acd_ticks E k s1 =
      bindR (acd_callback_fn E (acd_conflict_callback c) nif ACD_IP_OK s') (\<lambda>s1.
      bindR (acd_at s1 a) (\<lambda>c. acd_tmr_clients E s1 nif (acd_next c)))"
      "acds s' a = Some c'" "acd_state c' = ACD_STATE_ONGOING" "acd_ipaddr c' = acd_ipaddr c" "acd_next c' = None"
      "wire (world s') = wire (world s1) @ frames E s1 (pending_frames n c1)"
      unfolding s1(7,8) by blast
    then show ?thesis using s1(1,5,9) by (intro exI [of _ "Suc k"] exI [of _ s'] exI [of _ c']) simp
  qed
qed

lemma probe_wait: "unat (ucast (ACD_RANDOM_PROBE_WAIT r) :: u16) \<le> 9"
proof -
  have "unat (r mod 10) < 10" by (simp add: unat_mod_distrib)
  then show ?thesis by (simp add: ACD_RANDOM_PROBE_WAIT_def unsigned_ucast_eq unsigned_take_bit_eq take_bit_nat_eq_self)
qed

section \<open>Property\<close>

text \<open>
  C37: Without a conflict the detection ends well and in time. On an interface with one client,
  whatever numbers \<open>rand\<close> returns, at most 87 ticks (8.7 seconds) after \<open>acd_start\<close> the timer calls the
  client's callback with \<open>ACD_IP_OK\<close>; the client is then in the state \<open>ACD_STATE_ONGOING\<close> for the
  address it asked for, and the frames sent in between are exactly three ARP probes and two ARP
  announcements. When the heap has no room for an ARP packet no frame is sent at all, and the address is reported
  as good all the same, because the results of \<open>etharp_acd_probe\<close> and \<open>etharp_acd_announce\<close> are ignored.
\<close>

theorem acd_start_reaches_ok:
  assumes "acd_env_ok E tx wire s nif n" and "netif_list s = [nif]" and "acd_list n = Some a"
    and "acds s a = Some c" and "acd_next c = None"
  shows "\<exists>s1 k s2 c2. acd_start E s nif a ip = ret (s1, ERR_OK) \<and> k \<le> 87 \<and>
    acd_ticks E k s1 = bindR (acd_callback_fn E (acd_conflict_callback c) nif ACD_IP_OK s2) (\<lambda>s3.
      bindR (acd_at s3 a) (\<lambda>c. acd_tmr_clients E s3 nif (acd_next c))) \<and>
    acds s2 a = Some c2 \<and> acd_state c2 = ACD_STATE_ONGOING \<and> acd_ipaddr c2 = ip \<and> acd_next c2 = None \<and>
    wire (world s2) = wire (world s) @ (if malloc (penv_of E) (eps s) 66 = None then []
      else replicate 3 (probe_frame n ip) @ replicate 2 (announce_frame n ip))"
proof -
  let ?c = "\<lambda>t. c\<lparr>sent_num := 0, lastconflict := 0, acd_ipaddr := ip, acd_state := ACD_STATE_PROBE_WAIT, ttw := t\<rparr>"
  let ?s0 = "s\<lparr>acds := (acds s)(a \<mapsto> c\<lparr>sent_num := 0, lastconflict := 0, acd_ipaddr := ip, acd_state := ACD_STATE_PROBE_WAIT\<rparr>)\<rparr>"
  obtain w r where r: "lwip_rand E ?s0 = (?s0\<lparr>world := w\<rparr>, r)" "wire w = wire (world ?s0)"
    using assms(1) unfolding acd_env_ok_def rand_ok_def by blast
  define t :: u16 where "t = ucast (ACD_RANDOM_PROBE_WAIT r)"
  let ?s1 = "?s0\<lparr>world := w, acds := (acds s)(a \<mapsto> ?c t)\<rparr>"
  have start: "acd_start E s nif a ip = ret (?s1, ERR_OK)"
    using assms(4) r(1) by (simp add: acd_start_def t_def)
  have same: "same_net s ?s1" by (simp add: same_net_def)
  have "phase_ok (?c t)" "acds ?s1 a = Some (?c t)" "acd_next (?c t) = None" "netif_list ?s1 = [nif]"
    using assms(2,5) by (simp_all add: phase_ok_def probing_def)
  from acd_reaches_ok [OF acd_env_ok_same [OF assms(1) same] this(2,1,3,4) assms(3)]
  obtain k s2 c2 where k: "k \<le> remaining (?c t)" "acd_ticks E k ?s1 =
      bindR (acd_callback_fn E (acd_conflict_callback (?c t)) nif ACD_IP_OK s2) (\<lambda>s3.
      bindR (acd_at s3 a) (\<lambda>c. acd_tmr_clients E s3 nif (acd_next c)))"
    "acds s2 a = Some c2" "acd_state c2 = ACD_STATE_ONGOING" "acd_ipaddr c2 = acd_ipaddr (?c t)" "acd_next c2 = None"
    "wire (world s2) = wire (world ?s1) @ frames E ?s1 (pending_frames n (?c t))"
    by blast
  have "remaining (?c t) \<le> 87" using probe_wait [of r] by (simp add: remaining_def probing_def t_def)
  with k(1) have "k \<le> 87" by linarith
  with start k r(2) show ?thesis
    by (intro exI [of _ ?s1] exI [of _ k] exI [of _ s2] exI [of _ c2])
      (simp add: frames_def pending_frames_def probing_def)
qed

definition ex_acd :: acd where
  "ex_acd = \<lparr>acd_next = None, acd_ipaddr = 0, acd_state = ACD_STATE_OFF, sent_num = 0, ttw = 0, lastconflict = 0,
     num_conflicts = 0, acd_conflict_callback = 5\<rparr>"

definition ex_acd_lwip :: "wire lwip" where
  "ex_acd_lwip = ex_lwip\<lparr>netifs := [100 \<mapsto> ex_netif\<lparr>acd_list := Some 300\<rparr>], acds := [300 \<mapsto> ex_acd]\<rparr>"

theorem acd_start_reaches_ok_witness:
  "\<exists>s1 k s2 c2. acd_start ex_lenv ex_acd_lwip 100 300 0x0201A8C0 = ret (s1, ERR_OK) \<and> k \<le> 87 \<and>
    acd_ticks ex_lenv k s1 = ret s2 \<and>
    acds s2 300 = Some c2 \<and> acd_state c2 = ACD_STATE_ONGOING \<and> acd_ipaddr c2 = 0x0201A8C0 \<and>
    map snd (world s2) = replicate 3 (probe_frame ex_netif 0x0201A8C0) @ replicate 2 (announce_frame ex_netif 0x0201A8C0)"
proof -
  let ?n = "ex_netif\<lparr>acd_list := Some 300\<rparr>"
  have frames: "probe_frame ?n = probe_frame ex_netif" "announce_frame ?n = announce_frame ex_netif"
    by (rule ext, simp add: probe_frame_def announce_frame_def)+
  have m: "malloc ex_env ex_heap 66 \<noteq> None" by (simp add: ex_env_def)
  have "acd_env_ok ex_lenv ex_tx (map snd) ex_acd_lwip 100 ?n"
    unfolding acd_env_ok_def
  proof (intro conjI)
    show "driver_ok ex_lenv ex_tx" by (rule ex_driver_ok)
    show "wire_ok ex_tx (map snd)" by (simp add: wire_ok_def ex_tx_def)
    show "rand_ok ex_lenv (map snd)" unfolding rand_ok_def
    proof
      fix s :: "wire lwip"
      show "\<exists>w r. lwip_rand ex_lenv s = (s\<lparr>world := w\<rparr>, r) \<and> map snd w = map snd (world s)"
        by (intro exI [of _ "world s"] exI [of _ 7]) (simp add: ex_lenv_def)
    qed
    show "netifs ex_acd_lwip 100 = Some ?n" by (simp add: ex_acd_lwip_def)
    show "netif_ok ?n" using ex_netif_ok by (simp add: netif_ok_def)
    show "malloc_fresh (penv_of ex_lenv) (eps ex_acd_lwip)" using ex_heap_fresh by (simp add: ex_acd_lwip_def)
  qed
  from acd_start_reaches_ok [where a = 300 and c = ex_acd and ip = "0x0201A8C0", OF this] m
  obtain s1 k s2 c2 where r: "acd_start ex_lenv ex_acd_lwip 100 300 0x0201A8C0 = ret (s1, ERR_OK)" "k \<le> 87"
    "acd_ticks ex_lenv k s1 = bindR (acd_callback_fn ex_lenv (acd_conflict_callback ex_acd) 100 ACD_IP_OK s2) (\<lambda>s3.
      bindR (acd_at s3 300) (\<lambda>c. acd_tmr_clients ex_lenv s3 100 (acd_next c)))"
    "acds s2 300 = Some c2" "acd_state c2 = ACD_STATE_ONGOING" "acd_ipaddr c2 = 0x0201A8C0" "acd_next c2 = None"
    "map snd (world s2) = replicate 3 (probe_frame ?n 0x0201A8C0) @ replicate 2 (announce_frame ?n 0x0201A8C0)"
    by (auto simp: ex_acd_lwip_def ex_acd_def)
  have "acd_ticks ex_lenv k s1 = ret s2" using r(3,4,7) by (simp add: ex_lenv_def)
  with r show ?thesis unfolding frames by blast
qed

end
