(* ===== verification/Ip4_Out.thy ===== *)
theory Ip4_Out
  imports Acd Inet_Chksum "HOL-Library.Signed_Division"
begin

text \<open>
  Routing and output of IPv4 packets: \<open>ip4_route\<close> and the output functions of
  \<open>core/ipv4/ip4.c\<close>, and \<open>ip4_frag\<close> of \<open>core/ipv4/ip4_frag.c\<close>
  (\<open>LWIP_NETIF_TX_SINGLE_PBUF = 0\<close>, \<open>IP_OPTIONS_SEND = 0\<close>, \<open>CHECKSUM_GEN_IP_INLINE = 1\<close>, no
  hooks, no loopback).

  The function \<open>netif->output\<close> is a number: \<open>NETIF_NULL_OUTPUT\<close> is \<open>netif_null_output_ip4\<close>,
  \<open>ETHARP_OUTPUT\<close> is \<open>etharp_output\<close>, any other one belongs to a driver and is called through the
  environment. The custom pbufs of \<open>ip4_frag\<close> carry \<open>IPFRAG_FREE_PBUF_CUSTOM\<close> as their free
  function.
\<close>

abbreviation (input) IP_HLEN :: nat where "IP_HLEN \<equiv> 20"
abbreviation (input) IP_MF :: u16 where "IP_MF \<equiv> 0x2000"
abbreviation (input) IP_OFFMASK :: u16 where "IP_OFFMASK \<equiv> 0x1fff"
abbreviation (input) IP_PROTO_ICMP :: u8 where "IP_PROTO_ICMP \<equiv> 1"
abbreviation (input) IP_PROTO_TCP :: u8 where "IP_PROTO_TCP \<equiv> 6"
abbreviation (input) IP_PROTO_UDP :: u8 where "IP_PROTO_UDP \<equiv> 17"
abbreviation (input) NETIF_NULL_OUTPUT :: nat where "NETIF_NULL_OUTPUT \<equiv> 0"
abbreviation (input) ETHARP_OUTPUT :: nat where "ETHARP_OUTPUT \<equiv> 1"
abbreviation (input) IPFRAG_FREE_PBUF_CUSTOM :: nat where "IPFRAG_FREE_PBUF_CUSTOM \<equiv> 0"

abbreviation (input) LWIP_CHKSUM :: lwip_chksum where "LWIP_CHKSUM \<equiv> lwip_standard_chksum_3"

section \<open>Access\<close>

definition netif_is_up :: "netif \<Rightarrow> bool" where
  "netif_is_up n \<longleftrightarrow> nif_flags n AND NETIF_FLAG_UP \<noteq> 0"

definition netif_is_link_up :: "netif \<Rightarrow> bool" where
  "netif_is_link_up n \<longleftrightarrow> nif_flags n AND NETIF_FLAG_LINK_UP \<noteq> 0"

definition netif_null_output_ip4 :: "'w lwip \<Rightarrow> ('w lwip \<times> err_t) res" where
  "netif_null_output_ip4 s = ret (s, ERR_IF)"

definition netif_output :: "'w lenv \<Rightarrow> 'w lwip \<Rightarrow> nat \<Rightarrow> nat \<Rightarrow> u32 \<Rightarrow> ('w lwip \<times> err_t) res" where
  "netif_output E s nif p ipaddr =
     bindR (netif_at s (Some nif)) (\<lambda>n.
     if nif_output n = NETIF_NULL_OUTPUT then netif_null_output_ip4 s
     else if nif_output n = ETHARP_OUTPUT then etharp_output E s (Some nif) (Some p) ipaddr
     else netif_output_fn E (nif_output n) nif p ipaddr s)"

definition ip_stats_inc :: "((u16 \<Rightarrow> u16) \<Rightarrow> stats_proto \<Rightarrow> stats_proto) \<Rightarrow> 'w lwip \<Rightarrow> 'w lwip" where
  "ip_stats_inc f s = s\<lparr>ip_stats := f (\<lambda>c. c + 1) (ip_stats s)\<rparr>"

definition ipfrag_stats_inc :: "((u16 \<Rightarrow> u16) \<Rightarrow> stats_proto \<Rightarrow> stats_proto) \<Rightarrow> 'w lwip \<Rightarrow> 'w lwip" where
  "ipfrag_stats_inc f s =
     s\<lparr>ip4 := (ip4 s)\<lparr>ip_frag_stats := f (\<lambda>c. c + 1) (ip_frag_stats (ip4 s))\<rparr>\<rparr>"

text \<open>Consecutive writes to the fields of a packed header.\<close>

fun store_all :: "'w lwip \<Rightarrow> (nat \<times> u8 list) list \<Rightarrow> 'w lwip res" where
  "store_all s [] = ret s"
| "store_all s ((a, xs) # ws) = bindR (store_bytes s a xs) (\<lambda>s1. store_all s1 ws)"

section \<open>Routing\<close>

fun ip4_route_loop :: "'w lwip \<Rightarrow> u32 \<Rightarrow> nat list \<Rightarrow> nat option res" where
  "ip4_route_loop s dest [] = ret None"
| "ip4_route_loop s dest (nif # nifs) =
     bindR (netif_at s (Some nif)) (\<lambda>n.
     if netif_is_up n \<and> netif_is_link_up n \<and> \<not> ip4_addr_isany_val (ip_addr n) then
       if ip4_addr_net_eq dest (ip_addr n) (netmask n) then ret (Some nif)
       else if nif_flags n AND NETIF_FLAG_BROADCAST = 0 \<and> dest = gw n then ret (Some nif)
       else ip4_route_loop s dest nifs
     else ip4_route_loop s dest nifs)"

definition ip4_route :: "'w lwip \<Rightarrow> u32 \<Rightarrow> ('w lwip \<times> nat option) res" where
  "ip4_route s dest =
     bindR (ip4_route_loop s dest (netif_list s)) (\<lambda>r.
     if r \<noteq> None then ret (s, r)
     else
       (case netif_default s of
          None \<Rightarrow> ret (ip_stats_inc sp_rterr_update s, None)
        | Some nif \<Rightarrow>
            bindR (netif_at s (Some nif)) (\<lambda>n.
            if \<not> netif_is_up n \<or> \<not> netif_is_link_up n \<or> ip4_addr_isany_val (ip_addr n) \<or> ip4_addr_isloopback dest
            then ret (ip_stats_inc sp_rterr_update s, None)
            else ret (s, Some nif))))"

section \<open>Fragmentation\<close>

definition ip_frag_alloc_pbuf_custom_ref :: "pstate \<Rightarrow> pstate \<times> nat option" where
  "ip_frag_alloc_pbuf_custom_ref ps =
     (case do_memp_malloc_pool (memp_frag_pbuf ps) of (d, pcr) \<Rightarrow> (ps\<lparr>memp_frag_pbuf := d\<rparr>, pcr))"

definition ip_frag_free_pbuf_custom_ref :: "pstate \<Rightarrow> nat \<Rightarrow> pstate" where
  "ip_frag_free_pbuf_custom_ref ps p =
     ps\<lparr>memp_frag_pbuf := do_memp_free_pool (memp_frag_pbuf ps) p, pbufs := (pbufs ps)(p := None),
        custom_free_function := (custom_free_function ps)(p := None), original := (original ps)(p := None)\<rparr>"

definition ipfrag_free_pbuf_custom :: "penv \<Rightarrow> pstate \<Rightarrow> nat \<Rightarrow> pstate res" where
  "ipfrag_free_pbuf_custom E ps p =
     (case original ps p of
        None \<Rightarrow> fault Bad_pointer
      | Some orig \<Rightarrow>
          bindR (if orig \<noteq> None then bindR (pbuf_free E ps orig) (\<lambda>(ps1, _). ret ps1) else ret ps) (\<lambda>ps1.
          ret (ip_frag_free_pbuf_custom_ref ps1 p)))"

text \<open>
  The inner loop of \<open>ip4_frag\<close>: pbufs that refer into \<open>p\<close> from \<open>poff\<close> on are appended to
  \<open>rambuf\<close>. \<open>None\<close> is the way to \<open>memerr\<close>.
\<close>

partial_function (option) frag_fill_loop ::
  "'w lenv \<Rightarrow> 'w lwip \<Rightarrow> nat option \<Rightarrow> u16 \<Rightarrow> nat \<Rightarrow> u16 \<Rightarrow> u16 \<Rightarrow>
   ('w lwip \<times> (nat option \<times> u16 \<times> u16) option) res" where
  "frag_fill_loop E s p poff rambuf left_to_copy newpbuflen =
     (if left_to_copy = 0 then ret (s, Some (p, poff, newpbuflen))
      else
        bindR (deref (eps s) p) (\<lambda>b.
        bindR (lwip_assert (len b \<ge> poff)) (\<lambda>_.
        let newlen = min left_to_copy (len b - poff) in
        if newlen = 0 then frag_fill_loop E s (pnext b) 0 rambuf left_to_copy newlen
        else
          (case ip_frag_alloc_pbuf_custom_ref (eps s) of (ps1, r) \<Rightarrow>
           case r of
             None \<Rightarrow> bindR (free_pbuf E (s\<lparr>eps := ps1\<rparr>) rambuf) (\<lambda>s1. ret (s1, None))
           | Some pcr \<Rightarrow>
               (case pbuf_alloced_custom ps1 PBUF_RAW newlen PBUF_REF pcr (payload b + unat poff) newlen of (ps2, r2) \<Rightarrow>
                case r2 of
                  None \<Rightarrow> bindR (free_pbuf E (s\<lparr>eps := ip_frag_free_pbuf_custom_ref ps2 pcr\<rparr>) rambuf) (\<lambda>s1. ret (s1, None))
                | Some newpbuf \<Rightarrow>
                    bindR (pbuf_ref ps2 p) (\<lambda>ps3.
                    let ps4 = ps3\<lparr>original := (original ps3)(pcr \<mapsto> p),
                      custom_free_function := (custom_free_function ps3)(pcr \<mapsto> IPFRAG_FREE_PBUF_CUSTOM)\<rparr> in
                    bindR (pbuf_cat ps4 (Some rambuf) (Some newpbuf)) (\<lambda>ps5.
                    if left_to_copy - newlen \<noteq> 0
                    then bindR (deref ps5 p) (\<lambda>b5.
                         frag_fill_loop E (s\<lparr>eps := ps5\<rparr>) (pnext b5) 0 rambuf (left_to_copy - newlen) newlen)
                    else ret (s\<lparr>eps := ps5\<rparr>, Some (p, poff, newlen)))))))))"

partial_function (option) ip4_frag_loop ::
  "'w lenv \<Rightarrow> 'w lwip \<Rightarrow> nat option \<Rightarrow> nat \<Rightarrow> u32 \<Rightarrow> nat \<Rightarrow> u16 \<Rightarrow> bool \<Rightarrow> u16 \<Rightarrow> u16 \<Rightarrow> u16 \<Rightarrow> u16 \<Rightarrow>
   ('w lwip \<times> err_t) res" where
  "ip4_frag_loop E s p nif dest original_iphdr nfb mf_set left poff ofo newpbuflen =
     (if left = 0 then ret (s, ERR_OK)
      else
        let fragsize = min left (nfb * 8) in
        bindR (liftP s (pbuf_alloc (penv_of E) (eps s) PBUF_LINK (of_nat IP_HLEN) PBUF_RAM)) (\<lambda>(s1, r).
        case r of
          None \<Rightarrow> ret (s1, ERR_MEM)
        | Some rambuf \<Rightarrow>
            bindR (deref (eps s1) r) (\<lambda>rb.
            bindR (lwip_assert (len rb \<ge> of_nat IP_HLEN)) (\<lambda>_.
            bindR (memcpy (eps s1) (payload rb) original_iphdr IP_HLEN) (\<lambda>ps2.
            let iphdr = payload rb in
            bindR (frag_fill_loop E (s1\<lparr>eps := ps2\<rparr>) p poff rambuf fragsize newpbuflen) (\<lambda>(s3, v).
            case v of
              None \<Rightarrow> ret (s3, ERR_MEM)
            | Some (p3, poff3, newlen) \<Rightarrow>
                bindR (netif_at s3 (Some nif)) (\<lambda>n.
                let is_last = (uint left \<le> uint (mtu n) - int IP_HLEN);
                    tmp = (IP_OFFMASK AND ofo) OR (if \<not> is_last \<or> mf_set then IP_MF else 0) in
                bindR (store_all s3
                  [(iphdr + 6, bytes16 (lwip_htons tmp)),
                   (iphdr + 2, bytes16 (lwip_htons (fragsize + of_nat IP_HLEN))),
                   (iphdr + 10, bytes16 0)]) (\<lambda>s4.
                bindR (inet_chksum LWIP_CHKSUM (mem s4) iphdr (of_nat IP_HLEN)) (\<lambda>chksum.
                bindR (store_bytes s4 (iphdr + 10) (bytes16 chksum)) (\<lambda>s5.
                bindR (netif_output E s5 nif rambuf dest) (\<lambda>(s6, _).
                bindR (free_pbuf E (ipfrag_stats_inc sp_xmit_update s6) rambuf) (\<lambda>s7.
                ip4_frag_loop E s7 p3 nif dest original_iphdr nfb mf_set (left - fragsize) (poff3 + newlen)
                  (ofo + nfb) newlen))))))))))))"

definition ip4_frag :: "'w lenv \<Rightarrow> 'w lwip \<Rightarrow> nat \<Rightarrow> nat \<Rightarrow> u32 \<Rightarrow> ('w lwip \<times> err_t) res" where
  "ip4_frag E s p nif dest =
     bindR (netif_at s (Some nif)) (\<lambda>n.
     bindR (deref (eps s) (Some p)) (\<lambda>b.
     let nfb = of_int ((uint (mtu n) - int IP_HLEN) sdiv 8);
         original_iphdr = payload b in
     bindR (load8 (mem s) original_iphdr) (\<lambda>v_hl.
     if (v_hl AND 0x0f) * 4 \<noteq> of_nat IP_HLEN then ret (s, ERR_VAL)
     else if \<not> len b \<ge> of_nat IP_HLEN then ret (s, ERR_VAL)
     else
       bindR (load16 (mem s) (original_iphdr + 6)) (\<lambda>offset.
       let tmp = lwip_htons offset in
       ip4_frag_loop E s (Some p) nif dest original_iphdr nfb (tmp AND IP_MF \<noteq> 0)
         (tot_len b - of_nat IP_HLEN) (of_nat IP_HLEN) (tmp AND IP_OFFMASK) 0))))"

section \<open>Output\<close>

text \<open>
  \<open>src\<close> and \<open>dest\<close> are pointers that may be \<open>NULL\<close>; \<open>dest = NULL\<close> is \<open>LWIP_IP_HDRINCL\<close>. The
  header is written field by field while \<open>chk_sum\<close> adds up its words.
\<close>

definition ip4_output_if_src ::
  "'w lenv \<Rightarrow> 'w lwip \<Rightarrow> nat \<Rightarrow> u32 option \<Rightarrow> u32 option \<Rightarrow> u8 \<Rightarrow> u8 \<Rightarrow> u8 \<Rightarrow> nat \<Rightarrow> ('w lwip \<times> err_t) res" where
  "ip4_output_if_src E s p src dest ttl tos proto nif =
     bindR (deref (eps s) (Some p)) (\<lambda>b0.
     bindR (lwip_assert (ref b0 = 1)) (\<lambda>_.
     bindR
       (case dest of
          Some d \<Rightarrow>
            bindR (liftP s (pbuf_add_header (eps s) (Some p) (of_nat IP_HLEN))) (\<lambda>(s1, r).
            if r \<noteq> 0 then ret (ip_stats_inc sp_err_update s1, Inl ERR_BUF)
            else
              bindR (deref (eps s1) (Some p)) (\<lambda>b.
              let iphdr = payload b in
              bindR (lwip_assert (len b \<ge> of_nat IP_HLEN)) (\<lambda>_.
              let v_hl = 0x45 :: u8;
                  sr = (case src of None \<Rightarrow> IPADDR_ANY | Some a \<Rightarrow> a);
                  chk_sum = (ucast (lwip_htons (ucast proto OR push_bit 8 (ucast ttl))) :: u32);
                  chk_sum = chk_sum + (d AND 0xFFFF);
                  chk_sum = chk_sum + drop_bit 16 d;
                  chk_sum = chk_sum + ucast (lwip_htons (ucast tos OR push_bit 8 (ucast v_hl)));
                  chk_sum = chk_sum + ucast (lwip_htons (tot_len b));
                  chk_sum = chk_sum + ucast (lwip_htons (ip_id (ip4 s1)));
                  chk_sum = chk_sum + (sr AND 0xFFFF);
                  chk_sum = chk_sum + drop_bit 16 sr;
                  chk_sum = drop_bit 16 chk_sum + (chk_sum AND 0xFFFF);
                  chk_sum = drop_bit 16 chk_sum + chk_sum;
                  chk_sum = NOT chk_sum in
              bindR (store_all (s1\<lparr>ip4 := (ip4 s1)\<lparr>ip_id := ip_id (ip4 s1) + 1\<rparr>\<rparr>)
                [(iphdr + 8, [ttl]), (iphdr + 9, [proto]), (iphdr + 16, bytes32 d),
                 (iphdr, [v_hl]), (iphdr + 1, [tos]), (iphdr + 2, bytes16 (lwip_htons (tot_len b))),
                 (iphdr + 6, bytes16 0), (iphdr + 4, bytes16 (lwip_htons (ip_id (ip4 s1)))),
                 (iphdr + 12, bytes32 sr), (iphdr + 10, bytes16 (ucast chk_sum))]) (\<lambda>s2.
              ret (s2, Inr d)))))
        | None \<Rightarrow>
            if len b0 < of_nat IP_HLEN then ret (ip_stats_inc sp_err_update s, Inl ERR_BUF)
            else bindR (load32 (mem s) (payload b0 + 16)) (\<lambda>d. ret (s, Inr d))) (\<lambda>(s3, v).
     case v of
       Inl err \<Rightarrow> ret (s3, err)
     | Inr d \<Rightarrow>
         let s4 = ip_stats_inc sp_xmit_update s3 in
         bindR (netif_at s4 (Some nif)) (\<lambda>n.
         bindR (deref (eps s4) (Some p)) (\<lambda>b4.
         if mtu n \<noteq> 0 \<and> tot_len b4 > mtu n then ip4_frag E s4 p nif d
         else netif_output E s4 nif p d)))))"

definition ip4_output_if ::
  "'w lenv \<Rightarrow> 'w lwip \<Rightarrow> nat \<Rightarrow> u32 option \<Rightarrow> u32 option \<Rightarrow> u8 \<Rightarrow> u8 \<Rightarrow> u8 \<Rightarrow> nat \<Rightarrow> ('w lwip \<times> err_t) res" where
  "ip4_output_if E s p src dest ttl tos proto nif =
     bindR
       (if dest \<noteq> None \<and> (case src of None \<Rightarrow> True | Some a \<Rightarrow> ip4_addr_isany_val a)
        then bindR (netif_at s (Some nif)) (\<lambda>n. ret (Some (ip_addr n)))
        else ret src) (\<lambda>src_used.
     ip4_output_if_src E s p src_used dest ttl tos proto nif)"

definition ip4_output ::
  "'w lenv \<Rightarrow> 'w lwip \<Rightarrow> nat \<Rightarrow> u32 option \<Rightarrow> u32 \<Rightarrow> u8 \<Rightarrow> u8 \<Rightarrow> u8 \<Rightarrow> ('w lwip \<times> err_t) res" where
  "ip4_output E s p src dest ttl tos proto =
     bindR (deref (eps s) (Some p)) (\<lambda>b.
     bindR (lwip_assert (ref b = 1)) (\<lambda>_.
     bindR (ip4_route s dest) (\<lambda>(s1, r).
     case r of
       None \<Rightarrow> ret (ip_stats_inc sp_rterr_update s1, ERR_RTE)
     | Some nif \<Rightarrow> ip4_output_if E s1 p src (Some dest) ttl tos proto nif)))"

end
