(* ===== verification/Icmp.thy ===== *)
theory Icmp
  imports Ip4_Out
begin

text \<open>
  ICMP as in \<open>core/ipv4/icmp.c\<close>: answers to echo requests and the error messages that other
  modules ask for (\<open>LWIP_MULTICAST_PING = LWIP_BROADCAST_PING = 0\<close>,
  \<open>LWIP_ICMP_ECHO_CHECK_INPUT_PBUF_LEN = 1\<close>).
\<close>

abbreviation (input) ICMP_ER :: u8 where "ICMP_ER \<equiv> 0"
abbreviation (input) ICMP_DUR :: u8 where "ICMP_DUR \<equiv> 3"
abbreviation (input) ICMP_ECHO :: u8 where "ICMP_ECHO \<equiv> 8"
abbreviation (input) ICMP_TE :: u8 where "ICMP_TE \<equiv> 11"
abbreviation (input) ICMP_DUR_PROTO :: u8 where "ICMP_DUR_PROTO \<equiv> 2"
abbreviation (input) ICMP_DUR_PORT :: u8 where "ICMP_DUR_PORT \<equiv> 3"
abbreviation (input) ICMP_TE_FRAG :: u8 where "ICMP_TE_FRAG \<equiv> 1"
abbreviation (input) ICMP_TTL :: u8 where "ICMP_TTL \<equiv> 255"
abbreviation (input) PBUF_LINK_HLEN :: nat where "PBUF_LINK_HLEN \<equiv> 14"

definition icmp_stats_inc :: "((u16 \<Rightarrow> u16) \<Rightarrow> stats_proto \<Rightarrow> stats_proto) \<Rightarrow> 'w lwip \<Rightarrow> 'w lwip" where
  "icmp_stats_inc f s = s\<lparr>icmp_stats := f (\<lambda>c. c + 1) (icmp_stats s)\<rparr>"

section \<open>Error messages\<close>

definition icmp_send_response :: "'w lenv \<Rightarrow> 'w lwip \<Rightarrow> nat \<Rightarrow> u8 \<Rightarrow> u8 \<Rightarrow> 'w lwip res" where
  "icmp_send_response E s p type code =
     bindR (deref (eps s) (Some p)) (\<lambda>b.
     let response_pkt_len = (if tot_len b < 28 then tot_len b else 28) in
     bindR (liftP s (pbuf_alloc (penv_of E) (eps s) PBUF_IP (8 + response_pkt_len) PBUF_RAM)) (\<lambda>(s1, r).
     case r of
       None \<Rightarrow> ret s1
     | Some q \<Rightarrow>
         bindR (deref (eps s1) r) (\<lambda>qb.
         bindR (lwip_assert (len qb \<ge> 8 + response_pkt_len)) (\<lambda>_.
         let iphdr = payload b; icmphdr = payload qb in
         bindR (store_all s1 [(icmphdr, [type]), (icmphdr + 1, [code]), (icmphdr + 4, bytes32 0)]) (\<lambda>s2.
         bindR (liftP s2 (pbuf_copy_partial_pbuf (eps s2) r (Some p) response_pkt_len 8)) (\<lambda>(s3, _).
         bindR (load32 (mem s3) (iphdr + 12)) (\<lambda>iphdr_src.
         bindR (ip4_route s3 iphdr_src) (\<lambda>(s4, nif).
         bindR
           (case nif of
              None \<Rightarrow> ret s4
            | Some nifp \<Rightarrow>
                bindR (store_bytes s4 (icmphdr + 2) (bytes16 0)) (\<lambda>s5.
                bindR (deref (eps s5) r) (\<lambda>qb5.
                bindR (inet_chksum LWIP_CHKSUM (mem s5) icmphdr (len qb5)) (\<lambda>chksum.
                bindR (store_bytes s5 (icmphdr + 2) (bytes16 chksum)) (\<lambda>s6.
                bindR (ip4_output_if E (icmp_stats_inc sp_xmit_update s6) q None (Some iphdr_src) ICMP_TTL 0
                         IP_PROTO_ICMP nifp) (\<lambda>(s7, _).
                ret s7)))))) (\<lambda>s8.
         free_pbuf E s8 q)))))))))"

definition icmp_dest_unreach :: "'w lenv \<Rightarrow> 'w lwip \<Rightarrow> nat \<Rightarrow> u8 \<Rightarrow> 'w lwip res" where
  "icmp_dest_unreach E s p t = icmp_send_response E s p ICMP_DUR t"

definition icmp_time_exceeded :: "'w lenv \<Rightarrow> 'w lwip \<Rightarrow> nat \<Rightarrow> u8 \<Rightarrow> 'w lwip res" where
  "icmp_time_exceeded E s p t = icmp_send_response E s p ICMP_TE t"

section \<open>Input\<close>

text \<open>
  The pieces of the case \<open>ICMP_ECHO\<close> of \<open>icmp_input\<close>: a packet with room for the headers, which
  is \<open>p\<close> itself or a copy that replaces it (\<open>None\<close> is the way to \<open>icmperr\<close>), and the answer in that
  packet.
\<close>

definition icmp_echo_packet ::
  "'w lenv \<Rightarrow> 'w lwip \<Rightarrow> nat \<Rightarrow> u16 \<Rightarrow> nat \<Rightarrow> ('w lwip \<times> nat option) res" where
  "icmp_echo_packet E s p hlen iphdr_in =
     bindR (liftP s (pbuf_add_header (eps s) (Some p) (ucast hlen + of_nat PBUF_LINK_HLEN))) (\<lambda>(s1, r1).
     if r1 \<noteq> 0 then
       bindR (deref (eps s1) (Some p)) (\<lambda>b.
       let alloc_len = tot_len b + hlen in
       if alloc_len < tot_len b then ret (s1, None)
       else
         bindR (liftP s1 (pbuf_alloc (penv_of E) (eps s1) PBUF_LINK alloc_len PBUF_RAM)) (\<lambda>(s2, rp).
         case rp of
           None \<Rightarrow> ret (s2, None)
         | Some r \<Rightarrow>
             bindR (deref (eps s2) rp) (\<lambda>rb.
             if unat (len rb) < unat hlen + 8
             then bindR (free_pbuf E s2 r) (\<lambda>s3. ret (s3, None))
             else
               bindR (memcpy (eps s2) (payload rb) iphdr_in (unat hlen)) (\<lambda>ps3.
               bindR (liftP s2 (pbuf_remove_header ps3 rp (ucast hlen))) (\<lambda>(s4, r4).
               bindR (lwip_assert (r4 = 0)) (\<lambda>_.
               bindR (liftP s4 (pbuf_copy (eps s4) rp (Some p))) (\<lambda>(s5, err).
               if err \<noteq> ERR_OK
               then bindR (free_pbuf E s5 r) (\<lambda>s6. ret (s6, None))
               else bindR (free_pbuf E s5 p) (\<lambda>s6. ret (s6, rp)))))))))
     else
       bindR (liftP s1 (pbuf_remove_header (eps s1) (Some p) (ucast hlen + of_nat PBUF_LINK_HLEN))) (\<lambda>(s2, r2).
       bindR (lwip_assert (r2 = 0)) (\<lambda>_. ret (s2, Some p))))"

text \<open>The update of the checksum for the change of the type from \<open>ICMP_ECHO\<close> to \<open>ICMP_ER\<close>.\<close>

definition icmp_adjust_chksum :: "u16 \<Rightarrow> u16" where
  "icmp_adjust_chksum chksum =
     (if chksum > lwip_htons (0xffff - 0x0800) then chksum + lwip_htons 0x0800 + 1
      else chksum + lwip_htons 0x0800)"

definition icmp_echo_reply ::
  "'w lenv \<Rightarrow> 'w lwip \<Rightarrow> nat \<Rightarrow> nat \<Rightarrow> u16 \<Rightarrow> u32 \<Rightarrow> 'w lwip res" where
  "icmp_echo_reply E s p inp hlen src =
     bindR (deref (eps s) (Some p)) (\<lambda>b.
     let iecho = payload b in
     bindR (liftP s (pbuf_add_header (eps s) (Some p) (ucast hlen))) (\<lambda>(s1, r).
     if r \<noteq> 0 then ret s1
     else
       bindR (deref (eps s1) (Some p)) (\<lambda>b1.
       let iphdr = payload b1 in
       bindR (store_all s1 [(iphdr + 12, bytes32 src), (iphdr + 16, bytes32 (current_iphdr_src (ip_data s1))),
         (iecho, [ICMP_ER])]) (\<lambda>s2.
       bindR (load16 (mem s2) (iecho + 2)) (\<lambda>chksum.
       bindR (store_all (s2\<lparr>eps := upd (eps s2) p (b1\<lparr>if_idx := 0\<rparr>)\<rparr>)
         [(iecho + 2, bytes16 (icmp_adjust_chksum chksum)), (iphdr + 8, [ICMP_TTL]), (iphdr + 10, bytes16 0)]) (\<lambda>s3.
       bindR (inet_chksum LWIP_CHKSUM (mem s3) iphdr hlen) (\<lambda>ipchksum.
       bindR (store_bytes s3 (iphdr + 10) (bytes16 ipchksum)) (\<lambda>s4.
       bindR (ip4_output_if E (icmp_stats_inc sp_xmit_update s4) p (Some src) None ICMP_TTL 0 IP_PROTO_ICMP inp) (\<lambda>(s5, _).
       ret s5)))))))))"

definition icmp_input :: "'w lenv \<Rightarrow> 'w lwip \<Rightarrow> nat \<Rightarrow> nat \<Rightarrow> 'w lwip res" where
  "icmp_input E s0 p inp =
     (let s = icmp_stats_inc sp_recv_update s0;
          lenerr = (\<lambda>s1. bindR (free_pbuf E s1 p) (\<lambda>s2. ret (icmp_stats_inc sp_lenerr_update s2)));
          icmperr = (\<lambda>s1. bindR (free_pbuf E s1 p) (\<lambda>s2. ret (icmp_stats_inc sp_err_update s2))) in
      case current_ip4_header (ip_data s) of None \<Rightarrow> fault Bad_pointer | Some iphdr_in \<Rightarrow>
      bindR (load8 (mem s) iphdr_in) (\<lambda>v_hl.
      let hlen = ucast ((v_hl AND 0x0f) * 4) :: u16 in
      if hlen < of_nat IP_HLEN then lenerr s
      else
        bindR (deref (eps s) (Some p)) (\<lambda>b.
        if len b < 4 then lenerr s
        else
          bindR (load8 (mem s) (payload b)) (\<lambda>type.
          bindR (load8 (mem s) (payload b + 1)) (\<lambda>code.
          if type = ICMP_ER then free_pbuf E s p
          else if type = ICMP_ECHO then
            let src = current_iphdr_dest (ip_data s) in
            if ip4_addr_ismulticast src then icmperr s
            else
              bindR (netif_at s (current_netif (ip_data s))) (\<lambda>n.
              if ip4_addr_isbroadcast_u32 src n then icmperr s
              else if tot_len b < 8 then lenerr s
              else
                bindR (inet_chksum_pbuf LWIP_CHKSUM (eps s) (Some p)) (\<lambda>c.
                if c \<noteq> 0 then bindR (free_pbuf E s p) (\<lambda>s1. ret (icmp_stats_inc sp_chkerr_update s1))
                else
                  bindR (icmp_echo_packet E s p hlen iphdr_in) (\<lambda>(s1, r).
                  case r of
                    None \<Rightarrow> icmperr s1
                  | Some q \<Rightarrow>
                      bindR (icmp_echo_reply E s1 q inp hlen src) (\<lambda>s2. free_pbuf E s2 q))))
          else free_pbuf E (icmp_stats_inc sp_drop_update (icmp_stats_inc sp_proterr_update s)) p)))))"

end
