(* ===== verification/Netif_Find.thy ===== *)
theory Netif_Find
  imports Ip4_Out Lwip_Def
begin

text \<open>
  The ways to name an interface in \<open>core/netif.c\<close>: by index and by name. The C string arguments
  are lists of bytes.
\<close>

abbreviation (input) NETIF_NO_INDEX :: u8 where "NETIF_NO_INDEX \<equiv> 0"
abbreviation (input) NETIF_NAMESIZE :: nat where "NETIF_NAMESIZE \<equiv> 6"

definition netif_get_index :: "netif \<Rightarrow> u8" where
  "netif_get_index n = nif_num n + 1"

definition netif_index_to_num :: "u8 \<Rightarrow> int" where
  "netif_index_to_num idx = uint idx - 1"

fun get_by_index_loop :: "'w lwip \<Rightarrow> u8 \<Rightarrow> nat list \<Rightarrow> nat option res" where
  "get_by_index_loop s idx [] = ret None"
| "get_by_index_loop s idx (nif # nifs) =
     bindR (netif_at s (Some nif)) (\<lambda>n.
     if idx = netif_get_index n then ret (Some nif) else get_by_index_loop s idx nifs)"

definition netif_get_by_index :: "'w lwip \<Rightarrow> u8 \<Rightarrow> nat option res" where
  "netif_get_by_index s idx =
     (if idx \<noteq> NETIF_NO_INDEX then get_by_index_loop s idx (netif_list s) else ret None)"

text \<open>
  \<open>atoi\<close> of the C library: white space, a sign, then digits up to the first other character. On
  a value that does not fit an \<open>int\<close>, which C leaves open, it wraps around.
\<close>

fun atoi_loop :: "u8 list \<Rightarrow> u32 \<Rightarrow> u32" where
  "atoi_loop [] v = v"
| "atoi_loop (c # cs) v = (if 48 \<le> c \<and> c \<le> 57 then atoi_loop cs (v * 10 + ucast (c - 48)) else v)"

definition atoi :: "u8 list \<Rightarrow> u32" where
  "atoi str =
     (let t = dropWhile lwip_isspace str in
      if chd t = 45 then - atoi_loop (tl t) 0 else if chd t = 43 then atoi_loop (tl t) 0 else atoi_loop t 0)"

fun find_loop :: "'w lwip \<Rightarrow> u8 \<Rightarrow> u8 \<Rightarrow> u8 \<Rightarrow> nat list \<Rightarrow> nat option res" where
  "find_loop s number c0 c1 [] = ret None"
| "find_loop s number c0 c1 (nif # nifs) =
     bindR (netif_at s (Some nif)) (\<lambda>n.
     if number = nif_num n \<and> c0 = fst (nif_name n) \<and> c1 = snd (nif_name n) then ret (Some nif)
     else find_loop s number c0 c1 nifs)"

definition netif_find :: "'w lwip \<Rightarrow> u8 list option \<Rightarrow> nat option res" where
  "netif_find s nm =
     (case nm of
        None \<Rightarrow> ret None
      | Some str \<Rightarrow>
          if length str < 3 then fault Out_of_bounds
          else
            let number = ucast (atoi (drop 2 str)) :: u8 in
            if number = 0 \<and> str ! 2 \<noteq> 48 then ret None
            else find_loop s number (str ! 0) (str ! 1) (netif_list s))"

definition netif_name_to_index :: "'w lwip \<Rightarrow> u8 list option \<Rightarrow> u8 res" where
  "netif_name_to_index s nm =
     bindR (netif_find s nm) (\<lambda>r.
     case r of None \<Rightarrow> ret NETIF_NO_INDEX
     | Some nif \<Rightarrow> bindR (netif_at s (Some nif)) (\<lambda>n. ret (netif_get_index n)))"

text \<open>The buffer \<open>name\<close> after the call, or \<open>None\<close> for the result \<open>NULL\<close>.\<close>

definition netif_index_to_name :: "'w lwip \<Rightarrow> u8 \<Rightarrow> u8 list \<Rightarrow> u8 list option res" where
  "netif_index_to_name s idx buf =
     bindR (netif_get_by_index s idx) (\<lambda>r.
     case r of
       None \<Rightarrow> ret None
     | Some nif \<Rightarrow>
         if length buf < NETIF_NAMESIZE then fault Out_of_bounds
         else
           bindR (netif_at s (Some nif)) (\<lambda>n.
           bindR (lwip_itoa (take (NETIF_NAMESIZE - 2) (drop 2 buf)) (NETIF_NAMESIZE - 2) (netif_index_to_num idx)) (\<lambda>digits.
           ret (Some ([fst (nif_name n), snd (nif_name n)] @ digits @ drop NETIF_NAMESIZE buf)))))"

end
