(* ===== verification/Udp.thy ===== *)
theory Udp
  imports Icmp Netif_Find
begin

text \<open>
  UDP, \<open>core/udp.c\<close> (\<open>LWIP_UDPLITE = 0\<close>, \<open>SO_REUSE = 0\<close>, \<open>IP_SOF_BROADCAST = 0\<close>,
  \<open>LWIP_MULTICAST_TX_OPTIONS = 0\<close>, \<open>LWIP_CHECKSUM_ON_COPY = 0\<close>). The list \<open>udp_pcbs\<close> is a list of
  addresses; the receive callbacks of the applications are called through the environment.
\<close>

abbreviation (input) UDP_HLEN :: nat where "UDP_HLEN \<equiv> 8"
abbreviation (input) UDP_FLAGS_NOCHKSUM :: u8 where "UDP_FLAGS_NOCHKSUM \<equiv> 0x01"
abbreviation (input) UDP_FLAGS_CONNECTED :: u8 where "UDP_FLAGS_CONNECTED \<equiv> 0x04"
abbreviation (input) UDP_TTL :: u8 where "UDP_TTL \<equiv> 255"
abbreviation (input) UDP_LOCAL_PORT_RANGE_START :: u16 where "UDP_LOCAL_PORT_RANGE_START \<equiv> 0xc000"
abbreviation (input) UDP_LOCAL_PORT_RANGE_END :: u16 where "UDP_LOCAL_PORT_RANGE_END \<equiv> 0xffff"

section \<open>Access\<close>

definition udp_at :: "'w lwip \<Rightarrow> nat \<Rightarrow> udp_pcb res" where
  "udp_at s a = (case udp_pcb_map (udp s) a of None \<Rightarrow> fault Bad_pointer | Some c \<Rightarrow> ret c)"

definition udp_upd :: "'w lwip \<Rightarrow> nat \<Rightarrow> (udp_pcb \<Rightarrow> udp_pcb) \<Rightarrow> 'w lwip res" where
  "udp_upd s a f =
     bindR (udp_at s a) (\<lambda>c. ret (s\<lparr>udp := (udp s)\<lparr>udp_pcb_map := (udp_pcb_map (udp s))(a \<mapsto> f c)\<rparr>\<rparr>))"

definition udp_stats_inc :: "((u16 \<Rightarrow> u16) \<Rightarrow> stats_proto \<Rightarrow> stats_proto) \<Rightarrow> 'w lwip \<Rightarrow> 'w lwip" where
  "udp_stats_inc f s = s\<lparr>udp := (udp s)\<lparr>udp_stats := f (\<lambda>c. c + 1) (udp_stats (udp s))\<rparr>\<rparr>"

section \<open>Ports\<close>

definition udp_init :: "'w lenv \<Rightarrow> 'w lwip \<Rightarrow> 'w lwip" where
  "udp_init E s =
     (case lwip_rand E s of (s1, r) \<Rightarrow>
        s1\<lparr>udp := (udp s1)\<lparr>udp_port := (ucast r AND NOT UDP_LOCAL_PORT_RANGE_START) + UDP_LOCAL_PORT_RANGE_START\<rparr>\<rparr>)"

fun udp_ports :: "'w lwip \<Rightarrow> nat list \<Rightarrow> u16 list res" where
  "udp_ports s [] = ret []"
| "udp_ports s (a # as) =
     bindR (udp_at s a) (\<lambda>c. bindR (udp_ports s as) (\<lambda>ps. ret (local_port c # ps)))"

text \<open>
  The loop around \<open>again\<close> in \<open>udp_new_port\<close>, on the local ports of the PCBs: the new value of
  \<open>udp_port\<close> and the result.
\<close>

function new_port_loop :: "u16 list \<Rightarrow> u16 \<Rightarrow> u16 \<Rightarrow> u16 \<times> u16" where
  "new_port_loop ports n port =
     (let port1 = (if port = UDP_LOCAL_PORT_RANGE_END then UDP_LOCAL_PORT_RANGE_START else port + 1) in
      if port1 \<in> set ports then
        if n + 1 > UDP_LOCAL_PORT_RANGE_END - UDP_LOCAL_PORT_RANGE_START then (port1, 0)
        else new_port_loop ports (n + 1) port1
      else (port1, port1))"
  by pat_completeness auto
termination
proof (relation "measure (\<lambda>(ports, n, port). 65536 - unat (n + 1))")
  fix ports :: "u16 list" and n port x :: u16
  assume "\<not> n + 1 > UDP_LOCAL_PORT_RANGE_END - UDP_LOCAL_PORT_RANGE_START"
  then have "unat (n + 1) \<le> 16383" by (simp add: word_less_nat_alt not_less)
  then have "unat (n + 1 + 1) = unat (n + 1) + 1" using unat_add_lem [of "n + 1" 1] by simp
  with \<open>unat (n + 1) \<le> 16383\<close> show "((ports, n + 1, x), ports, n, port) \<in> measure (\<lambda>(ports, n, port). 65536 - unat (n + 1))"
    by simp
qed simp

declare new_port_loop.simps [simp del]

definition udp_new_port :: "'w lwip \<Rightarrow> ('w lwip \<times> u16) res" where
  "udp_new_port s =
     bindR (udp_ports s (udp_pcbs (udp s))) (\<lambda>ports.
     case new_port_loop ports 0 (udp_port (udp s)) of (port, r) \<Rightarrow>
       ret (s\<lparr>udp := (udp s)\<lparr>udp_port := port\<rparr>\<rparr>, r))"

section \<open>Configuration\<close>

text \<open>The test in \<open>udp_bind\<close> that another PCB already uses the address and port.\<close>

fun bind_in_use :: "'w lwip \<Rightarrow> nat \<Rightarrow> u32 \<Rightarrow> u16 \<Rightarrow> nat list \<Rightarrow> bool res" where
  "bind_in_use s pcb ipaddr port [] = ret False"
| "bind_in_use s pcb ipaddr port (a # as) =
     bindR (udp_at s a) (\<lambda>ipcb.
     if a \<noteq> pcb \<and> local_port ipcb = port \<and>
        (local_ip ipcb = ipaddr \<or> ip4_addr_isany_val ipaddr \<or> ip4_addr_isany_val (local_ip ipcb))
     then ret True else bind_in_use s pcb ipaddr port as)"

definition udp_bind :: "'w lwip \<Rightarrow> nat option \<Rightarrow> u32 option \<Rightarrow> u16 \<Rightarrow> ('w lwip \<times> err_t) res" where
  "udp_bind s pcb ipaddr port =
     (let ip = (case ipaddr of None \<Rightarrow> IPADDR_ANY | Some a \<Rightarrow> a) in
      case pcb of None \<Rightarrow> ret (s, ERR_ARG) | Some a \<Rightarrow>
      let rebind = (a \<in> set (udp_pcbs (udp s))) in
      bindR
        (if port = 0 then udp_new_port s
         else
           bindR (bind_in_use s a ip port (udp_pcbs (udp s))) (\<lambda>in_use.
           ret (s, if in_use then 0 else port))) (\<lambda>(s1, port1).
      if port1 = 0 then ret (s1, ERR_USE)
      else
        bindR (udp_upd s1 a (\<lambda>c. c\<lparr>local_ip := ip, local_port := port1\<rparr>)) (\<lambda>s2.
        ret (if \<not> rebind then s2\<lparr>udp := (udp s2)\<lparr>udp_pcbs := a # udp_pcbs (udp s2)\<rparr>\<rparr> else s2, ERR_OK))))"

definition udp_bind_netif :: "'w lwip \<Rightarrow> nat \<Rightarrow> nat option \<Rightarrow> 'w lwip res" where
  "udp_bind_netif s pcb nif =
     (if nif \<noteq> None
      then bindR (netif_at s nif) (\<lambda>n. udp_upd s pcb (\<lambda>c. c\<lparr>netif_idx := netif_get_index n\<rparr>))
      else udp_upd s pcb (\<lambda>c. c\<lparr>netif_idx := NETIF_NO_INDEX\<rparr>))"

definition udp_connect :: "'w lwip \<Rightarrow> nat option \<Rightarrow> u32 option \<Rightarrow> u16 \<Rightarrow> ('w lwip \<times> err_t) res" where
  "udp_connect s pcb ipaddr port =
     (case pcb of None \<Rightarrow> ret (s, ERR_ARG) | Some a \<Rightarrow>
      case ipaddr of None \<Rightarrow> ret (s, ERR_ARG) | Some ip \<Rightarrow>
      bindR (udp_at s a) (\<lambda>c.
      bindR (if local_port c = 0 then udp_bind s pcb (Some (local_ip c)) (local_port c) else ret (s, ERR_OK)) (\<lambda>(s1, err).
      if err \<noteq> ERR_OK then ret (s1, err)
      else
        bindR (udp_upd s1 a (\<lambda>c. c\<lparr>remote_ip := ip, remote_port := port,
          udp_flags := udp_flags c OR UDP_FLAGS_CONNECTED\<rparr>)) (\<lambda>s2.
        ret (if a \<in> set (udp_pcbs (udp s2)) then s2
             else s2\<lparr>udp := (udp s2)\<lparr>udp_pcbs := a # udp_pcbs (udp s2)\<rparr>\<rparr>, ERR_OK)))))"

definition udp_disconnect :: "'w lwip \<Rightarrow> nat option \<Rightarrow> 'w lwip res" where
  "udp_disconnect s pcb =
     (case pcb of None \<Rightarrow> ret s | Some a \<Rightarrow>
      udp_upd s a (\<lambda>c. c\<lparr>remote_ip := IPADDR_ANY, remote_port := 0, netif_idx := NETIF_NO_INDEX,
        udp_flags := udp_flags c AND NOT UDP_FLAGS_CONNECTED\<rparr>))"

definition udp_recv :: "'w lwip \<Rightarrow> nat option \<Rightarrow> nat option \<Rightarrow> nat \<Rightarrow> 'w lwip res" where
  "udp_recv s pcb recv recv_arg =
     (case pcb of None \<Rightarrow> ret s | Some a \<Rightarrow>
      udp_upd s a (\<lambda>c. c\<lparr>udp_recv_cb := recv, udp_recv_arg := recv_arg\<rparr>))"

definition udp_remove :: "'w lwip \<Rightarrow> nat option \<Rightarrow> 'w lwip" where
  "udp_remove s pcb =
     (case pcb of None \<Rightarrow> s | Some a \<Rightarrow>
      s\<lparr>udp := (udp s)\<lparr>udp_pcbs := remove1 a (udp_pcbs (udp s)), udp_pcb_map := (udp_pcb_map (udp s))(a := None),
        memp_udp_pcb := do_memp_free_pool (memp_udp_pcb (udp s)) a\<rparr>\<rparr>)"

definition udp_new :: "'w lwip \<Rightarrow> 'w lwip \<times> nat option" where
  "udp_new s =
     (case do_memp_malloc_pool (memp_udp_pcb (udp s)) of (d, r) \<Rightarrow>
      (case r of
         None \<Rightarrow> (s\<lparr>udp := (udp s)\<lparr>memp_udp_pcb := d\<rparr>\<rparr>, None)
       | Some a \<Rightarrow>
           (s\<lparr>udp := (udp s)\<lparr>memp_udp_pcb := d,
              udp_pcb_map := (udp_pcb_map (udp s))(a \<mapsto> \<lparr>local_ip = 0, remote_ip = 0, netif_idx = 0, so_options = 0,
                pcb_tos = 0, pcb_ttl = UDP_TTL, udp_flags = 0, local_port = 0, remote_port = 0,
                udp_recv_cb = None, udp_recv_arg = 0\<rparr>)\<rparr>\<rparr>, Some a)))"

definition udp_new_ip_type :: "'w lwip \<Rightarrow> u8 \<Rightarrow> 'w lwip \<times> nat option" where
  "udp_new_ip_type s type = udp_new s"

fun udp_addr_changed_loop :: "'w lwip \<Rightarrow> u32 \<Rightarrow> u32 \<Rightarrow> nat list \<Rightarrow> 'w lwip res" where
  "udp_addr_changed_loop s old_addr new_addr [] = ret s"
| "udp_addr_changed_loop s old_addr new_addr (a # as) =
     bindR (udp_upd s a (\<lambda>c. if local_ip c = old_addr then c\<lparr>local_ip := new_addr\<rparr> else c)) (\<lambda>s1.
     udp_addr_changed_loop s1 old_addr new_addr as)"

definition udp_netif_ip_addr_changed :: "'w lwip \<Rightarrow> u32 \<Rightarrow> u32 option \<Rightarrow> 'w lwip res" where
  "udp_netif_ip_addr_changed s old_addr new_addr =
     (case new_addr of
        None \<Rightarrow> ret s
      | Some new \<Rightarrow>
          if \<not> ip4_addr_isany_val old_addr \<and> \<not> ip4_addr_isany_val new
          then udp_addr_changed_loop s old_addr new (udp_pcbs (udp s))
          else ret s)"

section \<open>Input\<close>

definition udp_input_local_match :: "'w lwip \<Rightarrow> udp_pcb \<Rightarrow> nat \<Rightarrow> bool \<Rightarrow> bool res" where
  "udp_input_local_match s pcb inp broadcast =
     bindR (if netif_idx pcb \<noteq> NETIF_NO_INDEX
            then bindR (netif_at s (current_input_netif (ip_data s))) (\<lambda>n. ret (netif_idx pcb \<noteq> netif_get_index n))
            else ret False) (\<lambda>other_netif.
     let dest = current_iphdr_dest (ip_data s) in
     if other_netif then ret False
     else if broadcast then
       bindR (netif_at s (Some inp)) (\<lambda>n.
       ret (ip4_addr_isany_val (local_ip pcb) \<or> dest = IPADDR_BROADCAST \<or>
            ip4_addr_net_eq (local_ip pcb) dest (netmask n)))
     else ret (ip4_addr_isany_val (local_ip pcb) \<or> local_ip pcb = dest))"

text \<open>
  The search of \<open>udp_input\<close>: the first fully matching PCB with the one in front of it in the
  list, and the unconnected PCB to fall back on.
\<close>

fun udp_search ::
  "'w lwip \<Rightarrow> nat \<Rightarrow> bool \<Rightarrow> u16 \<Rightarrow> u16 \<Rightarrow> nat list \<Rightarrow> nat option \<Rightarrow> nat option \<Rightarrow>
   (nat option \<times> nat option \<times> nat option) res" where
  "udp_search s inp broadcast src dest [] prev uncon = ret (None, prev, uncon)"
| "udp_search s inp broadcast src dest (a # as) prev uncon =
     bindR (udp_at s a) (\<lambda>pcb.
     bindR (if local_port pcb = dest then udp_input_local_match s pcb inp broadcast else ret False) (\<lambda>local_match.
     if \<not> local_match then udp_search s inp broadcast src dest as (Some a) uncon
     else
       bindR
         (if udp_flags pcb AND UDP_FLAGS_CONNECTED = 0 then
            (case uncon of
               None \<Rightarrow> ret (Some a)
             | Some u \<Rightarrow>
                 if broadcast \<and> current_iphdr_dest (ip_data s) = IPADDR_BROADCAST then
                   bindR (udp_at s u) (\<lambda>upcb.
                   bindR (netif_at s (Some inp)) (\<lambda>n.
                   ret (if local_ip upcb \<noteq> ip_addr n \<and> local_ip pcb = ip_addr n then Some a else uncon)))
                 else ret uncon)
          else ret uncon) (\<lambda>uncon1.
       if remote_port pcb = src \<and>
          (ip4_addr_isany_val (remote_ip pcb) \<or> remote_ip pcb = current_iphdr_src (ip_data s))
       then ret (Some a, prev, uncon1)
       else udp_search s inp broadcast src dest as (Some a) uncon1)))"

definition udp_input :: "'w lenv \<Rightarrow> 'w lwip \<Rightarrow> nat \<Rightarrow> nat \<Rightarrow> 'w lwip res" where
  "udp_input E s0 p inp =
     (let s = udp_stats_inc sp_recv_update s0;
          src_ip = current_iphdr_src (ip_data s);
          dest_ip = current_iphdr_dest (ip_data s) in
      bindR (deref (eps s) (Some p)) (\<lambda>b.
      if len b < of_nat UDP_HLEN
      then free_pbuf E (udp_stats_inc sp_drop_update (udp_stats_inc sp_lenerr_update s)) p
      else
        bindR (netif_at s (current_netif (ip_data s))) (\<lambda>n.
        let broadcast = ip4_addr_isbroadcast_u32 dest_ip n in
        bindR (load16 (mem s) (payload b)) (\<lambda>usrc.
        bindR (load16 (mem s) (payload b + 2)) (\<lambda>udest.
        let src = lwip_htons usrc; dest = lwip_htons udest in
        bindR (udp_search s inp broadcast src dest (udp_pcbs (udp s)) None None) (\<lambda>(found, prev, uncon_pcb).
        let s1 = (case found of
                    None \<Rightarrow> s
                  | Some a \<Rightarrow>
                      if prev \<noteq> None
                      then s\<lparr>udp := (udp s)\<lparr>udp_pcbs := a # remove1 a (udp_pcbs (udp s))\<rparr>\<rparr>
                      else udp_stats_inc sp_cachehit_update s);
            pcb = (if found = None then uncon_pcb else found) in
        bindR (netif_at s1 (Some inp)) (\<lambda>ninp.
        let for_us = (pcb \<noteq> None \<or> ip_addr ninp = dest_ip) in
        if \<not> for_us then free_pbuf E s1 p
        else
          bindR (load16 (mem s1) (payload b + 6)) (\<lambda>chksum.
          bindR (if chksum \<noteq> 0
                 then bindR (ip_chksum_pseudo LWIP_CHKSUM (eps s1) (Some p) IP_PROTO_UDP (tot_len b) src_ip dest_ip) (\<lambda>c.
                      ret (c \<noteq> 0))
                 else ret False) (\<lambda>chkerr.
          if chkerr then free_pbuf E (udp_stats_inc sp_drop_update (udp_stats_inc sp_chkerr_update s1)) p
          else
            bindR (liftP s1 (pbuf_remove_header (eps s1) (Some p) (of_nat UDP_HLEN))) (\<lambda>(s2, r).
            bindR (lwip_assert (r = 0)) (\<lambda>_.
            case pcb of
              Some a \<Rightarrow>
                bindR (udp_at s2 a) (\<lambda>c.
                case udp_recv_cb c of
                  Some f \<Rightarrow> udp_recv_fn E f (udp_recv_arg c) a p src_ip src s2
                | None \<Rightarrow> free_pbuf E s2 p)
            | None \<Rightarrow>
                bindR
                  (if \<not> broadcast \<and> \<not> ip4_addr_ismulticast dest_ip then
                     bindR (liftP s2 (pbuf_header_force (eps s2) (Some p)
                       (current_ip_header_tot_len (ip_data s2) + of_nat UDP_HLEN))) (\<lambda>(s3, _).
                     icmp_dest_unreach E s3 p ICMP_DUR_PORT)
                   else ret s2) (\<lambda>s4.
                free_pbuf E (udp_stats_inc sp_drop_update (udp_stats_inc sp_proterr_update s4)) p))))))))))))"

section \<open>Output\<close>

definition udp_sendto_if_src ::
  "'w lenv \<Rightarrow> 'w lwip \<Rightarrow> nat option \<Rightarrow> nat option \<Rightarrow> u32 option \<Rightarrow> u16 \<Rightarrow> nat option \<Rightarrow> u32 option \<Rightarrow>
   ('w lwip \<times> err_t) res" where
  "udp_sendto_if_src E s pcbp pp dst_ip dst_port nif src_ip =
     (if pcbp = None \<or> pp = None \<or> dst_ip = None \<or> src_ip = None \<or> nif = None then ret (s, ERR_ARG)
      else
        let pcb = the pcbp; p = the pp in
        bindR (udp_at s pcb) (\<lambda>c0.
        bindR (if local_port c0 = 0 then udp_bind s pcbp (Some (local_ip c0)) (local_port c0)
               else ret (s, ERR_OK)) (\<lambda>(s1, err1).
        if err1 \<noteq> ERR_OK then ret (s1, err1)
        else
          bindR (deref (eps s1) pp) (\<lambda>b.
          if tot_len b + of_nat UDP_HLEN < tot_len b then ret (s1, ERR_MEM)
          else
            bindR (liftP s1 (pbuf_add_header (eps s1) pp (of_nat UDP_HLEN))) (\<lambda>(s2, r2).
            bindR
              (if r2 \<noteq> 0 then
                 bindR (liftP s2 (pbuf_alloc (penv_of E) (eps s2) PBUF_IP (of_nat UDP_HLEN) PBUF_RAM)) (\<lambda>(s3, q).
                 if q = None then ret (s3, None)
                 else
                   bindR (deref (eps s3) pp) (\<lambda>b3.
                   if tot_len b3 \<noteq> 0
                   then bindR (pbuf_chain (eps s3) q pp) (\<lambda>ps4. ret (s3\<lparr>eps := ps4\<rparr>, q))
                   else ret (s3, q)))
               else ret (s2, pp)) (\<lambda>(s5, qo).
            case qo of
              None \<Rightarrow> ret (s5, ERR_MEM)
            | Some q \<Rightarrow>
                bindR (deref (eps s5) qo) (\<lambda>qb.
                bindR (lwip_assert (len qb \<ge> of_nat UDP_HLEN)) (\<lambda>_.
                bindR (udp_at s5 pcb) (\<lambda>c.
                let udphdr = payload qb in
                bindR (store_all s5 [(udphdr, bytes16 (lwip_htons (local_port c))),
                  (udphdr + 2, bytes16 (lwip_htons dst_port)), (udphdr + 6, bytes16 0),
                  (udphdr + 4, bytes16 (lwip_htons (tot_len qb)))]) (\<lambda>s6.
                bindR
                  (if udp_flags c AND UDP_FLAGS_NOCHKSUM = 0 then
                     bindR (ip_chksum_pseudo LWIP_CHKSUM (eps s6) qo IP_PROTO_UDP (tot_len qb) (the src_ip) (the dst_ip)) (\<lambda>ck.
                     store_bytes s6 (udphdr + 6) (bytes16 (if ck = 0 then 0xffff else ck)))
                   else ret s6) (\<lambda>s7.
                bindR (ip4_output_if_src E s7 q src_ip dst_ip (pcb_ttl c) (pcb_tos c) IP_PROTO_UDP (the nif)) (\<lambda>(s8, err).
                bindR (if q \<noteq> p then free_pbuf E s8 q else ret s8) (\<lambda>s9.
                ret (udp_stats_inc sp_xmit_update s9, err))))))))))))))"

definition udp_sendto_if ::
  "'w lenv \<Rightarrow> 'w lwip \<Rightarrow> nat option \<Rightarrow> nat option \<Rightarrow> u32 option \<Rightarrow> u16 \<Rightarrow> nat option \<Rightarrow> ('w lwip \<times> err_t) res" where
  "udp_sendto_if E s pcbp pp dst_ip dst_port nif =
     (if pcbp = None \<or> pp = None \<or> dst_ip = None \<or> nif = None then ret (s, ERR_ARG)
      else
        bindR (udp_at s (the pcbp)) (\<lambda>c.
        bindR (netif_at s nif) (\<lambda>n.
        if ip4_addr_isany_val (local_ip c) \<or> ip4_addr_ismulticast (local_ip c)
        then udp_sendto_if_src E s pcbp pp dst_ip dst_port nif (Some (ip_addr n))
        else if local_ip c \<noteq> ip_addr n then ret (s, ERR_RTE)
        else udp_sendto_if_src E s pcbp pp dst_ip dst_port nif (Some (local_ip c)))))"

definition udp_sendto ::
  "'w lenv \<Rightarrow> 'w lwip \<Rightarrow> nat option \<Rightarrow> nat option \<Rightarrow> u32 option \<Rightarrow> u16 \<Rightarrow> ('w lwip \<times> err_t) res" where
  "udp_sendto E s pcbp pp dst_ip dst_port =
     (if pcbp = None \<or> pp = None \<or> dst_ip = None then ret (s, ERR_ARG)
      else
        bindR (udp_at s (the pcbp)) (\<lambda>c.
        bindR (if netif_idx c \<noteq> NETIF_NO_INDEX
               then bindR (netif_get_by_index s (netif_idx c)) (\<lambda>r. ret (s, r))
               else ip4_route s (the dst_ip)) (\<lambda>(s1, nif).
        if nif = None then ret (udp_stats_inc sp_rterr_update s1, ERR_RTE)
        else udp_sendto_if E s1 pcbp pp dst_ip dst_port nif)))"

definition udp_send :: "'w lenv \<Rightarrow> 'w lwip \<Rightarrow> nat option \<Rightarrow> nat option \<Rightarrow> ('w lwip \<times> err_t) res" where
  "udp_send E s pcbp pp =
     (if pcbp = None \<or> pp = None then ret (s, ERR_ARG)
      else bindR (udp_at s (the pcbp)) (\<lambda>c. udp_sendto E s pcbp pp (Some (remote_ip c)) (remote_port c)))"

end
