(* ===== verification/Udp_Props.thy ===== *)
theory Udp_Props
  imports Udp Acd_Props
begin

text \<open>
  The PCB list of UDP: the port chosen by \<open>udp_new_port\<close>, the well-formedness invariant of the list and
  of the PCB pool, the calls of the API as steps of a transition system that keep it, and what \<open>udp_bind\<close> promises.
\<close>

unbundle bit_operations_syntax

section \<open>Ports\<close>

definition next_port :: "u16 \<Rightarrow> u16" where
  "next_port p = (if p = UDP_LOCAL_PORT_RANGE_END then UDP_LOCAL_PORT_RANGE_START else p + 1)"

text \<open>The ports are tried in cyclic order, \<open>m\<close> of them at most.\<close>

fun try_ports :: "u16 list \<Rightarrow> u16 \<Rightarrow> nat \<Rightarrow> u16 \<times> u16" where
  "try_ports ports port 0 = (port, 0)"
| "try_ports ports port (Suc m) =
     (if next_port port \<in> set ports then try_ports ports (next_port port) m else (next_port port, next_port port))"

lemma new_port_loop_try:
  assumes "unat n + m = 0x3fff"
  shows "new_port_loop ports n port = try_ports ports port (Suc m)"
  using assms
proof (induction m arbitrary: n port)
  case 0
  then have "n + 1 > 0x3fff" by (simp add: word_less_nat_alt unat_word_ariths)
  then show ?case by (subst new_port_loop.simps) (simp add: next_port_def Let_def)
next
  case (Suc m)
  then have n: "unat (n + 1) = unat n + 1" using unat_add_lem [of n 1] by simp
  with Suc.prems have "\<not> n + 1 > 0x3fff" by (simp add: word_less_nat_alt)
  then have "new_port_loop ports n port = (if next_port port \<in> set ports
      then new_port_loop ports (n + 1) (next_port port) else (next_port port, next_port port))"
    by (subst new_port_loop.simps) (simp add: next_port_def Let_def)
  then show ?case using Suc.IH [of "n + 1" "next_port port"] Suc.prems n by simp
qed

lemma try_ports_result:
  "(\<exists>j. try_ports ports port m = ((next_port ^^ Suc j) port, (next_port ^^ Suc j) port) \<and>
      (next_port ^^ Suc j) port \<notin> set ports) \<or>
   try_ports ports port m = ((next_port ^^ m) port, 0) \<and> (\<forall>j. 1 \<le> j \<and> j \<le> m \<longrightarrow> (next_port ^^ j) port \<in> set ports)"
proof (induction m arbitrary: port)
  case (Suc m)
  show ?case
  proof (cases "next_port port \<in> set ports")
    case False
    then show ?thesis by (intro disjI1 exI [of _ 0]) simp
  next
    case True
    have shift: "(next_port ^^ j) (next_port port) = (next_port ^^ Suc j) port" for j by (simp add: funpow_swap1)
    show ?thesis using Suc.IH [of "next_port port"]
    proof (elim disjE exE conjE)
      fix j assume "try_ports ports (next_port port) m = ((next_port ^^ Suc j) (next_port port), (next_port ^^ Suc j) (next_port port))"
        "(next_port ^^ Suc j) (next_port port) \<notin> set ports"
      then show ?thesis using True by (intro disjI1 exI [of _ "Suc j"]) (simp add: funpow_swap1)
    next
      assume *: "try_ports ports (next_port port) m = ((next_port ^^ m) (next_port port), 0)"
        "\<forall>j. 1 \<le> j \<and> j \<le> m \<longrightarrow> (next_port ^^ j) (next_port port) \<in> set ports"
      have "(next_port ^^ j) port \<in> set ports" if "1 \<le> j" "j \<le> Suc m" for j
      proof (cases j)
        case (Suc i)
        then show ?thesis using *(2) [rule_format, of i] that True shift [of i] by (cases i) auto
      qed (use that in simp)
      then show ?thesis using * True shift [of m] by simp
    qed
  qed
qed simp

lemma unat_next_port:
  assumes "UDP_LOCAL_PORT_RANGE_START \<le> p"
  shows "unat (next_port p) = 0xc000 + (unat p - 0xc000 + 1) mod 0x4000"
proof -
  have "0xc000 \<le> unat p" using assms by (simp add: word_le_nat_alt)
  show ?thesis
  proof (cases "p = UDP_LOCAL_PORT_RANGE_END")
    case False
    then have "unat p \<noteq> unat UDP_LOCAL_PORT_RANGE_END" by (simp only: word_unat_eq_iff not_False_eq_True)
    then have "unat p \<noteq> 65535" by simp
    then have "unat p < 65535" using unat_u16_less [of p] by linarith
    then have "unat (p + 1) = unat p + 1" using unat_add_lem [of p 1] by simp
    with False \<open>unat p < 65535\<close> \<open>0xc000 \<le> unat p\<close> show ?thesis by (simp add: next_port_def)
  qed (simp add: next_port_def)
qed

lemma unat_next_ports:
  assumes "UDP_LOCAL_PORT_RANGE_START \<le> p"
  shows "unat ((next_port ^^ j) p) = 0xc000 + (unat p - 0xc000 + j) mod 0x4000"
proof (induction j)
  case 0
  have "unat p - 0xc000 < 0x4000" "0xc000 \<le> unat p" using assms unat_u16_less [of p] by (simp_all add: word_le_nat_alt del: unat_u16_less)
  then show ?case by simp
next
  case (Suc j)
  then have "UDP_LOCAL_PORT_RANGE_START \<le> (next_port ^^ j) p" by (simp add: word_le_nat_alt)
  from unat_next_port [OF this] Suc show ?case by (simp add: mod_Suc_eq)
qed

text \<open>Every port of the range is reached after at least one and at most \<open>0x4000\<close> steps.\<close>

lemma next_ports_cover:
  assumes "UDP_LOCAL_PORT_RANGE_START \<le> p" and "UDP_LOCAL_PORT_RANGE_START \<le> q"
  shows "\<exists>j. 1 \<le> j \<and> j \<le> 0x4000 \<and> (next_port ^^ j) p = q"
proof -
  let ?i = "unat p - 0xc000" and ?k = "unat q - 0xc000"
  have ik: "?i < 0x4000" "?k < 0x4000" "unat q = 0xc000 + ?k"
    using assms unat_u16_less [of p] unat_u16_less [of q] by (simp_all add: word_le_nat_alt del: unat_u16_less)
  let ?j = "if ?i < ?k then ?k - ?i else 0x4000 + ?k - ?i"
  have "?i + ?j = ?k \<or> ?i + ?j = ?k + 0x4000" using ik(1,2) by (simp split: if_split)
  then have "(?i + ?j) mod 0x4000 = ?k" using ik(2) by (elim disjE) (simp_all only: mod_less mod_add_self2)
  then have "unat ((next_port ^^ ?j) p) = unat q" using unat_next_ports [OF assms(1), of ?j] ik(3) by simp
  then have "(next_port ^^ ?j) p = q" by (simp only: word_unat_eq_iff)
  then show ?thesis using ik by (intro exI [of _ ?j]) auto
qed

lemma new_port_loop_free:
  assumes "UDP_LOCAL_PORT_RANGE_START \<le> port" and "new_port_loop ports 0 port = (q, r)"
  shows "UDP_LOCAL_PORT_RANGE_START \<le> q \<and>
    (if \<exists>p \<ge> UDP_LOCAL_PORT_RANGE_START. p \<notin> set ports
     then UDP_LOCAL_PORT_RANGE_START \<le> r \<and> r \<notin> set ports else r = 0)"
proof -
  have tr: "try_ports ports port 0x4000 = (q, r)"
    using assms(2) new_port_loop_try [of 0 "0x3fff" ports port] by simp
  have range: "UDP_LOCAL_PORT_RANGE_START \<le> (next_port ^^ j) port" for j
    using unat_next_ports [OF assms(1), of j] by (simp add: word_le_nat_alt)
  show ?thesis using try_ports_result [of ports port "0x4000"]
  proof (elim disjE exE conjE)
    fix j assume "try_ports ports port 0x4000 = ((next_port ^^ Suc j) port, (next_port ^^ Suc j) port)"
      "(next_port ^^ Suc j) port \<notin> set ports"
    then show ?thesis using tr range [of "Suc j"] by auto
  next
    assume *: "try_ports ports port 0x4000 = ((next_port ^^ 0x4000) port, 0)"
      "\<forall>j. 1 \<le> j \<and> j \<le> 0x4000 \<longrightarrow> (next_port ^^ j) port \<in> set ports"
    have "p \<in> set ports" if "UDP_LOCAL_PORT_RANGE_START \<le> p" for p
      using next_ports_cover [OF assms(1) that] *(2) by blast
    then show ?thesis using tr *(1) range [of "0x4000"] by auto
  qed
qed
section \<open>Well-formed PCBs\<close>

lemma udp_at_Some [simp]: "udp_pcb_map (udp s) a = Some c \<Longrightarrow> udp_at s a = ret c"
  by (simp add: udp_at_def)

lemma udp_upd_Some [simp]: "udp_pcb_map (udp s) a = Some c \<Longrightarrow>
    udp_upd s a f = ret (s\<lparr>udp := (udp s)\<lparr>udp_pcb_map := (udp_pcb_map (udp s))(a \<mapsto> f c)\<rparr>\<rparr>)"
  by (simp add: udp_upd_def)

abbreviation (input) pcb_of :: "'w lwip \<Rightarrow> nat \<Rightarrow> udp_pcb" where
  "pcb_of s a \<equiv> the (udp_pcb_map (udp s) a)"

text \<open>A PCB that prevents others from binding to an address and port.\<close>

definition conflict :: "udp_pcb \<Rightarrow> u32 \<Rightarrow> u16 \<Rightarrow> bool" where
  "conflict c ip port \<longleftrightarrow> local_port c = port \<and>
     (local_ip c = ip \<or> ip4_addr_isany_val ip \<or> ip4_addr_isany_val (local_ip c))"

definition udp_ok :: "'w lwip \<Rightarrow> bool" where
  "udp_ok s \<longleftrightarrow> distinct (udp_pcbs (udp s)) \<and>
     (\<forall>a \<in> set (udp_pcbs (udp s)). udp_pcb_map (udp s) a \<noteq> None) \<and>
     distinct (tab (memp_udp_pcb (udp s))) \<and> (\<forall>a \<in> set (tab (memp_udp_pcb (udp s))). udp_pcb_map (udp s) a = None) \<and>
     (\<forall>a. udp_pcb_map (udp s) a \<noteq> None \<longrightarrow> local_port (pcb_of s a) \<noteq> 0 \<longrightarrow> a \<in> set (udp_pcbs (udp s))) \<and>
     UDP_LOCAL_PORT_RANGE_START \<le> udp_port (udp s) \<and>
     (\<forall>a \<in> set (udp_pcbs (udp s)). \<forall>b \<in> set (udp_pcbs (udp s)). a \<noteq> b \<longrightarrow>
        \<not> conflict (pcb_of s a) (local_ip (pcb_of s b)) (local_port (pcb_of s b)))"

lemma conflict_sym: "conflict c (local_ip d) (local_port d) \<longleftrightarrow> conflict d (local_ip c) (local_port c)"
  by (auto simp: conflict_def)

lemma udp_ports_run:
  assumes "\<forall>a \<in> set as. udp_pcb_map (udp s) a \<noteq> None"
  shows "udp_ports s as = ret (map (\<lambda>a. local_port (pcb_of s a)) as)"
  using assms by (induction as) auto

lemma bind_in_use_run:
  assumes "\<forall>b \<in> set as. udp_pcb_map (udp s) b \<noteq> None"
  shows "bind_in_use s a ip port as = ret (\<exists>b \<in> set as. b \<noteq> a \<and> conflict (pcb_of s b) ip port)"
  using assms by (induction as) (auto simp: conflict_def)

text \<open>The state after a PCB is bound.\<close>

definition udp_bound :: "'w lwip \<Rightarrow> nat \<Rightarrow> udp_pcb \<Rightarrow> 'w lwip" where
  "udp_bound s a c = s\<lparr>udp := (udp s)\<lparr>udp_pcb_map := (udp_pcb_map (udp s))(a \<mapsto> c),
     udp_pcbs := (if a \<in> set (udp_pcbs (udp s)) then udp_pcbs (udp s) else a # udp_pcbs (udp s))\<rparr>\<rparr>"

lemma udp_bound_ok:
  assumes "udp_ok s" and "udp_pcb_map (udp s) a \<noteq> None"
    and "\<forall>b \<in> set (udp_pcbs (udp s)). b \<noteq> a \<longrightarrow> \<not> conflict (pcb_of s b) (local_ip c) (local_port c)"
  shows "udp_ok (udp_bound s a c)"
proof -
  have "\<not> conflict c (local_ip (pcb_of s b)) (local_port (pcb_of s b))" if "b \<in> set (udp_pcbs (udp s))" "b \<noteq> a" for b
    using assms(3) that conflict_sym by blast
  with assms show ?thesis by (auto simp: udp_ok_def udp_bound_def)
qed

lemma udp_pcbs_same [simp]: "u\<lparr>udp_pcb_map := m, udp_pcbs := udp_pcbs u\<rparr> = u\<lparr>udp_pcb_map := m\<rparr>"
  "u\<lparr>udp_port := q, udp_pcb_map := m, udp_pcbs := udp_pcbs u\<rparr> = u\<lparr>udp_port := q, udp_pcb_map := m\<rparr>"
  by (cases u, simp)+

lemma udp_bind_run:
  fixes ipaddr :: "u32 option"
  assumes "udp_ok s" and "udp_pcb_map (udp s) a = Some c"
  defines "ip \<equiv> (case ipaddr of None \<Rightarrow> IPADDR_ANY | Some x \<Rightarrow> x)"
  shows "port \<noteq> 0 \<Longrightarrow> udp_bind s (Some a) ipaddr port =
      ret (if \<exists>b \<in> set (udp_pcbs (udp s)). b \<noteq> a \<and> conflict (pcb_of s b) ip port then (s, ERR_USE)
           else (udp_bound s a (c\<lparr>local_ip := ip, local_port := port\<rparr>), ERR_OK))"
    and "new_port_loop (map (\<lambda>a. local_port (pcb_of s a)) (udp_pcbs (udp s))) 0 (udp_port (udp s)) = (q, r) \<Longrightarrow>
      udp_bind s (Some a) ipaddr 0 =
      ret (if r = 0 then (s\<lparr>udp := (udp s)\<lparr>udp_port := q\<rparr>\<rparr>, ERR_USE)
           else (udp_bound (s\<lparr>udp := (udp s)\<lparr>udp_port := q\<rparr>\<rparr>) a (c\<lparr>local_ip := ip, local_port := r\<rparr>), ERR_OK))"
proof -
  have live: "\<forall>b \<in> set (udp_pcbs (udp s)). udp_pcb_map (udp s) b \<noteq> None" using assms(1) by (simp add: udp_ok_def)
  show "port \<noteq> 0 \<Longrightarrow> udp_bind s (Some a) ipaddr port =
      ret (if \<exists>b \<in> set (udp_pcbs (udp s)). b \<noteq> a \<and> conflict (pcb_of s b) ip port then (s, ERR_USE)
           else (udp_bound s a (c\<lparr>local_ip := ip, local_port := port\<rparr>), ERR_OK))"
    using assms(2) by (simp add: udp_bind_def bind_in_use_run [OF live] udp_bound_def ip_def Let_def)
  show "new_port_loop (map (\<lambda>a. local_port (pcb_of s a)) (udp_pcbs (udp s))) 0 (udp_port (udp s)) = (q, r) \<Longrightarrow>
      udp_bind s (Some a) ipaddr 0 =
      ret (if r = 0 then (s\<lparr>udp := (udp s)\<lparr>udp_port := q\<rparr>\<rparr>, ERR_USE)
           else (udp_bound (s\<lparr>udp := (udp s)\<lparr>udp_port := q\<rparr>\<rparr>) a (c\<lparr>local_ip := ip, local_port := r\<rparr>), ERR_OK))"
    using assms(2) by (simp add: udp_bind_def udp_new_port_def udp_ports_run [OF live] udp_bound_def ip_def Let_def)
qed

section \<open>Sequences of calls\<close>

datatype udp_call =
    Call_new
  | Call_bind nat "u32 option" u16
  | Call_bind_netif nat "nat option"
  | Call_connect nat "u32 option" u16
  | Call_disconnect nat
  | Call_recv nat "nat option" nat
  | Call_remove nat

fun run_call :: "'w lwip \<Rightarrow> udp_call \<Rightarrow> 'w lwip res" where
  "run_call s Call_new = ret (fst (udp_new s))"
| "run_call s (Call_bind a ip port) = bindR (udp_bind s (Some a) ip port) (\<lambda>(s1, _). ret s1)"
| "run_call s (Call_bind_netif a nif) = udp_bind_netif s a nif"
| "run_call s (Call_connect a ip port) = bindR (udp_connect s (Some a) ip port) (\<lambda>(s1, _). ret s1)"
| "run_call s (Call_disconnect a) = udp_disconnect s (Some a)"
| "run_call s (Call_recv a f arg) = udp_recv s (Some a) f arg"
| "run_call s (Call_remove a) = ret (udp_remove s (Some a))"

text \<open>The arguments of a call are valid: the PCB was created and not removed, the interface exists.\<close>

fun call_ok :: "'w lwip \<Rightarrow> udp_call \<Rightarrow> bool" where
  "call_ok s Call_new = True"
| "call_ok s (Call_bind a ip port) = (udp_pcb_map (udp s) a \<noteq> None)"
| "call_ok s (Call_bind_netif a nif) = (udp_pcb_map (udp s) a \<noteq> None \<and> (\<forall>n. nif = Some n \<longrightarrow> netifs s n \<noteq> None))"
| "call_ok s (Call_connect a ip port) = (udp_pcb_map (udp s) a \<noteq> None)"
| "call_ok s (Call_disconnect a) = (udp_pcb_map (udp s) a \<noteq> None)"
| "call_ok s (Call_recv a f arg) = (udp_pcb_map (udp s) a \<noteq> None)"
| "call_ok s (Call_remove a) = (udp_pcb_map (udp s) a \<noteq> None)"

inductive udp_reachable :: "'w lwip \<Rightarrow> 'w lwip \<Rightarrow> bool" for s0 where
  start: "udp_reachable s0 s0"
| call: "udp_reachable s0 s \<Longrightarrow> call_ok s c \<Longrightarrow> run_call s c = ret s' \<Longrightarrow> udp_reachable s0 s'"

lemma udp_bind_ok:
  assumes "udp_ok s" and "udp_pcb_map (udp s) a = Some c"
  shows "\<exists>s' e. udp_bind s (Some a) ipaddr port = ret (s', e) \<and> udp_ok s' \<and>
    udp_pcb_map (udp s') a \<noteq> None \<and> (e = ERR_OK \<longrightarrow> a \<in> set (udp_pcbs (udp s')))"
proof (cases "port = 0")
  case False
  let ?ip = "case ipaddr of None \<Rightarrow> IPADDR_ANY | Some x \<Rightarrow> x"
  let ?c = "c\<lparr>local_ip := ?ip, local_port := port\<rparr>"
  show ?thesis
  proof (cases "\<exists>b \<in> set (udp_pcbs (udp s)). b \<noteq> a \<and> conflict (pcb_of s b) ?ip port")
    case True
    then show ?thesis using udp_bind_run(1) [OF assms False, of ipaddr] assms by simp
  next
    case no: False
    have "udp_ok (udp_bound s a ?c)" using no assms by (intro udp_bound_ok) auto
    then show ?thesis using udp_bind_run(1) [OF assms False, of ipaddr] no
      by (intro exI [of _ "udp_bound s a ?c"] exI [of _ ERR_OK]) (auto simp: udp_bound_def)
  qed
next
  case True
  let ?ports = "map (\<lambda>a. local_port (pcb_of s a)) (udp_pcbs (udp s))"
  obtain q r where qr: "new_port_loop ?ports 0 (udp_port (udp s)) = (q, r)" by fastforce
  let ?s1 = "s\<lparr>udp := (udp s)\<lparr>udp_port := q\<rparr>\<rparr>"
  let ?ip = "case ipaddr of None \<Rightarrow> IPADDR_ANY | Some x \<Rightarrow> x"
  let ?c = "c\<lparr>local_ip := ?ip, local_port := r\<rparr>"
  have start: "UDP_LOCAL_PORT_RANGE_START \<le> udp_port (udp s)" using assms(1) by (simp add: udp_ok_def)
  have free: "UDP_LOCAL_PORT_RANGE_START \<le> q" "r \<noteq> 0 \<Longrightarrow> r \<notin> set ?ports"
    using new_port_loop_free [OF start qr] by (simp_all split: if_splits)
  have ok: "udp_ok ?s1" using assms(1) free(1) by (simp add: udp_ok_def)
  show ?thesis
  proof (cases "r = 0")
    case True
    then show ?thesis using udp_bind_run(2) [OF assms qr, of ipaddr] ok assms(2) \<open>port = 0\<close> by simp
  next
    case False
    have "udp_ok (udp_bound ?s1 a ?c)"
      using free(2) [OF False] assms(2) by (intro udp_bound_ok [OF ok]) (auto simp: conflict_def)
    then show ?thesis using udp_bind_run(2) [OF assms qr, of ipaddr] False \<open>port = 0\<close>
      by (intro exI [of _ "udp_bound ?s1 a ?c"] exI [of _ ERR_OK]) (auto simp: udp_bound_def)
  qed
qed

text \<open>Changes of the other members of a PCB.\<close>

lemma udp_upd_ok:
  assumes "udp_ok s" and "udp_pcb_map (udp s) a = Some c"
    and "local_ip (f c) = local_ip c" and "local_port (f c) = local_port c"
  shows "\<exists>s'. udp_upd s a f = ret s' \<and> udp_ok s'"
proof -
  let ?s' = "s\<lparr>udp := (udp s)\<lparr>udp_pcb_map := (udp_pcb_map (udp s))(a \<mapsto> f c)\<rparr>\<rparr>"
  have "local_ip (pcb_of ?s' x) = local_ip (pcb_of s x)" "local_port (pcb_of ?s' x) = local_port (pcb_of s x)" for x
    using assms(2-4) by simp_all
  then have "conflict (pcb_of ?s' x) ip port = conflict (pcb_of s x) ip port" for x ip port
    by (simp only: conflict_def)
  moreover have "udp_pcb_map (udp ?s') x = None \<longleftrightarrow> udp_pcb_map (udp s) x = None" for x using assms(2) by simp
  ultimately have "udp_ok ?s' = udp_ok s" using \<open>\<And>x. local_ip (pcb_of ?s' x) = local_ip (pcb_of s x)\<close>
      \<open>\<And>x. local_port (pcb_of ?s' x) = local_port (pcb_of s x)\<close> unfolding udp_ok_def by (simp del: fun_upd_apply)
  with assms(1,2) show ?thesis by simp
qed

lemma run_call_ok:
  assumes "udp_ok s" and "call_ok s c"
  shows "\<exists>s'. run_call s c = ret s' \<and> udp_ok s'"
proof (cases c)
  case Call_new
  show ?thesis
  proof (cases "tab (memp_udp_pcb (udp s))")
    case Nil
    then show ?thesis using assms(1) Call_new by (auto simp: udp_new_def do_memp_malloc_pool_def udp_ok_def)
  next
    case (Cons x xs)
    then have "x \<notin> set (udp_pcbs (udp s))" using assms(1) by (auto simp: udp_ok_def)
    then show ?thesis using assms(1) Call_new Cons
      by (auto simp: udp_new_def do_memp_malloc_pool_def udp_ok_def Let_def)
  qed
next
  case (Call_bind a ip port)
  then show ?thesis using assms udp_bind_ok [of s a _ ip port] by fastforce
next
  case (Call_connect a ip port)
  then obtain p where p: "udp_pcb_map (udp s) a = Some p" using assms(2) by auto
  show ?thesis
  proof (cases ip)
    case None
    then show ?thesis using Call_connect assms(1) by (simp add: udp_connect_def)
  next
    case (Some x)
    let ?f = "\<lambda>c. c\<lparr>remote_ip := x, remote_port := port, udp_flags := udp_flags c OR UDP_FLAGS_CONNECTED\<rparr>"
    have "\<exists>s1 e. (if local_port p = 0 then udp_bind s (Some a) (Some (local_ip p)) (local_port p) else ret (s, ERR_OK)) = ret (s1, e) \<and>
        udp_ok s1 \<and> udp_pcb_map (udp s1) a \<noteq> None \<and> (e = ERR_OK \<longrightarrow> a \<in> set (udp_pcbs (udp s1)))"
    proof (cases "local_port p = 0")
      case True
      then show ?thesis using udp_bind_ok [OF assms(1) p, of "Some (local_ip p)" "local_port p"] by simp
    next
      case False
      then show ?thesis using assms(1) p by (intro exI [of _ s] exI [of _ ERR_OK]) (auto simp: udp_ok_def)
    qed
    then obtain s1 e p1 where s1: "(if local_port p = 0 then udp_bind s (Some a) (Some (local_ip p)) (local_port p) else ret (s, ERR_OK)) = ret (s1, e)"
      "udp_ok s1" "udp_pcb_map (udp s1) a = Some p1" "e = ERR_OK \<Longrightarrow> a \<in> set (udp_pcbs (udp s1))" by auto
    have "run_call s c = (if e \<noteq> ERR_OK then ret s1 else udp_upd s1 a ?f)"
      using Call_connect Some p s1 by (simp add: udp_connect_def)
    then show ?thesis using udp_upd_ok [OF s1(2,3), of ?f] s1(2) by simp
  qed
next
  case (Call_bind_netif a nif)
  then obtain p where "udp_pcb_map (udp s) a = Some p" using assms(2) by auto
  then show ?thesis using Call_bind_netif assms udp_upd_ok [OF assms(1)] by (cases nif) (auto simp: udp_bind_netif_def)
next
  case (Call_disconnect a)
  then obtain p where "udp_pcb_map (udp s) a = Some p" using assms(2) by auto
  then show ?thesis unfolding Call_disconnect run_call.simps udp_disconnect_def option.case
    by (intro udp_upd_ok [OF assms(1)]) simp_all
next
  case (Call_recv a f arg)
  then obtain p where "udp_pcb_map (udp s) a = Some p" using assms(2) by auto
  then show ?thesis unfolding Call_recv run_call.simps udp_recv_def option.case
    by (intro udp_upd_ok [OF assms(1)]) simp_all
next
  case (Call_remove a)
  have "set (remove1 a (udp_pcbs (udp s))) = set (udp_pcbs (udp s)) - {a}"
    using assms(1) by (simp add: udp_ok_def set_remove1_eq)
  then show ?thesis using assms Call_remove by (auto simp: udp_remove_def do_memp_free_pool_def udp_ok_def)
qed

lemma udp_reachable_ok: "udp_reachable s0 s \<Longrightarrow> udp_ok s0 \<Longrightarrow> udp_ok s"
  by (induction rule: udp_reachable.induct) (use run_call_ok in fastforce)+

section \<open>Properties\<close>

text \<open>
  C34: The UDP module is type-sound. Whatever sequence of calls creates, binds, connects,
  disconnects and removes PCBs, as long as every call names a PCB that exists, the next such call
  returns, without a failed assertion or an access to a freed PCB, and the state stays well-formed: the
  list has no PCB twice and only live ones, the pool only free ones, every PCB with a port is on the list, and
  no two PCBs on the list are bound to addresses and ports that overlap.
\<close>

theorem udp_calls_sound:
  assumes "udp_ok s0" and "udp_reachable s0 s" and "call_ok s c"
  shows "udp_ok s \<and> (\<exists>s'. run_call s c = ret s' \<and> udp_ok s')"
  using run_call_ok udp_reachable_ok assms by blast

text \<open>
  C35: \<open>udp_bind\<close> gives a PCB exactly the address and port asked for unless another PCB on the list
  has the same port with the same address or with the address any, or the address asked for is
  any; then it answers \<open>ERR_USE\<close> and changes nothing. Asked for port 0 it picks a port from 0xc000 to
  0xffff that no PCB on the list has, with any address, and answers \<open>ERR_USE\<close> only when all 16384 of them are taken.
\<close>

theorem udp_bind_exclusive:
  assumes "udp_ok s" and "udp_pcb_map (udp s) a = Some c"
  shows "\<exists>s' e. udp_bind s (Some a) (Some ip) port = ret (s', e) \<and>
    (if port \<noteq> 0
     then if \<exists>b \<in> set (udp_pcbs (udp s)). b \<noteq> a \<and> conflict (pcb_of s b) ip port
          then e = ERR_USE \<and> s' = s
          else e = ERR_OK \<and> s' = udp_bound s a (c\<lparr>local_ip := ip, local_port := port\<rparr>)
     else if \<exists>q \<ge> 0xc000. \<forall>b \<in> set (udp_pcbs (udp s)). local_port (pcb_of s b) \<noteq> q
          then e = ERR_OK \<and> (\<exists>q \<ge> 0xc000. (\<forall>b \<in> set (udp_pcbs (udp s)). local_port (pcb_of s b) \<noteq> q) \<and>
            udp_pcb_map (udp s') = (udp_pcb_map (udp s))(a \<mapsto> c\<lparr>local_ip := ip, local_port := q\<rparr>) \<and>
            a \<in> set (udp_pcbs (udp s')))
          else e = ERR_USE \<and> udp_pcb_map (udp s') = udp_pcb_map (udp s) \<and> udp_pcbs (udp s') = udp_pcbs (udp s))"
proof (cases "port = 0")
  case False
  then show ?thesis using udp_bind_run(1) [OF assms False, of "Some ip"] by simp
next
  case True
  let ?ports = "map (\<lambda>a. local_port (pcb_of s a)) (udp_pcbs (udp s))"
  have start: "0xc000 \<le> udp_port (udp s)" using assms(1) by (simp add: udp_ok_def)
  have notin: "(\<forall>b \<in> set (udp_pcbs (udp s)). local_port (pcb_of s b) \<noteq> q) \<longleftrightarrow> q \<notin> set ?ports" for q by auto
  obtain q r where qr: "new_port_loop ?ports 0 (udp_port (udp s)) = (q, r)" by fastforce
  note free = new_port_loop_free [OF start qr]
  note run = udp_bind_run(2) [OF assms qr, of "Some ip"]
  show ?thesis
  proof (cases "\<exists>q \<ge> 0xc000. q \<notin> set ?ports")
    case free_port: True
    then have r: "0xc000 \<le> r" "r \<notin> set ?ports" using free by simp_all
    then have "r \<noteq> 0" by (auto simp: word_le_nat_alt)
    with run True r free_port show ?thesis unfolding notin by (auto simp: udp_bound_def)
  next
    case False
    then have "r = 0" using free by simp
    with run True False show ?thesis unfolding notin by simp
  qed
qed

text \<open>An example: the first PCB of the pool is created.\<close>

definition ex_udp_lwip :: "wire lwip" where
  "ex_udp_lwip = fst (udp_new ex_lwip)"

lemma ex_udp_pcb:
  "udp_pcb_map (udp ex_udp_lwip) 5000 = Some \<lparr>local_ip = 0, remote_ip = 0, netif_idx = 0, so_options = 0, pcb_tos = 0,
     pcb_ttl = UDP_TTL, udp_flags = 0, local_port = 0, remote_port = 0, udp_recv_cb = None, udp_recv_arg = 0\<rparr>"
  "udp_pcbs (udp ex_udp_lwip) = []"
  by (simp_all add: ex_udp_lwip_def udp_new_def ex_lwip_def ex_udp_def ex_pool_def do_memp_malloc_pool_def)

lemma ex_udp_ok: "udp_ok ex_lwip"
  by (simp add: udp_ok_def ex_lwip_def ex_udp_def ex_pool_def)

theorem udp_calls_sound_witness:
  "udp_ok ex_udp_lwip \<and> (\<exists>s'. run_call ex_udp_lwip (Call_bind 5000 (Some 0) 53) = ret s' \<and> udp_ok s')"
proof -
  have "udp_reachable ex_lwip ex_udp_lwip"
    by (rule udp_reachable.call [OF udp_reachable.start, of _ Call_new]) (simp_all add: ex_udp_lwip_def)
  from udp_calls_sound [OF ex_udp_ok this, of "Call_bind 5000 (Some 0) 53"] ex_udp_pcb(1) show ?thesis by simp
qed

theorem udp_bind_exclusive_witness:
  "(\<exists>s' e. udp_bind ex_udp_lwip (Some 5000) (Some 0) 53 = ret (s', e) \<and> e = ERR_OK \<and>
     local_port (pcb_of s' 5000) = 53) \<and>
   (\<exists>s' e. udp_bind ex_udp_lwip (Some 5000) (Some 0) 0 = ret (s', e) \<and> e = ERR_OK \<and>
     0xc000 \<le> local_port (pcb_of s' 5000))"
proof
  have ok: "udp_ok ex_udp_lwip"
    using run_call_ok [OF ex_udp_ok, of Call_new] by (simp add: ex_udp_lwip_def)
  note bind = udp_bind_exclusive [OF ok ex_udp_pcb(1), of 0]
  show "\<exists>s' e. udp_bind ex_udp_lwip (Some 5000) (Some 0) 53 = ret (s', e) \<and> e = ERR_OK \<and>
     local_port (pcb_of s' 5000) = 53"
    using bind [of 53] by (auto simp: ex_udp_pcb(2) udp_bound_def)
  have "\<exists>q :: u16. 0xc000 \<le> q" by blast
  then obtain s' q where "udp_bind ex_udp_lwip (Some 5000) (Some 0) 0 = ret (s', ERR_OK)" "0xc000 \<le> q"
    "udp_pcb_map (udp s') 5000 \<noteq> None" "local_port (pcb_of s' 5000) = q"
    using bind [of 0] by (auto simp: ex_udp_pcb(2))
  then show "\<exists>s' e. udp_bind ex_udp_lwip (Some 5000) (Some 0) 0 = ret (s', e) \<and> e = ERR_OK \<and>
     0xc000 \<le> local_port (pcb_of s' 5000)"
    by blast
qed

end
