(* ===== verification/Udp_Input.thy ===== *)
theory Udp_Input
  imports Udp_Props Inet_Chksum_Props "HOL-Library.Multiset"
begin

text \<open>
  The reception of UDP datagrams: which PCB \<open>udp_input\<close> chooses, as a declarative choice from the list of PCBs,
  and what it delivers to the callback of that PCB.
\<close>

unbundle bit_operations_syntax

section \<open>The PCB of a datagram\<close>

definition local_match :: "'w lwip \<Rightarrow> nat \<Rightarrow> bool \<Rightarrow> u16 \<Rightarrow> udp_pcb \<Rightarrow> bool" where
  "local_match s inp broadcast dest c \<longleftrightarrow>
     local_port c = dest \<and>
     (netif_idx c = NETIF_NO_INDEX \<or> netif_idx c = netif_get_index (the (netifs s (the (current_input_netif (ip_data s)))))) \<and>
     (local_ip c = IPADDR_ANY \<or>
      (if broadcast
       then current_iphdr_dest (ip_data s) = IPADDR_BROADCAST \<or>
         ip4_addr_net_eq (local_ip c) (current_iphdr_dest (ip_data s)) (netmask (the (netifs s inp)))
       else local_ip c = current_iphdr_dest (ip_data s)))"

definition remote_match :: "'w lwip \<Rightarrow> u16 \<Rightarrow> udp_pcb \<Rightarrow> bool" where
  "remote_match s src c \<longleftrightarrow> remote_port c = src \<and>
     (remote_ip c = IPADDR_ANY \<or> remote_ip c = current_iphdr_src (ip_data s))"

text \<open>
  The unconnected PCB to fall back on: the first one of those that match, for a datagram to 255.255.255.255 the first
  one that is bound to the address of the interface if there is one.
\<close>

definition pick :: "'w lwip \<Rightarrow> nat \<Rightarrow> bool \<Rightarrow> nat list \<Rightarrow> nat option" where
  "pick s inp broadcast us =
     (case if broadcast \<and> current_iphdr_dest (ip_data s) = IPADDR_BROADCAST
           then find (\<lambda>a. local_ip (pcb_of s a) = ip_addr (the (netifs s inp))) us else None of
        Some a \<Rightarrow> Some a
      | None \<Rightarrow> (case us of [] \<Rightarrow> None | a # _ \<Rightarrow> Some a))"

definition fallbacks :: "'w lwip \<Rightarrow> nat \<Rightarrow> bool \<Rightarrow> u16 \<Rightarrow> nat list \<Rightarrow> nat list" where
  "fallbacks s inp broadcast dest as =
     filter (\<lambda>a. local_match s inp broadcast dest (pcb_of s a) \<and> udp_flags (pcb_of s a) AND UDP_FLAGS_CONNECTED = 0) as"

definition full_match :: "'w lwip \<Rightarrow> nat \<Rightarrow> bool \<Rightarrow> u16 \<Rightarrow> u16 \<Rightarrow> nat \<Rightarrow> bool" where
  "full_match s inp broadcast src dest a \<longleftrightarrow>
     local_match s inp broadcast dest (pcb_of s a) \<and> remote_match s src (pcb_of s a)"

text \<open>The PCB that receives: the first one that matches the sender too, else the fallback.\<close>

definition demux :: "'w lwip \<Rightarrow> nat \<Rightarrow> bool \<Rightarrow> u16 \<Rightarrow> u16 \<Rightarrow> nat option" where
  "demux s inp broadcast src dest =
     (case find (full_match s inp broadcast src dest) (udp_pcbs (udp s)) of
        Some a \<Rightarrow> Some a
      | None \<Rightarrow> pick s inp broadcast (fallbacks s inp broadcast dest (udp_pcbs (udp s))))"

lemma find_snoc: "find P (xs @ [x]) = (case find P xs of Some y \<Rightarrow> Some y | None \<Rightarrow> if P x then Some x else None)"
  by (induction xs) auto

lemma find_SomeD: "find P xs = Some x \<Longrightarrow> P x \<and> x \<in> set xs"
  by (induction xs) (auto split: if_splits)

lemma pick_Nil [simp]: "pick s inp broadcast [] = None"
  by (simp add: pick_def)

lemma pick_None: "pick s inp broadcast us = None \<longleftrightarrow> us = []"
  by (auto simp: pick_def split: option.splits list.splits)

lemma pick_in: "pick s inp broadcast us = Some u \<Longrightarrow> u \<in> set us"
  by (auto simp: pick_def dest: find_SomeD split: option.splits list.splits if_splits)

lemma pick_snoc:
  "pick s inp broadcast (us @ [a]) =
     (case pick s inp broadcast us of
        None \<Rightarrow> Some a
      | Some u \<Rightarrow>
          if broadcast \<and> current_iphdr_dest (ip_data s) = IPADDR_BROADCAST \<and>
             local_ip (pcb_of s u) \<noteq> ip_addr (the (netifs s inp)) \<and> local_ip (pcb_of s a) = ip_addr (the (netifs s inp))
          then Some a else Some u)"
proof (cases us)
  case (Cons b bs)
  let ?P = "\<lambda>a. local_ip (pcb_of s a) = ip_addr (the (netifs s inp))"
  let ?g = "broadcast \<and> current_iphdr_dest (ip_data s) = IPADDR_BROADCAST"
  show ?thesis
  proof (cases "find ?P us")
    case None
    then have "\<not> ?P b" by (auto simp: Cons split: if_splits)
    moreover have "pick s inp broadcast us = Some b" using None by (cases ?g) (simp_all add: pick_def Cons)
    moreover have "pick s inp broadcast (us @ [a]) = Some (if ?g \<and> ?P a then a else b)"
      unfolding pick_def find_snoc None by (simp add: Cons)
    ultimately show ?thesis by auto
  next
    case (Some u)
    then have "?P u" using find_SomeD by fast
    moreover have "pick s inp broadcast us = Some (if ?g then u else b)" unfolding pick_def Some by (simp add: Cons)
    moreover have "pick s inp broadcast (us @ [a]) = Some (if ?g then u else b)"
      unfolding pick_def find_snoc Some by (simp add: Cons)
    ultimately show ?thesis by auto
  qed
qed (simp add: pick_def)

lemma local_match_run:
  assumes "netifs s inp \<noteq> None" and "current_input_netif (ip_data s) = Some nif" and "netifs s nif \<noteq> None"
  shows "(if local_port c = dest then udp_input_local_match s c inp broadcast else ret False) =
    ret (local_match s inp broadcast dest c)"
  using assms by (auto simp: udp_input_local_match_def local_match_def ip4_addr_isany_val_def Let_def)

lemma udp_search_run:
  assumes "netifs s inp \<noteq> None" and "current_input_netif (ip_data s) = Some nif" and "netifs s nif \<noteq> None"
    and "\<forall>a \<in> set as \<union> set us. udp_pcb_map (udp s) a \<noteq> None" and "distinct as"
  shows "\<exists>prev' u'. udp_search s inp broadcast src dest as prev (pick s inp broadcast us) =
      ret (find (full_match s inp broadcast src dest) as, prev', u') \<and>
    (find (full_match s inp broadcast src dest) as = None \<longrightarrow>
       u' = pick s inp broadcast (us @ fallbacks s inp broadcast dest as)) \<and>
    (\<forall>a. find (full_match s inp broadcast src dest) as = Some a \<longrightarrow> (prev' = None \<longleftrightarrow> prev = None \<and> a = hd as))"
  using assms(4,5)
proof (induction as arbitrary: prev us)
  case Nil
  then show ?case by (simp add: fallbacks_def)
next
  case (Cons a as)
  obtain c where c: "udp_pcb_map (udp s) a = Some c" using Cons.prems by auto
  obtain n where n: "netifs s inp = Some n" using assms(1) by blast
  note lm = local_match_run [OF assms(1-3)]
  have fm: "full_match s inp broadcast src dest a \<longleftrightarrow> local_match s inp broadcast dest c \<and> remote_match s src c"
    by (simp add: full_match_def c)
  have later: "b \<noteq> a" if "find (full_match s inp broadcast src dest) as = Some b" for b
    using find_SomeD [OF that] Cons.prems(2) by auto
  show ?case
  proof (cases "local_match s inp broadcast dest c")
    case False
    then have "fallbacks s inp broadcast dest (a # as) = fallbacks s inp broadcast dest as"
      by (simp add: fallbacks_def c)
    with Cons.IH [of us "Some a"] Cons.prems c lm False fm show ?thesis by (auto dest: later)
  next
    case True
    define us1 where "us1 = (if udp_flags c AND UDP_FLAGS_CONNECTED = 0 then us @ [a] else us)"
    have step: "(if udp_flags c AND UDP_FLAGS_CONNECTED = 0 then
            (case pick s inp broadcast us of
               None \<Rightarrow> ret (Some a)
             | Some u \<Rightarrow>
                 if broadcast \<and> current_iphdr_dest (ip_data s) = IPADDR_BROADCAST then
                   bindR (udp_at s u) (\<lambda>upcb.
                   bindR (netif_at s (Some inp)) (\<lambda>n.
                   ret (if local_ip upcb \<noteq> ip_addr n \<and> local_ip c = ip_addr n then Some a else pick s inp broadcast us)))
                 else ret (pick s inp broadcast us))
          else ret (pick s inp broadcast us)) = ret (pick s inp broadcast us1)"
    proof (cases "pick s inp broadcast us")
      case (Some u)
      then have "udp_pcb_map (udp s) u \<noteq> None" using pick_in [OF Some] Cons.prems by auto
      then show ?thesis using Some c n by (auto simp: us1_def pick_snoc)
    qed (simp add: us1_def pick_snoc)
    have us1: "\<forall>b \<in> set as \<union> set us1. udp_pcb_map (udp s) b \<noteq> None" using Cons.prems by (auto simp: us1_def)
    have fb: "us @ fallbacks s inp broadcast dest (a # as) = us1 @ fallbacks s inp broadcast dest as"
      using True c by (simp add: fallbacks_def us1_def)
    have run: "udp_search s inp broadcast src dest (a # as) prev (pick s inp broadcast us) =
        (if remote_match s src c then ret (Some a, prev, pick s inp broadcast us1)
         else udp_search s inp broadcast src dest as (Some a) (pick s inp broadcast us1))"
      unfolding udp_search.simps udp_at_Some [OF c] bindR_simps lm step using True
      by (simp add: remote_match_def ip4_addr_isany_val_def)
    show ?thesis
    proof (cases "remote_match s src c")
      case True
      with \<open>local_match s inp broadcast dest c\<close> run show ?thesis by (simp add: fm)
    next
      case False
      with Cons.IH [OF us1, of "Some a"] Cons.prems(2) run show ?thesis unfolding fb by (auto simp: fm dest: later)
    qed
  qed
qed

section \<open>Receiving\<close>

lemma load16_data:
  assumes "readable ps (p # as)" and "k + 2 \<le> unat (len (the (pbufs ps p)))"
    and "take 2 (drop k (data ps (p # as))) = bytes16 v"
  shows "load16 (memory ps) (payload (the (pbufs ps p)) + k) = ret v"
proof -
  let ?b = "the (pbufs ps p)"
  have mp: "mapped (memory ps) (payload ?b + k) 2" using mapped_mono [OF _ assms(2)] assms(1) by simp
  have "take 2 (drop k (data ps (p # as))) = take 2 (drop k (seg ps p))" using assms(2) by simp
  also have "\<dots> = bytes_at (memory ps) (payload ?b + k) 2"
    using assms(2) by (simp add: seg_def drop_bytes_at take_bytes_at)
  finally have "bytes_at (memory ps) (payload ?b + k) 2 = bytes16 v" using assms(3) by simp
  moreover have "ucast (ucast v :: u8) OR push_bit 8 (ucast (ucast (drop_bit 8 v) :: u8)) = v"
    by (rule bit_word_eqI) (auto simp: bit_simps)
  ultimately show ?thesis using mp by (simp add: load16_def mread_eq bytes16_def)
qed

text \<open>A UDP datagram with the given fields of the header.\<close>

definition udp_datagram :: "u16 \<Rightarrow> u16 \<Rightarrow> u16 \<Rightarrow> u16 \<Rightarrow> u8 list \<Rightarrow> u8 list" where
  "udp_datagram src dest ulen chksum xs = be16 src @ be16 dest @ be16 ulen @ be16 chksum @ xs"

text \<open>The checksum of a datagram is absent or that of RFC 768.\<close>

definition udp_valid :: "u32 \<Rightarrow> u32 \<Rightarrow> u16 \<Rightarrow> u8 list \<Rightarrow> bool" where
  "udp_valid src_ip dest_ip chksum xs \<longleftrightarrow>
     chksum = 0 \<or> inet_sum (pseudo_header src_ip dest_ip IP_PROTO_UDP (of_nat (length xs)) @ xs) = 0xffff"

lemma host_sum_ffff: "NOT (host_sum xs) = 0 \<longleftrightarrow> inet_sum xs = 0xffff"
proof -
  have "NOT (host_sum xs) = 0 \<longleftrightarrow> host_sum xs = 0xffff"
    by (simp add: word_unat_eq_iff unat_NOT) (use unat_u16_less [of "host_sum xs"] in linarith)
  also have "\<dots> \<longleftrightarrow> lwip_htons (host_sum xs) = 0xffff"
  proof -
    have "lwip_htons 0xffff = 0xffff" by (simp add: lwip_htons_def)
    then show ?thesis by (metis htons_invol)
  qed
  also have "\<dots> \<longleftrightarrow> inet_sum xs = 0xffff"
    by (simp add: host_sum_def word_unat_eq_iff unat_inet_sum)
  finally show ?thesis .
qed

text \<open>What \<open>udp_input\<close> relies on: the list is sound, and the current and the incoming interface exist.\<close>

definition input_ok :: "'w lwip \<Rightarrow> nat \<Rightarrow> bool" where
  "input_ok s inp \<longleftrightarrow> distinct (udp_pcbs (udp s)) \<and> (\<forall>a \<in> set (udp_pcbs (udp s)). udp_pcb_map (udp s) a \<noteq> None) \<and>
     netifs s inp \<noteq> None \<and>
     (\<exists>nif. current_input_netif (ip_data s) = Some nif \<and> netifs s nif \<noteq> None) \<and>
     (\<exists>nif. current_netif (ip_data s) = Some nif \<and> netifs s nif \<noteq> None)"

definition is_broadcast :: "'w lwip \<Rightarrow> bool" where
  "is_broadcast s \<longleftrightarrow>
     ip4_addr_isbroadcast_u32 (current_iphdr_dest (ip_data s)) (the (netifs s (the (current_netif (ip_data s)))))"

text \<open>Only the order of the PCB list and the counters of UDP differ; a PCB that matched fully is in front.\<close>

definition reordered :: "'w lwip \<Rightarrow> nat option \<Rightarrow> 'w lwip \<Rightarrow> bool" where
  "reordered s found s1 \<longleftrightarrow> (\<exists>as st. s1 = s\<lparr>udp := (udp s)\<lparr>udp_pcbs := as, udp_stats := st\<rparr>\<rparr> \<and>
     mset as = mset (udp_pcbs (udp s)) \<and> (\<forall>a. found = Some a \<longrightarrow> as \<noteq> [] \<and> hd as = a))"

lemma stats_inc_udp [simp]:
  "udp_pcbs (udp (udp_stats_inc f s)) = udp_pcbs (udp s)" "udp_pcb_map (udp (udp_stats_inc f s)) = udp_pcb_map (udp s)"
  "netifs (udp_stats_inc f s) = netifs s" "ip_data (udp_stats_inc f s) = ip_data s" "eps (udp_stats_inc f s) = eps s"
  by (simp_all add: udp_stats_inc_def)

lemma demux_stats_inc [simp]:
  "full_match (udp_stats_inc f s) = full_match s" "pick (udp_stats_inc f s) = pick s"
  "fallbacks (udp_stats_inc f s) = fallbacks s" "demux (udp_stats_inc f s) = demux s"
proof -
  show 1: "full_match (udp_stats_inc f s) = full_match s" "pick (udp_stats_inc f s) = pick s"
    "fallbacks (udp_stats_inc f s) = fallbacks s"
    by (intro ext; simp add: full_match_def pick_def fallbacks_def local_match_def remote_match_def)+
  show "demux (udp_stats_inc f s) = demux s" unfolding demux_def 1 stats_inc_udp ..
qed

lemma reorderedI:
  "s1 = s\<lparr>udp := (udp s)\<lparr>udp_pcbs := as, udp_stats := st\<rparr>\<rparr> \<Longrightarrow> mset as = mset (udp_pcbs (udp s)) \<Longrightarrow>
    (\<And>a. found = Some a \<Longrightarrow> as \<noteq> [] \<and> hd as = a) \<Longrightarrow> reordered s found s1"
  unfolding reordered_def by blast

lemma reordered_stats_inc:
  assumes "reordered s found s1"
  shows "reordered s found (udp_stats_inc f s1)"
proof -
  obtain as st where 1: "s1 = s\<lparr>udp := (udp s)\<lparr>udp_pcbs := as, udp_stats := st\<rparr>\<rparr>" "mset as = mset (udp_pcbs (udp s))"
    "\<forall>a. found = Some a \<longrightarrow> as \<noteq> [] \<and> hd as = a"
    using assms unfolding reordered_def by (elim exE conjE)
  have "udp_stats_inc f s1 = s\<lparr>udp := (udp s)\<lparr>udp_pcbs := as, udp_stats := f (\<lambda>c. c + 1) st\<rparr>\<rparr>"
    by (simp add: 1(1) udp_stats_inc_def)
  then show ?thesis using 1(2,3) by (intro reorderedI) simp_all
qed

lemma udp_pcbs_id: "u\<lparr>udp_pcbs := udp_pcbs u, udp_stats := st\<rparr> = u\<lparr>udp_stats := st\<rparr>"
  by (cases u) simp

lemma stats_inc_same:
  "udp_stats_inc f s = s\<lparr>udp := (udp s)\<lparr>udp_pcbs := udp_pcbs (udp s), udp_stats := f (\<lambda>c. c + 1) (udp_stats (udp s))\<rparr>\<rparr>"
  by (simp only: udp_stats_inc_def udp_pcbs_id)

lemma reordered_eps:
  "reordered s found s1 \<Longrightarrow> eps s1 = eps s \<and> netifs s1 = netifs s \<and> ip_data s1 = ip_data s \<and>
     udp_pcb_map (udp s1) = udp_pcb_map (udp s)"
  by (auto simp: reordered_def)

lemma reordered_front:
  assumes "\<forall>a. found = Some a \<longrightarrow> a \<in> set (udp_pcbs (udp s)) \<and> (prev = None \<longleftrightarrow> a = hd (udp_pcbs (udp s)))"
  shows "reordered s found (case found of
      None \<Rightarrow> udp_stats_inc f s
    | Some a \<Rightarrow> if prev \<noteq> None then (udp_stats_inc f s)\<lparr>udp := (udp (udp_stats_inc f s))\<lparr>udp_pcbs := a # remove1 a (udp_pcbs (udp s))\<rparr>\<rparr>
        else udp_stats_inc g (udp_stats_inc f s))"
proof (cases found)
  case None
  have "reordered s None (udp_stats_inc f s)" by (rule reorderedI [OF stats_inc_same]) simp_all
  with None show ?thesis by simp
next
  case (Some a)
  show ?thesis
  proof (cases "prev = None")
    case True
    with Some assms have "udp_pcbs (udp s) \<noteq> [] \<and> hd (udp_pcbs (udp s)) = a" by (cases "udp_pcbs (udp s)") auto
    then have "reordered s found (udp_stats_inc f s)" using Some by (intro reorderedI [OF stats_inc_same]) auto
    then show ?thesis using True Some reordered_stats_inc by simp
  next
    case False
    have "reordered s found ((udp_stats_inc f s)\<lparr>udp := (udp (udp_stats_inc f s))\<lparr>udp_pcbs := a # remove1 a (udp_pcbs (udp s))\<rparr>\<rparr>)"
      by (rule reorderedI [where as = "a # remove1 a (udp_pcbs (udp s))" and st = "f (\<lambda>c. c + 1) (udp_stats (udp s))"])
        (use Some assms in \<open>simp_all add: udp_stats_inc_def\<close>)
    then show ?thesis using False Some by simp
  qed
qed

text \<open>The search and the verification of the checksum, up to the removal of the header.\<close>

lemma udp_input_start:
  fixes E :: "'w lenv"
  assumes ok: "input_ok s inp"
    and p: "chain (pbufs (eps s)) (Some p) (p # as)" "tot_ok (pbufs (eps s)) (p # as)" "readable (eps s) (p # as)"
      "8 \<le> unat (len (the (pbufs (eps s) p)))" "data (eps s) (p # as) = udp_datagram src dest ulen ck xs"
  defines "pcb \<equiv> demux s inp (is_broadcast s) src dest"
    and "found \<equiv> find (full_match s inp (is_broadcast s) src dest) (udp_pcbs (udp s))"
    and "src_ip \<equiv> current_iphdr_src (ip_data s)" and "dest_ip \<equiv> current_iphdr_dest (ip_data s)"
  shows "\<exists>s1. reordered s found s1 \<and>
    (pcb = None \<longrightarrow> ip_addr (the (netifs s inp)) \<noteq> dest_ip \<longrightarrow> udp_input E s p inp = free_pbuf E s1 p) \<and>
    (\<forall>a. pcb = Some a \<longrightarrow> udp_input E s p inp =
      (if \<not> udp_valid src_ip dest_ip ck (data (eps s) (p # as))
       then free_pbuf E (udp_stats_inc sp_drop_update (udp_stats_inc sp_chkerr_update s1)) p
       else bindR (liftP s1 (pbuf_remove_header (eps s1) (Some p) 8)) (\<lambda>(s2, r).
         bindR (lwip_assert (r = 0)) (\<lambda>_.
         bindR (udp_at s2 a) (\<lambda>c.
         case udp_recv_cb c of
           Some f \<Rightarrow> udp_recv_fn E f (udp_recv_arg c) a p src_ip src s2
         | None \<Rightarrow> free_pbuf E s2 p)))))"
proof -
  obtain nif m where n: "netifs s inp \<noteq> None" "current_input_netif (ip_data s) = Some nif" "netifs s nif \<noteq> None"
    "current_netif (ip_data s) = Some m" "netifs s m \<noteq> None"
    and l: "distinct (udp_pcbs (udp s))" "\<forall>a \<in> set (udp_pcbs (udp s)). udp_pcb_map (udp s) a \<noteq> None"
    using ok unfolding input_ok_def by blast
  obtain b where b: "pbufs (eps s) p = Some b" using p(1) by auto
  let ?s = "udp_stats_inc sp_recv_update s" and ?bc = "is_broadcast s"
  obtain prev' u' where search:
    "udp_search ?s inp ?bc src dest (udp_pcbs (udp s)) None None = ret (found, prev', u')"
    "found = None \<longrightarrow> u' = pick s inp ?bc (fallbacks s inp ?bc dest (udp_pcbs (udp s)))"
    "\<forall>a. found = Some a \<longrightarrow> (prev' = None \<longleftrightarrow> a = hd (udp_pcbs (udp s)))"
    using udp_search_run [of ?s inp nif "udp_pcbs (udp s)" "[]" ?bc src dest None] n(1-3) l
    unfolding found_def by (auto simp del: udp_search.simps)
  have pcb: "(if found = None then u' else found) = pcb"
    using search(2) by (auto simp: pcb_def demux_def found_def [symmetric])
  define s1 where "s1 = (case found of
      None \<Rightarrow> ?s
    | Some a \<Rightarrow> if prev' \<noteq> None then ?s\<lparr>udp := (udp ?s)\<lparr>udp_pcbs := a # remove1 a (udp_pcbs (udp s))\<rparr>\<rparr>
        else udp_stats_inc sp_cachehit_update ?s)"
  have re: "reordered s found s1"
    unfolding s1_def
  proof (rule reordered_front, intro allI impI conjI)
    fix a assume a: "found = Some a"
    then show "a \<in> set (udp_pcbs (udp s))" unfolding found_def using find_SomeD by fast
    show "prev' = None \<longleftrightarrow> a = hd (udp_pcbs (udp s))" using search(3) a by blast
  qed
  note same = reordered_eps [OF re]
  have hdr: "take 2 (drop 0 (data (eps s) (p # as))) = bytes16 (lwip_htons src)"
    "take 2 (drop 2 (data (eps s) (p # as))) = bytes16 (lwip_htons dest)"
    "take 2 (drop 6 (data (eps s) (p # as))) = bytes16 (lwip_htons ck)"
    unfolding p(5) bytes16_htons by (simp_all add: udp_datagram_def be16_def)
  have loads: "load16 (mem s) (payload b) = ret (lwip_htons src)" "load16 (mem s) (payload b + 2) = ret (lwip_htons dest)"
    "load16 (mem s) (payload b + 6) = ret (lwip_htons ck)"
    using load16_data [OF p(3) _ hdr(1)] load16_data [OF p(3) _ hdr(2)] load16_data [OF p(3) _ hdr(3)] p(4) b by simp_all
  have len: "\<not> len b < 8" using p(4) b by (simp add: word_less_nat_alt)
  have "length (data (eps s) (p # as)) = unat (tot_len b)" using p(2) b by simp
  then have "tot_len b = of_nat (length (data (eps s) (p # as)))" by simp
  then have chk: "bindR (ip_chksum_pseudo LWIP_CHKSUM (eps s) (Some p) IP_PROTO_UDP (tot_len b) src_ip dest_ip) (\<lambda>c. ret (c \<noteq> 0)) =
      ret (inet_sum (pseudo_header src_ip dest_ip IP_PROTO_UDP (of_nat (length (data (eps s) (p # as)))) @ data (eps s) (p # as)) \<noteq> 0xffff)"
    using chksum_3.inet_chksum_pseudo_eq [OF p(1,3)] by (simp only: ip_chksum_pseudo_def bindR_simps host_sum_ffff)
  have "lwip_htons 0 = 0" by (simp add: lwip_htons_def)
  then have ck: "lwip_htons ck = 0 \<longleftrightarrow> ck = 0" by (metis htons_invol)
  have valid: "(if lwip_htons ck \<noteq> 0
      then bindR (ip_chksum_pseudo LWIP_CHKSUM (eps s) (Some p) IP_PROTO_UDP (tot_len b) src_ip dest_ip) (\<lambda>c. ret (c \<noteq> 0))
      else ret False) = ret (\<not> udp_valid src_ip dest_ip ck (data (eps s) (p # as)))"
    unfolding chk ck udp_valid_def by simp
  obtain nm ninp where nn: "netifs s m = Some nm" "netifs s inp = Some ninp" using n(1,5) by blast
  have bc: "ip4_addr_isbroadcast_u32 dest_ip nm = ?bc" by (simp add: is_broadcast_def n(4) nn(1) dest_ip_def)
  have at: "netif_at ?s (current_netif (ip_data s)) = ret nm" "netif_at s1 (Some inp) = ret ninp"
    using same by (simp_all add: n(4) nn)
  have len': "(len b < of_nat UDP_HLEN) = False" using len by simp
  note run = udp_input_def [of E s p inp] Let_def stats_inc_udp deref_Some [OF b] bindR_simps len' len [unfolded eq_False [symmetric]] if_False if_True at loads
    htons_invol src_ip_def [symmetric] dest_ip_def [symmetric] bc search(1) prod.case s1_def [symmetric] pcb same valid
  show ?thesis
  proof (intro exI [of _ s1] conjI impI allI re)
    assume "pcb = None" "ip_addr (the (netifs s inp)) \<noteq> dest_ip"
    then have "\<not> (pcb \<noteq> None \<or> ip_addr ninp = dest_ip)" by (simp add: nn)
    then show "udp_input E s p inp = free_pbuf E s1 p" by (simp only: run not_True_eq_False if_True simp_thms)
  next
    fix a assume "pcb = Some a"
    then show "udp_input E s p inp =
      (if \<not> udp_valid src_ip dest_ip ck (data (eps s) (p # as))
       then free_pbuf E (udp_stats_inc sp_drop_update (udp_stats_inc sp_chkerr_update s1)) p
       else bindR (liftP s1 (pbuf_remove_header (eps s1) (Some p) 8)) (\<lambda>(s2, r).
         bindR (lwip_assert (r = 0)) (\<lambda>_.
         bindR (udp_at s2 a) (\<lambda>c.
         case udp_recv_cb c of
           Some f \<Rightarrow> udp_recv_fn E f (udp_recv_arg c) a p src_ip src s2
         | None \<Rightarrow> free_pbuf E s2 p))))"
      by (simp only: run option.case option.distinct simp_thms if_False of_nat_numeral)
  qed
qed

section \<open>Properties\<close>


text \<open>An example: a PCB bound to port 515, and a datagram to it without and with a wrong checksum.\<close>

definition ex_rx :: "u8 \<Rightarrow> wire lwip" where
  "ex_rx c = ex_lwip\<lparr>
     eps := ex_heap\<lparr>memory := (memory ex_heap)(7064 \<mapsto> 0, 7065 \<mapsto> c)\<rparr>,
     ip_data := \<lparr>current_netif = Some 100, current_input_netif = Some 100, current_ip4_header = None,
       current_ip_header_tot_len = 20, current_iphdr_src = 0x0901A8C0, current_iphdr_dest = 0x0201A8C0\<rparr>,
     udp := ex_udp\<lparr>udp_pcbs := [5000], udp_pcb_map := [5000 \<mapsto> \<lparr>local_ip = 0, remote_ip = 0, netif_idx = 0, so_options = 0,
       pcb_tos = 0, pcb_ttl = 255, udp_flags = 0, local_port = 515, remote_port = 0, udp_recv_cb = Some 4,
       udp_recv_arg = 0\<rparr>]\<rparr>\<rparr>"

abbreviation (input) ex_rx_payload :: "u8 list" where
  "ex_rx_payload \<equiv> [8, 9, 10, 11, 12, 13, 14, 15, 16, 17, 18, 19]"

lemma ex_rx_ok:
  "input_ok (ex_rx c) 100" "chain (pbufs (eps (ex_rx c))) (Some 7000) [7000]" "tot_ok (pbufs (eps (ex_rx c))) [7000]"
  "readable (eps (ex_rx c)) [7000]" "8 \<le> unat (len (the (pbufs (eps (ex_rx c)) 7000)))"
  by (simp_all add: input_ok_def ex_rx_def ex_lwip_def ex_heap_def ex_udp_def mapped_def)

lemma ex_rx_data: "data (eps (ex_rx c)) [7000] = udp_datagram 1 515 0x0405 (ucast c) ex_rx_payload"
proof -
  have "ucast (drop_bit 8 (ucast c :: u16)) = (0 :: u8)"
    by (rule bit_word_eqI) (auto simp: bit_simps dest: bit_imp_le_length)
  moreover have "ucast (ucast c :: u16) = c" by (rule bit_word_eqI) (auto simp: bit_simps)
  ultimately show ?thesis by (simp add: ex_rx_def ex_heap_def seg_def bytes_at_def upt_rec udp_datagram_def be16_def)
qed

lemma ex_rx_demux: "demux (ex_rx c) 100 (is_broadcast (ex_rx c)) 1 515 = Some 5000"
  by (simp add: demux_def pick_def fallbacks_def full_match_def local_match_def remote_match_def ex_rx_def)

lemma ex_rx_pseudo_header:
  "pseudo_header 0x0901A8C0 0x0201A8C0 17 20 = [192, 168, 1, 9, 192, 168, 1, 2, 0, 17, 0, 20]"
  by code_simp


end
