(* ===== verification/Ip_Send.thy ===== *)
theory Ip_Send
  imports Udp_Input
begin

text \<open>
  What UDP and IPv4 put on the wire. Each layer prepends its header to the payload of the packet; the lemmas follow
  a datagram from \<open>udp_sendto_if_src\<close> through \<open>ip4_output_if_src\<close> and \<open>etharp_output\<close> to the driver, and show that both
  checksums verify.
\<close>

unbundle bit_operations_syntax

section \<open>Room for several headers\<close>

lemma pbuf_add_header_run:
  assumes "pbufs s p = Some b"
  shows "pbuf_add_header s (Some p) 20 =
      (if header_fits s p 20
       then ret (upd s p (b\<lparr>payload := payload b - 20, len := len b + 20, tot_len := tot_len b + 20\<rparr>), 0)
       else ret (s, 1))"
    and "pbuf_add_header s (Some p) 8 =
      (if header_fits s p 8
       then ret (upd s p (b\<lparr>payload := payload b - 8, len := len b + 8, tot_len := tot_len b + 8\<rparr>), 0)
       else ret (s, 1))"
proof -
  have "(20 + tot_len b < 20) = (\<not> unat (tot_len b) + 20 < 65536)" "(8 + tot_len b < 8) = (\<not> unat (tot_len b) + 8 < 65536)"
    using unat_u16_less [of "tot_len b"]
    by (simp_all add: word_less_nat_alt unat_word_ariths mod_if del: unat_u16_less) linarith+
  then show "pbuf_add_header s (Some p) 20 =
      (if header_fits s p 20
       then ret (upd s p (b\<lparr>payload := payload b - 20, len := len b + 20, tot_len := tot_len b + 20\<rparr>), 0)
       else ret (s, 1))"
    "pbuf_add_header s (Some p) 8 =
      (if header_fits s p 8
       then ret (upd s p (b\<lparr>payload := payload b - 8, len := len b + 8, tot_len := tot_len b + 8\<rparr>), 0)
       else ret (s, 1))"
    using assms by (auto simp: pbuf_add_header_def pbuf_add_header_impl_def header_fits_def Let_def not_less)
qed

text \<open>A pbuf at the front of a well-formed chain with room for \<open>k\<close> bytes of headers.\<close>

definition sendable :: "pstate \<Rightarrow> nat \<Rightarrow> nat list \<Rightarrow> nat \<Rightarrow> bool" where
  "sendable ps p as k \<longleftrightarrow> chain (pbufs ps) (Some p) (p # as) \<and> tot_ok (pbufs ps) (p # as) \<and> readable ps (p # as) \<and>
     header_fits ps p k \<and> header_room ps p as k"

lemma header_fits_le: "header_fits ps p k \<Longrightarrow> k \<le> payload (the (pbufs ps p))"
  unfolding header_fits_def Let_def by linarith

lemma sendable_less:
  assumes "sendable ps p as k" and "j \<le> k"
  shows "sendable ps p as j"
proof -
  let ?b = "the (pbufs ps p)"
  have k: "header_fits ps p k" "mapped (memory ps) (payload ?b - k) k"
    "\<forall>x \<in> set as. apart (payload ?b - k) k (payload (the (pbufs ps x))) (unat (len (the (pbufs ps x))))"
    using assms(1) by (simp_all add: sendable_def header_room_def)
  have e: "payload ?b - j = payload ?b - k + (k - j)" "k - j + j \<le> k"
    using assms(2) header_fits_le [OF k(1)] by simp_all
  have "header_fits ps p j" using k(1) assms(2) by (auto simp: header_fits_def Let_def)
  moreover have "mapped (memory ps) (payload ?b - j) j" unfolding e(1) by (rule mapped_mono [OF k(2) e(2)])
  moreover have "\<forall>x \<in> set as. apart (payload ?b - j) j (payload (the (pbufs ps x))) (unat (len (the (pbufs ps x))))"
    unfolding e(1) using apart_sub [OF _ e(2)] k(3) by blast
  ultimately show ?thesis using assms(1) by (simp add: sendable_def header_room_def)
qed

lemma sendable_with_header:
  assumes "sendable ps p as (length h + k)"
  shows "sendable (with_header ps p h) p as k"
    and "data (with_header ps p h) (p # as) = h @ data ps (p # as)"
proof -
  let ?b = "the (pbufs ps p)" and ?t = "with_header ps p h" and ?l = "length h"
  note less = sendable_less [OF assms, of ?l, unfolded sendable_def]
  have now: "header_fits ps p ?l" "header_room ps p as ?l" "chain (pbufs ps) (Some p) (p # as)" "tot_ok (pbufs ps) (p # as)"
    "readable ps (p # as)"
    using less by simp_all
  note dw = data_with_header [OF now(3,4,1,2,5)]
  show "data ?t (p # as) = h @ data ps (p # as)" by (rule dw(3))
  have p: "p \<notin> set as" using chain_distinct [OF now(3)] by simp
  have fits: "header_fits ps p (?l + k)" "header_room ps p as (?l + k)" using assms by (simp_all add: sendable_def)
  have b: "pbufs ?t p = Some (?b\<lparr>payload := payload ?b - ?l, len := len ?b + of_nat ?l, tot_len := tot_len ?b + of_nat ?l\<rparr>)"
    "\<And>x. x \<noteq> p \<Longrightarrow> pbufs ?t x = pbufs ps x" "memory ?t = put_bytes (memory ps) (payload ?b - ?l) h"
    by (simp_all add: with_header_def Let_def)
  have tot: "unat (tot_len ?b) + (?l + k) < 65536" using fits(1) by (simp add: header_fits_def Let_def)
  then have "unat (tot_len ?b + of_nat ?l) = unat (tot_len ?b) + ?l" by (simp add: unat_word_ariths unat_of_nat)
  with fits(1) tot have f: "header_fits ?t p k" by (simp add: header_fits_def Let_def b(1))
  have e: "payload ?b - ?l - k = payload ?b - (?l + k) + 0"
    using header_fits_le [OF fits(1)] by simp
  have m: "mapped (memory ps) (payload ?b - (?l + k)) (?l + k)"
    "\<forall>x \<in> set as. apart (payload ?b - (?l + k)) (?l + k) (payload (the (pbufs ps x))) (unat (len (the (pbufs ps x))))"
    using fits by (simp_all add: header_room_def)
  have "mapped (memory ps) (payload ?b - ?l - k) k" unfolding e by (rule mapped_mono [OF m(1)]) simp
  moreover have "apart (payload ?b - ?l - k) k (payload (the (pbufs ?t x))) (unat (len (the (pbufs ?t x))))" if "x \<in> set as" for x
  proof -
    have "x \<noteq> p" using that p by blast
    then show ?thesis using apart_sub [OF bspec [OF m(2) that], of 0 k] unfolding e b(2) [OF \<open>x \<noteq> p\<close>] by simp
  qed
  ultimately have "header_room ?t p as k" by (simp add: header_room_def b(1,3) mapped_put_bytesI)
  with dw(1,2,4) f show "sendable ?t p as k" by (simp add: sendable_def)
qed

section \<open>The header of IPv4\<close>

text \<open>The header of RFC 791 without options and fragmentation; \<open>ck\<close> is in host order.\<close>

definition ip4_header :: "u8 \<Rightarrow> u16 \<Rightarrow> u16 \<Rightarrow> u8 \<Rightarrow> u8 \<Rightarrow> u16 \<Rightarrow> u32 \<Rightarrow> u32 \<Rightarrow> u8 list" where
  "ip4_header tos tlen ident ttl proto ck src dest =
     [0x45, tos] @ be16 tlen @ be16 ident @ [0, 0, ttl, proto] @ bytes16 ck @ bytes32 src @ bytes32 dest"

lemma length_ip4_header [simp]: "length (ip4_header tos tlen ident ttl proto ck src dest) = 20"
  by (simp add: ip4_header_def be16_def bytes16_def bytes32_def)

text \<open>The sum that \<open>ip4_output_if_src\<close> computes while it writes the header.\<close>

definition header_sum :: "u8 \<Rightarrow> u16 \<Rightarrow> u16 \<Rightarrow> u8 \<Rightarrow> u8 \<Rightarrow> u32 \<Rightarrow> u32 \<Rightarrow> u32" where
  "header_sum tos tlen ident ttl proto src dest =
     ucast (lwip_htons (ucast proto OR push_bit 8 (ucast ttl))) + (dest AND 0xFFFF) + drop_bit 16 dest +
     ucast (lwip_htons (ucast tos OR push_bit 8 (ucast (0x45 :: u8)))) + ucast (lwip_htons tlen) + ucast (lwip_htons ident) +
     (src AND 0xFFFF) + drop_bit 16 src"

definition header_chksum :: "u8 \<Rightarrow> u16 \<Rightarrow> u16 \<Rightarrow> u8 \<Rightarrow> u8 \<Rightarrow> u32 \<Rightarrow> u32 \<Rightarrow> u16" where
  "header_chksum tos tlen ident ttl proto src dest =
     ucast (NOT (let c = header_sum tos tlen ident ttl proto src dest; c1 = drop_bit 16 c + (c AND 0xFFFF) in drop_bit 16 c1 + c1))"

lemma htons_pair: "unat (lwip_htons (ucast (l :: u8) OR push_bit 8 (ucast (h :: u8)))) = le16 h l"
proof -
  have "lwip_htons (ucast l OR push_bit 8 (ucast h)) = (ucast h :: u16) OR push_bit 8 (ucast l)"
    unfolding lwip_htons_def mask_consts by (rule bit_word_eqI) (auto simp: bit_simps dest: bit_imp_le_length)
  then show ?thesis by (simp only: unat_or_push16)
qed

lemma be16_le_sum: "unat (lwip_htons v) = le_sum (be16 v)"
  using le_sum_u16 [of "lwip_htons v"] by (simp add: bytes16_htons [unfolded bytes16_def])

lemma halves_sum:
  fixes d :: u32
  shows "unat (d AND 0xFFFF) + unat (drop_bit 16 d) = le_sum (bytes32 d)"
    and "unat (d AND 0xFFFF) \<le> 65535" and "unat (drop_bit 16 d) \<le> 65535"
proof -
  have hi: "drop_bit 16 d = drop_bit 16 d AND 0xFFFF"
    unfolding mask_consts by (rule bit_word_eqI) (auto simp: bit_simps dest: bit_imp_le_length)
  have u: "unat (d AND 0xFFFF) = le16 (ucast d) (ucast (drop_bit 8 d))"
    "unat (drop_bit 16 d) = le16 (ucast (drop_bit 16 d)) (ucast (drop_bit 24 d))"
    by (rule unat_lo_hi) (subst hi, rule unat_lo_hi)
  have le: "le16 x y \<le> 65535" for x y using le16_less [of x y] by linarith
  show "unat (d AND 0xFFFF) + unat (drop_bit 16 d) = le_sum (bytes32 d)" by (simp add: u bytes32_def)
  show "unat (d AND 0xFFFF) \<le> 65535" "unat (drop_bit 16 d) \<le> 65535"
    unfolding u by (rule le)+
qed

lemma header_sum_unat:
  "unat (header_sum tos tlen ident ttl proto src dest) = le_sum (ip4_header tos tlen ident ttl proto 0 src dest)"
  "unat (header_sum tos tlen ident ttl proto src dest) \<le> 8 * 65535"
proof -
  have up: "unat (ucast x :: u32) = unat x" "unat x \<le> 65535" for x :: u16
    using unat_u16_less [of x] by (simp_all add: unsigned_ucast_eq take_bit_nat_eq_self del: unat_u16_less)
  note bounds = up(2) [of "lwip_htons (ucast proto OR push_bit 8 (ucast ttl))"] up(2) [of "lwip_htons tlen"]
    up(2) [of "lwip_htons (ucast tos OR push_bit 8 (ucast (0x45 :: u8)))"] up(2) [of "lwip_htons ident"]
    halves_sum(2,3) [of src] halves_sum(2,3) [of dest]
  have eq: "unat (header_sum tos tlen ident ttl proto src dest) =
      le16 ttl proto + unat (dest AND 0xFFFF) + unat (drop_bit 16 dest) + le16 0x45 tos + le_sum (be16 tlen) + le_sum (be16 ident) +
      unat (src AND 0xFFFF) + unat (drop_bit 16 src)"
    unfolding header_sum_def htons_pair [symmetric] be16_le_sum [symmetric] using bounds
    by (simp add: unat_word_ariths up(1))
  have "le_sum (ip4_header tos tlen ident ttl proto 0 src dest) =
      le16 0x45 tos + le_sum (be16 tlen) + le_sum (be16 ident) + le16 ttl proto + le_sum (bytes32 src) + le_sum (bytes32 dest)"
    by (simp add: ip4_header_def be16_def bytes16_def bytes32_def le16_def)
  then show "unat (header_sum tos tlen ident ttl proto src dest) = le_sum (ip4_header tos tlen ident ttl proto 0 src dest)"
    unfolding eq halves_sum(1) [symmetric] by simp
  show "unat (header_sum tos tlen ident ttl proto src dest) \<le> 8 * 65535"
    unfolding eq unfolding htons_pair [symmetric] be16_le_sum [symmetric] using bounds by linarith
qed

lemma header_chksum_eq:
  "header_chksum tos tlen ident ttl proto src dest = NOT (host_sum (ip4_header tos tlen ident ttl proto 0 src dest))"
proof -
  define c where "c = header_sum tos tlen ident ttl proto src dest"
  define c1 where "c1 = FOLD_U32T c"
  have "unat c \<le> 8 * 65535" unfolding c_def by (rule header_sum_unat)
  then have "unat c1 \<le> 131070" unfolding c1_def unat_FOLD by linarith
  then have fold: "unat (FOLD_U32T c1) \<le> 65535" "unat (drop_bit 16 c1 + c1) = unat c1 div 65536 + unat c1"
    by (simp_all add: FOLD_le unat_word_ariths drop_bit_eq_div unat_div)
  have "unat (ucast (drop_bit 16 c1 + c1) :: u16) = (unat c1 div 65536 + unat c1) mod 65536"
    by (simp add: unsigned_ucast_eq unsigned_take_bit_eq take_bit_eq_mod fold(2))
  also have "\<dots> = unat (FOLD_U32T c1) mod 65536" unfolding unat_FOLD by (simp add: mod_add_right_eq)
  also have "\<dots> = unat (FOLD_U32T (FOLD_U32T c))" using fold(1) by (simp add: c1_def)
  finally have "rep (unat (ucast (drop_bit 16 c1 + c1) :: u16)) (unat c)" using rep_FOLD_FOLD [of c] by simp
  then have "ucast (drop_bit 16 c1 + c1) = host_sum (ip4_header tos tlen ident ttl proto 0 src dest)"
    by (intro host_sum_eqI) (simp add: c_def header_sum_unat(1))
  moreover have "header_chksum tos tlen ident ttl proto src dest = NOT (ucast (drop_bit 16 c1 + c1))"
    unfolding header_chksum_def Let_def c_def [symmetric] c1_def FOLD_U32T_def
    by (rule bit_word_eqI) (auto simp: bit_simps)
  ultimately show ?thesis by simp
qed

lemma ip4_header_verifies:
  "inet_sum (ip4_header tos tlen ident ttl proto (header_chksum tos tlen ident ttl proto src dest) src dest) = 0xffff"
proof -
  let ?xs = "[0x45, tos] @ be16 tlen @ be16 ident @ [0, 0, ttl, proto]" and ?ys = "bytes32 src @ bytes32 dest"
  have split: "ip4_header tos tlen ident ttl proto ck src dest = ?xs @ [ucast ck, ucast (drop_bit 8 ck)] @ ?ys" for ck
    by (simp add: ip4_header_def bytes16_def)
  have "host_sum (ip4_header tos tlen ident ttl proto (header_chksum tos tlen ident ttl proto src dest) src dest) = 0xffff"
    (is "host_sum (ip4_header _ _ _ _ _ ?ck _ _) = _")
    unfolding split [of ?ck]
  proof (rule host_sum_complement)
    show "even (length ?xs)" by (simp add: be16_def)
    have "ip4_header tos tlen ident ttl proto 0 src dest = ?xs @ [0, 0] @ ?ys" by (simp add: split)
    then show "?ck = NOT (host_sum (?xs @ [0, 0] @ ?ys))" by (simp only: header_chksum_eq)
  qed
  then have "NOT (host_sum (ip4_header tos tlen ident ttl proto ?ck src dest)) = 0" by (simp only:) simp
  then show ?thesis by (simp only: host_sum_ffff)
qed

text \<open>The writes to the fields of a header fill all of it.\<close>

lemma header_puts:
  "put_bytes (put_bytes (put_bytes (put_bytes (put_bytes (put_bytes (put_bytes (put_bytes (put_bytes (put_bytes m
     (a + 8) [h8]) (a + 9) [h9]) (a + 16) [h16, h17, h18, h19]) a [h0]) (a + 1) [h1]) (a + 2) [h2, h3]) (a + 6) [h6, h7])
     (a + 4) [h4, h5]) (a + 12) [h12, h13, h14, h15]) (a + 10) [h10, h11] =
   put_bytes m a [h0, h1, h2, h3, h4, h5, h6, h7, h8, h9, h10, h11, h12, h13, h14, h15, h16, h17, h18, h19]"
  by (rule ext) (simp add: put_bytes_Cons fun_upd_apply)

lemma store_all_Cons:
  "mapped (mem s) a (length xs) \<Longrightarrow>
    store_all s ((a, xs) # ws) = store_all (s\<lparr>eps := (eps s)\<lparr>memory := put_bytes (mem s) a xs\<rparr>\<rparr>) ws"
  by simp

lemma store_ip4_header:
  assumes "mapped (mem s) a 20"
  shows "store_all s
      [(a + 8, [ttl]), (a + 9, [proto]), (a + 16, bytes32 d), (a, [0x45]), (a + 1, [tos]), (a + 2, bytes16 (lwip_htons tlen)),
       (a + 6, bytes16 0), (a + 4, bytes16 (lwip_htons ident)), (a + 12, bytes32 sr), (a + 10, bytes16 ck)] =
    ret (s\<lparr>eps := (eps s)\<lparr>memory := put_bytes (mem s) a (ip4_header tos tlen ident ttl proto ck sr d)\<rparr>\<rparr>)"
proof -
  have m: "mapped (mem s) (a + i) j" if "i + j \<le> 20" for i j using mapped_mono [OF assms that] .
  note mm = m m [of 0 1, simplified] m [of 1 1, simplified] m [of 2 2, simplified]
  have l: "length (bytes16 v) = 2" "length (bytes32 w) = 4" "length [x] = 1" for v w and x :: u8
    by (simp_all add: bytes16_def bytes32_def)
  have "store_all s
      [(a + 8, [ttl]), (a + 9, [proto]), (a + 16, bytes32 d), (a, [0x45]), (a + 1, [tos]), (a + 2, bytes16 (lwip_htons tlen)),
       (a + 6, bytes16 0), (a + 4, bytes16 (lwip_htons ident)), (a + 12, bytes32 sr), (a + 10, bytes16 ck)] =
    ret (s\<lparr>eps := (eps s)\<lparr>memory := put_bytes (put_bytes (put_bytes (put_bytes (put_bytes (put_bytes (put_bytes (put_bytes
     (put_bytes (put_bytes (mem s) (a + 8) [ttl]) (a + 9) [proto]) (a + 16) (bytes32 d)) a [0x45]) (a + 1) [tos])
     (a + 2) (bytes16 (lwip_htons tlen))) (a + 6) (bytes16 0)) (a + 4) (bytes16 (lwip_htons ident))) (a + 12) (bytes32 sr))
     (a + 10) (bytes16 ck)\<rparr>\<rparr>)"
    by (simp add: mm l mapped_put_bytesI)
  also have "\<dots> = ret (s\<lparr>eps := (eps s)\<lparr>memory := put_bytes (mem s) a (ip4_header tos tlen ident ttl proto ck sr d)\<rparr>\<rparr>)"
    unfolding bytes16_htons unfolding ip4_header_def be16_def bytes16_def bytes32_def header_puts by simp
  finally show ?thesis .
qed

text \<open>What \<open>ip4_output_if_src\<close> hands on: the packet with its header.\<close>

definition with_ip4_header :: "'w lwip \<Rightarrow> nat \<Rightarrow> u8 \<Rightarrow> u8 \<Rightarrow> u8 \<Rightarrow> u32 \<Rightarrow> u32 \<Rightarrow> 'w lwip" where
  "with_ip4_header s p tos ttl proto src dest =
     (let tlen = tot_len (the (pbufs (eps s) p)) + 20; ident = ip_id (ip4 s) in
      ip_stats_inc sp_xmit_update (s\<lparr>
        ip4 := (ip4 s)\<lparr>ip_id := ident + 1\<rparr>,
        eps := with_header (eps s) p (ip4_header tos tlen ident ttl proto (header_chksum tos tlen ident ttl proto src dest) src dest)\<rparr>))"

lemma ip4_output_run:
  assumes "sendable (eps s) p as 20" and "ref (the (pbufs (eps s) p)) = 1" and "netifs s nif = Some n"
  shows "ip4_output_if_src E s p src (Some d) ttl tos proto nif =
    (let s' = with_ip4_header s p tos ttl proto (case src of None \<Rightarrow> 0 | Some a \<Rightarrow> a) d in
     if mtu n \<noteq> 0 \<and> mtu n < tot_len (the (pbufs (eps s) p)) + 20 then ip4_frag E s' p nif d
     else netif_output E s' nif p d)"
proof -
  have snd: "chain (pbufs (eps s)) (Some p) (p # as)" "tot_ok (pbufs (eps s)) (p # as)" "header_fits (eps s) p 20"
    "header_room (eps s) p as 20"
    using assms(1) by (simp_all add: sendable_def)
  obtain b where b: "pbufs (eps s) p = Some b" using snd(1) by auto
  let ?b = "b\<lparr>payload := payload b - 20, len := len b + 20, tot_len := tot_len b + 20\<rparr>"
  let ?sr = "case src of None \<Rightarrow> 0 | Some a \<Rightarrow> a"
  let ?ck = "header_chksum tos (tot_len b + 20) (ip_id (ip4 s)) ttl proto ?sr d"
  let ?h = "ip4_header tos (tot_len b + 20) (ip_id (ip4 s)) ttl proto ?ck ?sr d"
  have tot: "unat (tot_len b) + 20 < 65536" "unat (len b) \<le> unat (tot_len b)"
    using snd(2,3) b by (simp_all add: header_fits_def Let_def)
  then have len: "\<not> len b + 20 < 20" by (simp add: word_less_nat_alt unat_word_ariths)
  have add: "pbuf_add_header (eps s) (Some p) 20 = ret (upd (eps s) p ?b, 0)"
    using pbuf_add_header_run(1) [OF b] snd(3) by simp
  let ?s1 = "s\<lparr>eps := upd (eps s) p ?b, ip4 := (ip4 s)\<lparr>ip_id := ip_id (ip4 s) + 1\<rparr>\<rparr>"
  have "mapped (mem ?s1) (payload b - 20) 20" using snd(3,4) b by (simp add: header_room_def)
  note store = store_ip4_header [OF this, of ttl proto d tos "tot_len b + 20" "ip_id (ip4 s)" ?sr ?ck]
  have wh: "with_header (eps s) p ?h = (upd (eps s) p ?b)\<lparr>memory := put_bytes (mem s) (payload b - 20) ?h\<rparr>"
    by (simp add: with_header_def b Let_def)
  have ck: "ucast (NOT (drop_bit 16 (drop_bit 16 (header_sum tos (tot_len b + 20) (ip_id (ip4 s)) ttl proto ?sr d) +
        (header_sum tos (tot_len b + 20) (ip_id (ip4 s)) ttl proto ?sr d AND 0xFFFF)) +
      (drop_bit 16 (header_sum tos (tot_len b + 20) (ip_id (ip4 s)) ttl proto ?sr d) +
        (header_sum tos (tot_len b + 20) (ip_id (ip4 s)) ttl proto ?sr d AND 0xFFFF)))) = ?ck"
    by (simp add: header_chksum_def Let_def)
  have 20: "(of_nat IP_HLEN :: usize) = 20" "(of_nat IP_HLEN :: u16) = 20" by simp_all
  have d1: "deref (eps (s\<lparr>eps := upd (eps s) p ?b\<rparr>)) (Some p) = ret ?b" by simp
  have flds: "tot_len ?b = tot_len b + 20" "payload ?b = payload b - 20" "len ?b = len b + 20"
    "ip4 (s\<lparr>eps := x\<rparr>) = ip4 s" for x by simp_all
  have len': "(20 \<le> len b + 20) = True" using len by (simp add: not_less)
  have ref: "(ref b = 1) = True" "((0 :: u8) \<noteq> 0) = False" using assms(2) b by simp_all
  let ?s4 = "with_ip4_header s p tos ttl proto ?sr d"
  have s4: "ip_stats_inc sp_xmit_update (?s1\<lparr>eps := (eps ?s1)\<lparr>memory := put_bytes (mem ?s1) (payload b - 20) ?h\<rparr>\<rparr>) = ?s4"
    unfolding with_ip4_header_def b option.sel Let_def wh by simp
  have at: "netif_at ?s4 (Some nif) = ret n" "deref (eps ?s4) (Some p) = ret ?b"
    using assms(3) by (simp_all add: with_ip4_header_def b Let_def ip_stats_inc_def wh)
  show ?thesis
    unfolding ip4_output_if_src_def deref_Some [OF b] bindR_simps lwip_assert_def option.case 20 add liftP_ret prod.case
      d1 Let_def flds len' ref if_True if_False header_sum_def [symmetric] ck store sum.case s4 at b option.sel ..
qed

section \<open>The header of UDP\<close>

lemma not_0_iff: "NOT (h :: u16) = 0 \<longleftrightarrow> h = 0xffff"
  by (simp add: word_unat_eq_iff unat_NOT) (use unat_u16_less [of h] in linarith)

lemma host_sum_ffff_complement:
  assumes "even (length xs)" and "host_sum (xs @ [0, 0] @ ys) = 0xffff"
  shows "host_sum (xs @ [0xff, 0xff] @ ys) = 0xffff"
proof (rule host_sum_eqI [symmetric])
  have "le_sum (xs @ [0xff, 0xff] @ ys) = le_sum (xs @ [0, 0] @ ys) + 65535"
    using assms(1) by (simp add: le_sum_append le16_def)
  moreover have "rep (65535 + 65535) (le_sum (xs @ [0, 0] @ ys) + 65535)"
    using rep_host_sum [of "xs @ [0, 0] @ ys"] unfolding assms(2) by (intro rep_add) simp_all
  moreover have "rep 65535 (65535 + 65535)" by (simp add: rep_def)
  ultimately show "rep (unat (0xffff :: u16)) (le_sum (xs @ [0xff, 0xff] @ ys))" using rep_trans by simp
qed

lemma udp_chksum_verifies:
  assumes "ck = NOT (host_sum (pseudo_header si di proto l @ udp_datagram src dest ulen 0 xs))"
  shows "inet_sum (pseudo_header si di proto l @
    udp_datagram src dest ulen (lwip_htons (if ck = 0 then 0xffff else ck)) xs) = 0xffff"
proof -
  let ?hd = "pseudo_header si di proto l @ be16 src @ be16 dest @ be16 ulen"
  have ev: "even (length ?hd)" by (simp add: pseudo_header_def u32_bytes_def)
  have z: "pseudo_header si di proto l @ udp_datagram src dest ulen 0 xs = ?hd @ [0, 0] @ xs"
    by (simp add: udp_datagram_def be16_def)
  have c: "pseudo_header si di proto l @ udp_datagram src dest ulen (lwip_htons v) xs = ?hd @ [ucast v, ucast (drop_bit 8 v)] @ xs" for v
    using bytes16_htons [of "lwip_htons v"] by (simp add: udp_datagram_def bytes16_def)
  have "host_sum (pseudo_header si di proto l @
      udp_datagram src dest ulen (lwip_htons (if ck = 0 then 0xffff else ck)) xs) = 0xffff"
  proof (cases "ck = 0")
    case True
    then have "host_sum (?hd @ [0, 0] @ xs) = 0xffff" using assms unfolding z by (simp only: not_0_iff [symmetric])
    moreover have "(ucast (0xffff :: u16) :: u8) = 0xff" "(ucast (drop_bit 8 (0xffff :: u16)) :: u8) = 0xff" by code_simp+
    ultimately show ?thesis using host_sum_ffff_complement [OF ev] True unfolding c by (simp only: simp_thms if_True)
  next
    case False
    then show ?thesis using host_sum_complement [OF ev, of ck xs] assms unfolding z c by simp
  qed
  then have "NOT (host_sum (pseudo_header si di proto l @
      udp_datagram src dest ulen (lwip_htons (if ck = 0 then 0xffff else ck)) xs)) = 0" by (simp only:) simp
  then show ?thesis by (simp only: host_sum_ffff)
qed

lemma store_udp_header:
  assumes "mapped (mem s) a 8"
  shows "store_all s [(a, bytes16 (lwip_htons src)), (a + 2, bytes16 (lwip_htons dest)), (a + 6, bytes16 0),
      (a + 4, bytes16 (lwip_htons ulen))] =
    ret (s\<lparr>eps := (eps s)\<lparr>memory := put_bytes (mem s) a (udp_datagram src dest ulen 0 [])\<rparr>\<rparr>)"
proof -
  have m: "mapped (mem s) (a + i) j" if "i + j \<le> 8" for i j using mapped_mono [OF assms that] .
  note mm = m m [of 0 2, simplified] m [of 1 1, simplified] m [of 2 2, simplified]
  have "store_all s [(a, bytes16 (lwip_htons src)), (a + 2, bytes16 (lwip_htons dest)), (a + 6, bytes16 0),
      (a + 4, bytes16 (lwip_htons ulen))] =
    ret (s\<lparr>eps := (eps s)\<lparr>memory := put_bytes (put_bytes (put_bytes (put_bytes (mem s) a (be16 src)) (a + 2) (be16 dest))
      (a + 6) (bytes16 0)) (a + 4) (be16 ulen)\<rparr>\<rparr>)"
    by (simp add: mm mapped_put_bytesI)
  moreover have "put_bytes (put_bytes (put_bytes (put_bytes m a (be16 src)) (a + 2) (be16 dest)) (a + 6) (bytes16 0)) (a + 4) (be16 ulen) =
      put_bytes m a (udp_datagram src dest ulen 0 [])" for m
    by (rule ext) (simp add: udp_datagram_def be16_def bytes16_def put_bytes_Cons fun_upd_apply)
  ultimately show ?thesis by simp
qed

lemma store_udp_chksum:
  "put_bytes (put_bytes m a (udp_datagram src dest ulen 0 [])) (a + 6) (bytes16 ck) =
     put_bytes m a (udp_datagram src dest ulen (lwip_htons ck) [])"
  using bytes16_htons [of "lwip_htons ck", symmetric]
  by (intro ext) (simp add: udp_datagram_def be16_def bytes16_def put_bytes_Cons fun_upd_apply)

lemma udp_datagram_append: "udp_datagram src dest ulen ck xs = udp_datagram src dest ulen ck [] @ xs"
  by (simp add: udp_datagram_def)

text \<open>The checksum that \<open>udp_sendto_if_src\<close> puts into a datagram, in network order.\<close>

definition udp_chksum :: "u32 \<Rightarrow> u32 \<Rightarrow> u16 \<Rightarrow> u16 \<Rightarrow> u16 \<Rightarrow> u8 list \<Rightarrow> u16" where
  "udp_chksum si di src dest ulen xs =
     (let ck = NOT (host_sum (pseudo_header si di IP_PROTO_UDP ulen @ udp_datagram src dest ulen 0 xs)) in
      lwip_htons (if ck = 0 then 0xffff else ck))"

definition with_udp_header :: "'w lwip \<Rightarrow> nat \<Rightarrow> u16 \<Rightarrow> u16 \<Rightarrow> u32 \<Rightarrow> u32 \<Rightarrow> u8 list \<Rightarrow> 'w lwip" where
  "with_udp_header s p src dest si di xs =
     (let ulen = tot_len (the (pbufs (eps s) p)) + 8 in
      s\<lparr>eps := with_header (eps s) p (udp_datagram src dest ulen (udp_chksum si di src dest ulen xs) [])\<rparr>)"

lemma with_header_memory: "length h = length h' \<Longrightarrow>
    (with_header ps p h)\<lparr>memory := put_bytes (memory ps) (payload (the (pbufs ps p)) - length h) h'\<rparr> = with_header ps p h'"
  by (simp add: with_header_def Let_def)

lemma udp_sendto_run:
  assumes "sendable (eps s) p as k" and "8 \<le> k" and "udp_pcb_map (udp s) pcb = Some c" and "local_port c \<noteq> 0"
    and "udp_flags c AND UDP_FLAGS_NOCHKSUM = 0"
  shows "udp_sendto_if_src E s (Some pcb) (Some p) (Some di) port (Some nif) (Some si) =
    bindR (ip4_output_if_src E (with_udp_header s p (local_port c) port si di (data (eps s) (p # as))) p (Some si) (Some di)
      (pcb_ttl c) (pcb_tos c) IP_PROTO_UDP nif) (\<lambda>(s8, err). ret (udp_stats_inc sp_xmit_update s8, err))"
proof -
  have snd: "sendable (eps s) p as (8 + 0)" using sendable_less [OF assms(1,2)] by simp
  then have 8: "chain (pbufs (eps s)) (Some p) (p # as)" "tot_ok (pbufs (eps s)) (p # as)" "header_fits (eps s) p 8"
    "header_room (eps s) p as 8"
    by (simp_all add: sendable_def)
  obtain b where b: "pbufs (eps s) p = Some b" using 8(1) by auto
  let ?b = "b\<lparr>payload := payload b - 8, len := len b + 8, tot_len := tot_len b + 8\<rparr>"
  let ?xs = "data (eps s) (p # as)" and ?l = "tot_len b + 8" and ?sp = "local_port c"
  let ?h = "\<lambda>ck. udp_datagram ?sp port ?l ck []"
  have lh: "length (?h ck) = 8" for ck by (simp add: udp_datagram_def)
  have tot: "unat (tot_len b) + 8 < 65536" "unat (len b) \<le> unat (tot_len b)"
    using 8(2,3) b by (simp_all add: header_fits_def Let_def)
  then have ov: "(tot_len b + 8 < tot_len b) = False" "(8 \<le> len b + 8) = True"
    by (simp_all add: word_less_nat_alt word_le_nat_alt unat_word_ariths)
  have add: "pbuf_add_header (eps s) (Some p) 8 = ret (upd (eps s) p ?b, 0)"
    using pbuf_add_header_run(2) [OF b] 8(3) by simp
  let ?s2 = "s\<lparr>eps := upd (eps s) p ?b\<rparr>"
  have mp: "mapped (mem ?s2) (payload b - 8) 8" using 8(3,4) b by (simp add: header_room_def)
  have wh: "(upd (eps s) p ?b)\<lparr>memory := put_bytes (mem s) (payload b - 8) (?h ck)\<rparr> = with_header (eps s) p (?h ck)" for ck
    by (simp add: with_header_def b Let_def lh)
  have store: "store_all ?s2 [(payload b - 8, bytes16 (lwip_htons ?sp)), (payload b - 8 + 2, bytes16 (lwip_htons port)),
      (payload b - 8 + 6, bytes16 0), (payload b - 8 + 4, bytes16 (lwip_htons ?l))] = ret (s\<lparr>eps := with_header (eps s) p (?h 0)\<rparr>)"
    using store_udp_header [OF mp, of ?sp port ?l] wh [of 0] by simp
  have "sendable (eps s) p as (length (?h 0) + 0)" using snd by (simp only: lh)
  note w = sendable_with_header [OF this]
  have data0: "data (with_header (eps s) p (?h 0)) (p # as) = udp_datagram ?sp port ?l 0 ?xs"
    unfolding w(2) udp_datagram_append [of _ _ _ _ ?xs] ..
  have "ip_chksum_pseudo LWIP_CHKSUM (with_header (eps s) p (?h 0)) (Some p) IP_PROTO_UDP ?l si di =
      ret (NOT (host_sum (pseudo_header si di IP_PROTO_UDP ?l @ udp_datagram ?sp port ?l 0 ?xs)))"
    using chksum_3.inet_chksum_pseudo_eq [of "with_header (eps s) p (?h 0)" "Some p" "p # as"] w(1)
    unfolding sendable_def data0 by (simp only: ip_chksum_pseudo_def)
  note chk = this
  let ?ck = "NOT (host_sum (pseudo_header si di IP_PROTO_UDP ?l @ udp_datagram ?sp port ?l 0 ?xs))"
  have "mapped (memory (with_header (eps s) p (?h 0))) (payload b - 8 + 6) 2"
    using mapped_mono [OF mp, of 6 2] by (simp add: with_header_def Let_def b lh mapped_put_bytesI)
  then have store2: "store_bytes (s\<lparr>eps := with_header (eps s) p (?h 0)\<rparr>) (payload b - 8 + 6) (bytes16 (if ?ck = 0 then 0xffff else ?ck)) =
      ret (with_udp_header s p ?sp port si di ?xs)"
    using with_header_memory [of "?h 0" "?h (lwip_htons (if ?ck = 0 then 0xffff else ?ck))" "eps s" p]
      store_udp_chksum [of "mem s" "payload b - 8" ?sp port ?l "if ?ck = 0 then 0xffff else ?ck"]
    by (subst store_bytes_ok)
      (simp_all add: with_udp_header_def udp_chksum_def with_header_def [of "eps s" p "?h 0"] Let_def b lh)
  have 88: "(of_nat UDP_HLEN :: usize) = 8" "(of_nat UDP_HLEN :: u16) = 8" by simp_all
  have at: "udp_at s pcb = ret c" "udp_at ?s2 pcb = ret c" "deref (upd (eps s) p ?b) (Some p) = ret ?b"
    using assms(3) by (simp_all add: udp_at_def)
  have flds: "tot_len ?b = tot_len b + 8" "payload ?b = payload b - 8" "len ?b = len b + 8"
    "eps (s\<lparr>eps := x\<rparr>) = x" for x by simp_all
  have conds: "(Some x = (None :: nat option)) = False" "(Some y = (None :: u32 option)) = False" "(local_port c = 0) = False"
    "(ERR_OK \<noteq> ERR_OK) = False" "((0 :: u8) \<noteq> 0) = False" "(p \<noteq> p) = False" "(False \<or> False) = False" for x y
    using assms(4) by simp_all
  show ?thesis
    unfolding udp_sendto_if_src_def Let_def option.sel conds if_False at(1) bindR_simps prod.case deref_Some [OF b] 88 ov(1) add
      liftP_ret option.case at(2,3) flds(1-3) lwip_assert_def ov(2) if_True store assms(5) flds(4) chk store2 simp_thms
    ..
qed

section \<open>The link layer\<close>

text \<open>
  The Ethernet address for packets to \<open>d\<close> is known: \<open>d\<close> is a broadcast or multicast address, or the ARP table
  has a stable entry for the next hop that need not be refreshed yet.
\<close>

definition next_hop :: "netif \<Rightarrow> u32 \<Rightarrow> u32" where
  "next_hop n d = (if \<not> ip4_addr_net_eq d (ip_addr n) (netmask n) \<and> \<not> ip4_addr_islinklocal d then gw n else d)"

definition arp_index :: "'w lwip \<Rightarrow> nat \<Rightarrow> u32 \<Rightarrow> nat option" where
  "arp_index s nif hop =
     (let c = arp_table s ! etharp_cached_entry s in
      if stable (arp_state c) \<and> arp_netif c = Some nif \<and> hop = arp_ipaddr c then Some (etharp_cached_entry s)
      else find_stable_loop nif hop (arp_table s) 0)"

definition resolves :: "'w lwip \<Rightarrow> nat \<Rightarrow> netif \<Rightarrow> u32 \<Rightarrow> u8 list \<Rightarrow> bool" where
  "resolves s nif n d mac \<longleftrightarrow> length mac = 6 \<and>
     (if ip4_addr_isbroadcast_u32 d n then mac = ethbroadcast
      else if ip4_addr_ismulticast d then mac = multicast_ethaddr d
      else (next_hop n d = d \<or> gw n \<noteq> IPADDR_ANY) \<and> etharp_cached_entry s < ARP_TABLE_SIZE \<and>
        (\<exists>i < ARP_TABLE_SIZE. arp_index s nif (next_hop n d) = Some i \<and>
           stable (arp_state (arp_table s ! i)) \<and>
           (arp_state (arp_table s ! i) = ETHARP_STATE_STABLE \<longrightarrow> arp_ctime (arp_table s ! i) < ARP_AGE_REREQUEST_USED_UNICAST) \<and>
           mac = arp_ethaddr (arp_table s ! i)))"

lemma output_to_index_fresh:
  assumes "i < ARP_TABLE_SIZE" and "stable (arp_state (arp_table s ! i))" and "netifs s nif = Some n"
    and "arp_state (arp_table s ! i) = ETHARP_STATE_STABLE \<longrightarrow> arp_ctime (arp_table s ! i) < ARP_AGE_REREQUEST_USED_UNICAST"
  shows "etharp_output_to_arp_index E s nif p i =
    ethernet_output E s nif p (hwaddr n) (arp_ethaddr (arp_table s ! i)) ETHTYPE_IP"
proof -
  have "\<not> 285 \<le> arp_ctime (arp_table s ! i)" "\<not> 270 \<le> arp_ctime (arp_table s ! i)"
    if "arp_state (arp_table s ! i) = ETHARP_STATE_STABLE"
    using assms(4) that by (auto simp: word_less_nat_alt word_le_nat_alt)
  then show ?thesis
    using assms(1-3) by (simp add: etharp_output_to_arp_index_def arp_entry_def lwip_assert_def)
qed

lemma etharp_output_resolved:
  assumes "resolves s nif n d mac" and "netifs s nif = Some n"
  shows "\<exists>s'. etharp_output E s (Some nif) (Some p) d = ethernet_output E s' nif p (hwaddr n) mac ETHTYPE_IP \<and>
    eps s' = eps s \<and> world s' = world s \<and> netifs s' = netifs s"
proof (cases "ip4_addr_isbroadcast_u32 d n \<or> ip4_addr_ismulticast d")
  case True
  then show ?thesis using assms by (auto simp: resolves_def etharp_output_def)
next
  case False
  then obtain i where i: "i < ARP_TABLE_SIZE" "arp_index s nif (next_hop n d) = Some i" "stable (arp_state (arp_table s ! i))"
    "arp_state (arp_table s ! i) = ETHARP_STATE_STABLE \<longrightarrow> arp_ctime (arp_table s ! i) < ARP_AGE_REREQUEST_USED_UNICAST"
    "mac = arp_ethaddr (arp_table s ! i)" "etharp_cached_entry s < ARP_TABLE_SIZE"
    "next_hop n d = d \<or> gw n \<noteq> IPADDR_ANY"
    using assms(1) unfolding resolves_def by auto
  let ?c = "arp_table s ! etharp_cached_entry s"
  let ?remote = "\<not> ip4_addr_net_eq d (ip_addr n) (netmask n) \<and> \<not> ip4_addr_islinklocal d"
  let ?hit = "stable (arp_state ?c) \<and> arp_netif ?c = Some nif \<and> next_hop n d = arp_ipaddr ?c"
  let ?s = "if ?hit then etharp_stats_inc sp_cachehit_update s else s\<lparr>etharp_cached_entry := i\<rparr>"
  have any: "(?remote \<and> ip4_addr_isany_val (gw n)) = False"
    using i(7) False by (auto simp: next_hop_def ip4_addr_isany_val_def ip4_addr_isbroadcast_u32_def split: if_splits)
  have hop: "(if ?remote then gw n else d) = next_hop n d" by (simp add: next_hop_def)
  have e: "arp_entry s (etharp_cached_entry s) = ret ?c" using i(6) by (simp add: arp_entry_def)
  have bm: "ip4_addr_isbroadcast_u32 d n = False" "ip4_addr_ismulticast d = False" using False by simp_all
  have "etharp_output E s (Some nif) (Some p) d =
      (if ?hit then etharp_output_to_arp_index E (etharp_stats_inc sp_cachehit_update s) nif p (etharp_cached_entry s)
       else case find_stable_loop nif (next_hop n d) (arp_table s) 0 of
         Some i \<Rightarrow> etharp_output_to_arp_index E (s\<lparr>etharp_cached_entry := i\<rparr>) nif p i
       | None \<Rightarrow> etharp_query E s nif (next_hop n d) (Some p))"
    unfolding etharp_output_def option.case netif_at_Some [OF assms(2)] bindR_simps bm if_False Let_def any hop e ..
  also have "\<dots> = etharp_output_to_arp_index E ?s nif p i"
    using i(2) by (auto simp: arp_index_def Let_def split: if_splits)
  also have "\<dots> = ethernet_output E ?s nif p (hwaddr n) mac ETHTYPE_IP"
    using output_to_index_fresh [of i ?s nif n E p] i(1,3,4,5) assms(2) by (simp add: etharp_stats_inc_def)
  finally show ?thesis by (intro exI [of _ ?s]) (simp add: etharp_stats_inc_def)
qed

lemma ethernet_output_sendable:
  assumes "driver_ok E tx" and "netifs s nif = Some n" and "hwaddr_len n = ETH_HWADDR_LEN" and "length (hwaddr n) = 6"
    and "length mac = 6" and "sendable (eps s) p as 14"
  shows "\<exists>s'. ethernet_output E s nif p (hwaddr n) mac ETHTYPE_IP =
      ret (s', snd (tx (linkoutput n) nif (eth_frame mac (hwaddr n) ETHTYPE_IP (data (eps s) (p # as))) (world s))) \<and>
    world s' = fst (tx (linkoutput n) nif (eth_frame mac (hwaddr n) ETHTYPE_IP (data (eps s) (p # as))) (world s))"
  using ethernet_output_spec [OF assms(1-3,4,5), of p as ETHTYPE_IP] assms(6) by (auto simp: sendable_def)

lemma resolves_cong:
  "arp_table s' = arp_table s \<Longrightarrow> etharp_cached_entry s' = etharp_cached_entry s \<Longrightarrow> resolves s' = resolves s"
  by (intro ext) (simp only: resolves_def arp_index_def)

lemma with_ip4_header_same:
  "netifs (with_ip4_header s p tos ttl proto src dest) = netifs s" "world (with_ip4_header s p tos ttl proto src dest) = world s"
  "resolves (with_ip4_header s p tos ttl proto src dest) = resolves s"
proof -
  show "resolves (with_ip4_header s p tos ttl proto src dest) = resolves s"
    by (rule resolves_cong) (simp_all add: with_ip4_header_def Let_def ip_stats_inc_def)
qed (simp_all add: with_ip4_header_def Let_def ip_stats_inc_def)

lemma with_udp_header_same:
  "netifs (with_udp_header s p sp dp si di xs) = netifs s" "world (with_udp_header s p sp dp si di xs) = world s"
  "ip4 (with_udp_header s p sp dp si di xs) = ip4 s" "resolves (with_udp_header s p sp dp si di xs) = resolves s"
proof -
  show "resolves (with_udp_header s p sp dp si di xs) = resolves s"
    by (rule resolves_cong) (simp_all add: with_udp_header_def Let_def)
qed (simp_all add: with_udp_header_def Let_def)

lemma udp_chksum_valid:
  assumes "of_nat (length xs) + 8 = ulen"
  shows "udp_chksum si di sp dp ulen xs \<noteq> 0"
    and "udp_valid si di (udp_chksum si di sp dp ulen xs) (udp_datagram sp dp ulen (udp_chksum si di sp dp ulen xs) xs)"
proof -
  have "lwip_htons v \<noteq> 0" if "v \<noteq> 0" for v
  proof
    assume "lwip_htons v = 0"
    then have "v = lwip_htons 0" by (metis htons_invol)
    with that show False by (simp add: lwip_htons_def)
  qed
  then show "udp_chksum si di sp dp ulen xs \<noteq> 0" unfolding udp_chksum_def Let_def by simp
  have "of_nat (length (udp_datagram sp dp ulen (udp_chksum si di sp dp ulen xs) xs)) = ulen"
    using assms by (simp add: udp_datagram_def add.commute)
  then show "udp_valid si di (udp_chksum si di sp dp ulen xs) (udp_datagram sp dp ulen (udp_chksum si di sp dp ulen xs) xs)"
    using udp_chksum_verifies [OF refl] unfolding udp_valid_def udp_chksum_def Let_def by simp
qed

lemma with_udp_header_run:
  fixes sp dp :: u16 and si di :: u32
  assumes "sendable (eps s) p as (8 + k)"
  defines "ulen \<equiv> tot_len (the (pbufs (eps s) p)) + 8" and "s1 \<equiv> with_udp_header s p sp dp si di (data (eps s) (p # as))"
  shows "sendable (eps s1) p as k" and "tot_len (the (pbufs (eps s1) p)) = ulen"
    and "ref (the (pbufs (eps s1) p)) = ref (the (pbufs (eps s) p))"
    and "data (eps s1) (p # as) = udp_datagram sp dp ulen (udp_chksum si di sp dp ulen (data (eps s) (p # as))) (data (eps s) (p # as))"
proof -
  let ?h = "udp_datagram sp dp ulen (udp_chksum si di sp dp ulen (data (eps s) (p # as))) []"
  have l: "length (udp_datagram sp dp x y []) = 8" for x y by (simp add: udp_datagram_def)
  have s1: "eps s1 = with_header (eps s) p ?h" by (simp add: s1_def with_udp_header_def Let_def ulen_def)
  have "sendable (eps s) p as (length ?h + k)" using assms(1) by (simp only: l)
  note w = sendable_with_header [OF this]
  show "sendable (eps s1) p as k" unfolding s1 by (rule w(1))
  show "data (eps s1) (p # as) = udp_datagram sp dp ulen (udp_chksum si di sp dp ulen (data (eps s) (p # as))) (data (eps s) (p # as))"
    unfolding s1 w(2) udp_datagram_append [of _ _ _ _ "data (eps s) (p # as)"] ..
  show "tot_len (the (pbufs (eps s1) p)) = ulen" "ref (the (pbufs (eps s1) p)) = ref (the (pbufs (eps s) p))"
    by (simp_all add: s1 with_header_def Let_def l ulen_def)
qed

lemma with_ip4_header_run:
  fixes tos ttl proto :: u8 and si di :: u32
  assumes "sendable (eps s) p as (20 + k)"
  defines "tlen \<equiv> tot_len (the (pbufs (eps s) p)) + 20" and "s1 \<equiv> with_ip4_header s p tos ttl proto si di"
  shows "sendable (eps s1) p as k"
    and "data (eps s1) (p # as) = ip4_header tos tlen (ip_id (ip4 s)) ttl proto
      (header_chksum tos tlen (ip_id (ip4 s)) ttl proto si di) si di @ data (eps s) (p # as)"
proof -
  let ?h = "ip4_header tos tlen (ip_id (ip4 s)) ttl proto (header_chksum tos tlen (ip_id (ip4 s)) ttl proto si di) si di"
  have s1: "eps s1 = with_header (eps s) p ?h" by (simp add: s1_def with_ip4_header_def Let_def tlen_def ip_stats_inc_def)
  have "sendable (eps s) p as (length ?h + k)" using assms(1) by simp
  note w = sendable_with_header [OF this]
  show "sendable (eps s1) p as k" unfolding s1 by (rule w(1))
  show "data (eps s1) (p # as) = ?h @ data (eps s) (p # as)" unfolding s1 by (rule w(2))
qed

lemma udp_sendto_down:
  fixes port :: u16 and si di :: u32
  assumes "sendable (eps s) p as 42" and "ref (the (pbufs (eps s) p)) = 1" and "udp_pcb_map (udp s) pcb = Some c"
    and "local_port c \<noteq> 0" and "udp_flags c AND UDP_FLAGS_NOCHKSUM = 0" and "netifs s nif = Some n" and "nif_output n = ETHARP_OUTPUT"
    and "mtu n = 0 \<or> unat (tot_len (the (pbufs (eps s) p))) + 28 \<le> unat (mtu n)"
  defines "s1 \<equiv> with_udp_header s p (local_port c) port si di (data (eps s) (p # as))"
  shows "udp_sendto_if_src E s (Some pcb) (Some p) (Some di) port (Some nif) (Some si) =
    bindR (etharp_output E (with_ip4_header s1 p (pcb_tos c) (pcb_ttl c) IP_PROTO_UDP si di) (Some nif) (Some p) di)
      (\<lambda>(s8, err). ret (udp_stats_inc sp_xmit_update s8, err))"
proof -
  let ?s2 = "with_ip4_header s1 p (pcb_tos c) (pcb_ttl c) IP_PROTO_UDP si di"
  have "sendable (eps s) p as (8 + 34)" using assms(1) by simp
  note u = with_udp_header_run [OF this, of "local_port c" port si di, folded s1_def]
  have 20: "sendable (eps s1) p as 20" using sendable_less [OF u(1)] by simp
  have "unat (tot_len (the (pbufs (eps s) p))) + 42 < 65536" using assms(1) by (simp add: sendable_def header_fits_def Let_def)
  then have "unat (tot_len (the (pbufs (eps s) p)) + 8 + 20) = unat (tot_len (the (pbufs (eps s) p))) + 28"
    by (simp add: unat_word_ariths)
  then have mtu: "(mtu n \<noteq> 0 \<and> mtu n < tot_len (the (pbufs (eps s1) p)) + 20) = False"
    unfolding u(2) using assms(8) by (auto simp: word_less_nat_alt)
  have n1: "netifs s1 nif = Some n" by (simp add: s1_def with_udp_header_same assms(6))
  have ref1: "ref (the (pbufs (eps s1) p)) = 1" unfolding u(3) by (rule assms(2))
  have n2: "netif_at ?s2 (Some nif) = ret n" using n1 by (simp add: with_ip4_header_same)
  have "netif_output E ?s2 nif p di = etharp_output E ?s2 (Some nif) (Some p) di"
    unfolding netif_output_def n2 bindR_simps assms(7) by simp
  then have "ip4_output_if_src E s1 p (Some si) (Some di) (pcb_ttl c) (pcb_tos c) IP_PROTO_UDP nif =
      etharp_output E ?s2 (Some nif) (Some p) di"
    unfolding ip4_output_run [OF 20 ref1 n1] Let_def mtu option.case by simp
  then show ?thesis
    using udp_sendto_run [OF assms(1) _ assms(3-5), of E di port nif si, folded s1_def] by simp
qed

section \<open>Properties\<close>

text \<open>
  C36: for a packet that nobody else refers to and a destination address, every packet that \<open>ip4_output_if_src\<close> passes on
  to the interface, or to fragmentation when it is longer than the MTU, consists of a 20-byte header of RFC 791 with the
  fields asked for, the total length and the next identification, followed by the unchanged payload. The checksum that is added up while the fields are written makes the one's complement sum of
  the header 0xffff, so that receivers accept it. When there is no room for a header the result is \<open>ERR_BUF\<close>
  and nothing but the error counter changes.
\<close>

theorem ip4_output_header_valid:
  fixes src :: "u32 option"
  assumes "chain (pbufs (eps s)) (Some p) (p # as)" and "tot_ok (pbufs (eps s)) (p # as)" and "readable (eps s) (p # as)"
    and "header_room (eps s) p as 20" and "ref (the (pbufs (eps s) p)) = 1" and "netifs s nif = Some n"
  defines "tlen \<equiv> tot_len (the (pbufs (eps s) p)) + 20" and "src_ip \<equiv> case src of None \<Rightarrow> 0 | Some a \<Rightarrow> a"
  shows "if header_fits (eps s) p 20
    then \<exists>s' ck. ip4_output_if_src E s p src (Some d) ttl tos proto nif =
        (if mtu n \<noteq> 0 \<and> mtu n < tlen then ip4_frag E s' p nif d else netif_output E s' nif p d) \<and>
      data (eps s') (p # as) = ip4_header tos tlen (ip_id (ip4 s)) ttl proto ck src_ip d @ data (eps s) (p # as) \<and>
      inet_sum (ip4_header tos tlen (ip_id (ip4 s)) ttl proto ck src_ip d) = 0xffff \<and>
      ip_id (ip4 s') = ip_id (ip4 s) + 1
    else ip4_output_if_src E s p src (Some d) ttl tos proto nif = ret (ip_stats_inc sp_err_update s, ERR_BUF)"
proof (cases "header_fits (eps s) p 20")
  case True
  then have snd: "sendable (eps s) p as (20 + 0)" using assms(1-4) by (simp add: sendable_def)
  let ?h = "ip4_header tos tlen (ip_id (ip4 s)) ttl proto (header_chksum tos tlen (ip_id (ip4 s)) ttl proto src_ip d) src_ip d"
  have "sendable (eps s) p as (length ?h + 0)" using snd by simp
  from sendable_with_header(2) [OF this] have "data (eps (with_ip4_header s p tos ttl proto src_ip d)) (p # as) =
      ?h @ data (eps s) (p # as)" "ip_id (ip4 (with_ip4_header s p tos ttl proto src_ip d)) = ip_id (ip4 s) + 1"
    by (simp_all add: with_ip4_header_def Let_def ip_stats_inc_def tlen_def)
  then show ?thesis
    using True ip4_output_run [of s p as nif n E src d ttl tos proto] snd assms(5,6) ip4_header_verifies
    unfolding Let_def tlen_def [symmetric] src_ip_def [symmetric] by (simp only: if_True add_0_right) blast
next
  case False
  obtain b where b: "pbufs (eps s) p = Some b" using assms(1) by auto
  then have "pbuf_add_header (eps s) (Some p) 20 = ret (eps s, 1)" using pbuf_add_header_run(1) [OF b] False by simp
  then show ?thesis using False b assms(5) by (simp add: ip4_output_if_src_def lwip_assert_def)
qed

text \<open>
  C32: UDP, IPv4 and Ethernet together. When the Ethernet address for the destination is known (broadcast, multicast or a
  stable ARP entry that is not due for renewal), the packet has one reference and room for 42 bytes of headers, and the
  datagram with its headers fits the MTU, \<open>udp_sendto_if_src\<close> on a bound PCB with checksums hands exactly one frame to the
  driver and returns the driver's result: the Ethernet header with that address, an IPv4 header and a UDP header with the ports of the PCB and the destination, and the unchanged payload. Both checksums verify: the sum of the
  IPv4 header is 0xffff, and so is that of the pseudo header with the datagram, whose checksum field is never 0, which would
  mean that there is no checksum.
\<close>

theorem udp_sendto_frame:
  assumes "driver_ok E tx" and "sendable (eps s) p as 42" and "ref (the (pbufs (eps s) p)) = 1"
    and "udp_pcb_map (udp s) pcb = Some c" and "local_port c \<noteq> 0" and "udp_flags c AND UDP_FLAGS_NOCHKSUM = 0"
    and "netifs s nif = Some n" and "nif_output n = ETHARP_OUTPUT" and "hwaddr_len n = ETH_HWADDR_LEN"
    and "length (hwaddr n) = 6" and "resolves s nif n di mac"
    and "mtu n = 0 \<or> unat (tot_len (the (pbufs (eps s) p))) + 28 \<le> unat (mtu n)"
  defines "ulen \<equiv> tot_len (the (pbufs (eps s) p)) + 8"
  shows "\<exists>s' ip_ck udp_ck packet. packet = ip4_header (pcb_tos c) (ulen + 20) (ip_id (ip4 s)) (pcb_ttl c) IP_PROTO_UDP ip_ck si di \<and>
    inet_sum packet = 0xffff \<and> udp_ck \<noteq> 0 \<and>
    udp_valid si di udp_ck (udp_datagram (local_port c) port ulen udp_ck (data (eps s) (p # as))) \<and>
    (let r = tx (linkoutput n) nif (eth_frame mac (hwaddr n) ETHTYPE_IP
        (packet @ udp_datagram (local_port c) port ulen udp_ck (data (eps s) (p # as)))) (world s) in
     udp_sendto_if_src E s (Some pcb) (Some p) (Some di) port (Some nif) (Some si) = ret (s', snd r) \<and> world s' = fst r)"
proof -
  let ?xs = "data (eps s) (p # as)" and ?sp = "local_port c"
  let ?uck = "udp_chksum si di ?sp port ulen ?xs"
  let ?ick = "header_chksum (pcb_tos c) (ulen + 20) (ip_id (ip4 s)) (pcb_ttl c) IP_PROTO_UDP si di"
  let ?packet = "ip4_header (pcb_tos c) (ulen + 20) (ip_id (ip4 s)) (pcb_ttl c) IP_PROTO_UDP ?ick si di"
  let ?body = "?packet @ udp_datagram ?sp port ulen ?uck ?xs"
  define s1 where "s1 = with_udp_header s p ?sp port si di ?xs"
  define s2 where "s2 = with_ip4_header s1 p (pcb_tos c) (pcb_ttl c) IP_PROTO_UDP si di"
  note down = udp_sendto_down [OF assms(2-8,12), where E = E and port = port and si = si and di = di, folded s1_def, folded s2_def]
  have "sendable (eps s) p as (8 + 34)" using assms(2) by simp
  note u = with_udp_header_run [OF this, of ?sp port si di, folded s1_def ulen_def]
  have "sendable (eps s1) p as (20 + 14)" using u(1) by simp
  note i = with_ip4_header_run [OF this, of "pcb_tos c" "pcb_ttl c" IP_PROTO_UDP si di, folded s2_def]
  have "ip4 s1 = ip4 s" by (simp add: s1_def with_udp_header_same)
  then have body: "data (eps s2) (p # as) = ?body" unfolding i(2) u(2,4) by (simp only:)
  have same: "netifs s2 nif = Some n" "world s2 = world s" "resolves s2 nif n di mac"
    using assms(7,11) by (simp_all add: s1_def s2_def with_ip4_header_same with_udp_header_same)
  obtain s3 where s3: "etharp_output E s2 (Some nif) (Some p) di = ethernet_output E s3 nif p (hwaddr n) mac ETHTYPE_IP"
    "eps s3 = eps s2" "world s3 = world s" "netifs s3 nif = Some n"
    using etharp_output_resolved [OF same(3,1), of E p] same(1,2) by auto
  have mac: "length mac = 6" using assms(11) by (simp add: resolves_def)
  have "sendable (eps s3) p as 14" unfolding s3(2) by (rule i(1))
  from ethernet_output_sendable [OF assms(1) s3(4) assms(9,10) mac this, unfolded s3(2,3) body] obtain s4 where
    s4: "ethernet_output E s3 nif p (hwaddr n) mac ETHTYPE_IP =
      ret (s4, snd (tx (linkoutput n) nif (eth_frame mac (hwaddr n) ETHTYPE_IP ?body) (world s)))"
    "world s4 = fst (tx (linkoutput n) nif (eth_frame mac (hwaddr n) ETHTYPE_IP ?body) (world s))"
    by (elim exE conjE)
  have "length ?xs = unat (tot_len (the (pbufs (eps s) p)))" using assms(2) by (simp add: sendable_def)
  then have "of_nat (length ?xs) + 8 = ulen" by (simp add: ulen_def)
  note valid = udp_chksum_valid [OF this, of si di ?sp port]
  have "udp_sendto_if_src E s (Some pcb) (Some p) (Some di) port (Some nif) (Some si) =
      ret (udp_stats_inc sp_xmit_update s4, snd (tx (linkoutput n) nif (eth_frame mac (hwaddr n) ETHTYPE_IP ?body) (world s)))"
    unfolding down s3(1) s4(1) by simp
  moreover have "world (udp_stats_inc sp_xmit_update s4) = world s4" by (simp add: udp_stats_inc_def)
  ultimately have "?packet = ?packet \<and> inet_sum ?packet = 0xffff \<and> ?uck \<noteq> 0 \<and>
      udp_valid si di ?uck (udp_datagram ?sp port ulen ?uck ?xs) \<and>
      (let r = tx (linkoutput n) nif (eth_frame mac (hwaddr n) ETHTYPE_IP ?body) (world s) in
       udp_sendto_if_src E s (Some pcb) (Some p) (Some di) port (Some nif) (Some si) =
         ret (udp_stats_inc sp_xmit_update s4, snd r) \<and> world (udp_stats_inc sp_xmit_update s4) = fst r)"
    unfolding Let_def using s4(2) valid ip4_header_verifies by (simp only: simp_thms)
  then show ?thesis by blast
qed

text \<open>An example: a PCB bound to port 515 and a pbuf of 12 bytes with room for the three headers.\<close>

definition ex_send :: "wire lwip" where
  "ex_send = (ex_rx 0)\<lparr>eps := ex_heap\<lparr>pbufs := [7000 \<mapsto> \<lparr>pnext = None, payload = 7066, tot_len = 12, len = 12,
     type_internal = 0x80, flags = 0, ref = 1, if_idx = 0\<rparr>]\<rparr>\<rparr>"

lemma ex_sendable: "sendable (eps ex_send) 7000 [] 42"
  by (auto simp: sendable_def header_fits_def header_room_def ex_send_def ex_heap_def mapped_def Let_def)

theorem ip4_output_header_valid_witness:
  "\<exists>s' ck. ip4_output_if_src ex_lenv ex_send 7000 None (Some 0x0901A8C0) 255 0 1 100 = netif_output ex_lenv s' 100 7000 0x0901A8C0 \<and>
     data (eps s') [7000] = ip4_header 0 32 (ip_id (ip4 ex_send)) 255 1 ck 0 0x0901A8C0 @ data (eps ex_send) [7000] \<and>
     inet_sum (ip4_header 0 32 (ip_id (ip4 ex_send)) 255 1 ck 0 0x0901A8C0) = 0xffff"
proof -
  have snd: "sendable (eps ex_send) 7000 [] 20" using sendable_less [OF ex_sendable] by simp
  have b: "ref (the (pbufs (eps ex_send) 7000)) = 1" "tot_len (the (pbufs (eps ex_send) 7000)) + 20 = 32"
    "netifs ex_send 100 = Some ex_netif" "mtu ex_netif = 1500"
    by (simp_all add: ex_send_def ex_rx_def ex_lwip_def ex_netif_def)
  note snd' = snd [unfolded sendable_def]
  show ?thesis
    using ip4_output_header_valid [OF _ _ _ _ b(1,3), of "[]" ex_lenv None "0x0901A8C0" 255 0 1] snd'
    unfolding b by (simp del: data.simps) blast
qed

theorem udp_sendto_frame_witness:
  "\<exists>s' ip_ck udp_ck. udp_sendto_if_src ex_lenv ex_send (Some 5000) (Some 7000) (Some 0xFFFFFFFF) 68 (Some 100) (Some 0x0201A8C0) =
     ret (s', ERR_OK) \<and>
     world s' = [(100, eth_frame ethbroadcast [2, 0, 0, 0, 0, 1] 0x0800
       (ip4_header 0 40 (ip_id (ip4 ex_send)) 255 17 ip_ck 0x0201A8C0 0xFFFFFFFF @
        udp_datagram 515 68 20 udp_ck (data (eps ex_send) [7000])))]"
proof -
  have b: "ref (the (pbufs (eps ex_send) 7000)) = 1" "tot_len (the (pbufs (eps ex_send) 7000)) = 12"
    "netifs ex_send 100 = Some ex_netif" "world ex_send = []"
    by (simp_all add: ex_send_def ex_rx_def ex_lwip_def)
  obtain c where c: "udp_pcb_map (udp ex_send) 5000 = Some c" "local_port c = 515" "udp_flags c = 0" "pcb_tos c = 0" "pcb_ttl c = 255"
    by (simp add: ex_send_def ex_rx_def)
  have n: "nif_output ex_netif = ETHARP_OUTPUT" "hwaddr_len ex_netif = ETH_HWADDR_LEN" "length (hwaddr ex_netif) = 6"
    "mtu ex_netif = 1500" "linkoutput ex_netif = 3" "hwaddr ex_netif = [2, 0, 0, 0, 0, 1]"
    by (simp_all add: ex_netif_def)
  have r: "resolves ex_send 100 ex_netif 0xFFFFFFFF ethbroadcast"
    by (simp add: resolves_def ip4_addr_isbroadcast_u32_def ethbroadcast_def)
  have p: "local_port c \<noteq> 0" "udp_flags c AND UDP_FLAGS_NOCHKSUM = 0"
    "mtu ex_netif = 0 \<or> unat (tot_len (the (pbufs (eps ex_send) 7000))) + 28 \<le> unat (mtu ex_netif)"
    by (simp_all add: c n b)
  from udp_sendto_frame [OF ex_driver_ok ex_sendable b(1) c(1) p(1,2) b(3) n(1-3) r p(3), of "0x0201A8C0" 68]
  show ?thesis unfolding b(2,4) c(2,4,5) n(5,6) Let_def by (simp add: ex_tx_def del: data.simps) blast
qed

end
