(* ===== verification/Ip4_Reass.thy ===== *)
theory Ip4_Reass
  imports Icmp
begin

text \<open>
  Reassembly of IPv4 fragments, \<open>core/ipv4/ip4_frag.c\<close> (\<open>IP_REASS_CHECK_OVERLAP = 1\<close>,
  \<open>IP_REASS_FREE_OLDEST = 1\<close>).

  A queued fragment keeps a \<open>struct ip_reass_helper\<close> in place of its IP header: the pointer
  \<open>next_pbuf\<close> in the first eight bytes, then \<open>start\<close> and \<open>end\<close>. The list \<open>reassdatagrams\<close> is a list of
  addresses, so the argument \<open>prev\<close> of the functions that unlink an element is not needed.
\<close>

abbreviation (input) IP_REASS_FLAG_LASTFRAG :: u8 where "IP_REASS_FLAG_LASTFRAG \<equiv> 0x01"
abbreviation (input) IP_REASS_MAX_PBUFS :: nat where "IP_REASS_MAX_PBUFS \<equiv> 10"
abbreviation (input) IP_REASS_MAXAGE :: u8 where "IP_REASS_MAXAGE \<equiv> 15"

datatype ip_reass_validate =
    IP_REASS_VALIDATE_TELEGRAM_FINISHED
  | IP_REASS_VALIDATE_PBUF_QUEUED
  | IP_REASS_VALIDATE_PBUF_DROPPED

section \<open>Access\<close>

text \<open>A pointer to a pbuf in memory: eight bytes, least significant first; \<open>NULL\<close> is 0.\<close>

definition bytes_ptr :: "nat option \<Rightarrow> u8 list" where
  "bytes_ptr p = (let w = (case p of None \<Rightarrow> 0 | Some a \<Rightarrow> of_nat a) :: usize in
     map (\<lambda>i. ucast (drop_bit (8 * i) w)) [0..<8])"

definition load_ptr :: "bytes \<Rightarrow> nat \<Rightarrow> nat option res" where
  "load_ptr m a = bindR (mread m a 8) (\<lambda>xs.
     let w = word_rcat (rev xs) :: usize in ret (if w = 0 then None else Some (unat w)))"

definition ipr_at :: "'w lwip \<Rightarrow> nat \<Rightarrow> ip_reassdata res" where
  "ipr_at s a = (case reassdata (ip4 s) a of None \<Rightarrow> fault Bad_pointer | Some r \<Rightarrow> ret r)"

definition ipr_upd :: "'w lwip \<Rightarrow> nat \<Rightarrow> (ip_reassdata \<Rightarrow> ip_reassdata) \<Rightarrow> 'w lwip res" where
  "ipr_upd s a f =
     bindR (ipr_at s a) (\<lambda>r. ret (s\<lparr>ip4 := (ip4 s)\<lparr>reassdata := (reassdata (ip4 s))(a \<mapsto> f r)\<rparr>\<rparr>))"

text \<open>The fields of the helper struct at \<open>iprh\<close>.\<close>

definition helper_next :: "'w lwip \<Rightarrow> nat \<Rightarrow> nat option res" where
  "helper_next s iprh = load_ptr (mem s) iprh"

definition helper_start :: "'w lwip \<Rightarrow> nat \<Rightarrow> u16 res" where
  "helper_start s iprh = load16 (mem s) (iprh + 8)"

definition helper_end :: "'w lwip \<Rightarrow> nat \<Rightarrow> u16 res" where
  "helper_end s iprh = load16 (mem s) (iprh + 10)"

definition set_next :: "'w lwip \<Rightarrow> nat \<Rightarrow> nat option \<Rightarrow> 'w lwip res" where
  "set_next s iprh q = store_bytes s iprh (bytes_ptr q)"

text \<open>The copy of a header in an \<open>ip_reassdata\<close> against a header in memory.\<close>

definition IP_ADDRESSES_AND_ID_MATCH :: "u8 list \<Rightarrow> bytes \<Rightarrow> nat \<Rightarrow> bool res" where
  "IP_ADDRESSES_AND_ID_MATCH iphdrA m iphdrB =
     bindR (mread m (iphdrB + 12) 4) (\<lambda>src.
     if take 4 (drop 12 iphdrA) \<noteq> src then ret False
     else bindR (mread m (iphdrB + 16) 4) (\<lambda>dest.
     if take 4 (drop 16 iphdrA) \<noteq> dest then ret False
     else bindR (mread m (iphdrB + 4) 2) (\<lambda>id. ret (take 2 (drop 4 iphdrA) = id))))"

section \<open>Release\<close>

definition ip_reass_dequeue_datagram :: "'w lwip \<Rightarrow> nat \<Rightarrow> 'w lwip res" where
  "ip_reass_dequeue_datagram s ipr =
     bindR (lwip_assert (ipr \<in> set (reassdatagrams (ip4 s)))) (\<lambda>_.
     ret (s\<lparr>ip4 := (ip4 s)\<lparr>reassdatagrams := remove1 ipr (reassdatagrams (ip4 s)),
                            reassdata := (reassdata (ip4 s))(ipr := None),
                            memp_reassdata := do_memp_free_pool (memp_reassdata (ip4 s)) ipr\<rparr>\<rparr>))"

partial_function (option) free_frags_loop :: "'w lenv \<Rightarrow> 'w lwip \<Rightarrow> nat option \<Rightarrow> u16 \<Rightarrow> ('w lwip \<times> u16) res" where
  "free_frags_loop E s p pbufs_freed =
     (case p of
        None \<Rightarrow> ret (s, pbufs_freed)
      | Some pcur \<Rightarrow>
          bindR (deref (eps s) p) (\<lambda>b.
          bindR (helper_next s (payload b)) (\<lambda>nxt.
          bindR (pbuf_clen (eps s) p) (\<lambda>clen.
          bindR (lwip_assert (unat pbufs_freed + unat clen \<le> 0xffff)) (\<lambda>_.
          bindR (free_pbuf E s pcur) (\<lambda>s1.
          free_frags_loop E s1 nxt (pbufs_freed + clen)))))))"

definition ip_reass_free_complete_datagram :: "'w lenv \<Rightarrow> 'w lwip \<Rightarrow> nat \<Rightarrow> ('w lwip \<times> u16) res" where
  "ip_reass_free_complete_datagram E s ipr =
     bindR (ipr_at s ipr) (\<lambda>r.
     bindR (deref (eps s) (ipr_p r)) (\<lambda>b.
     bindR (helper_start s (payload b)) (\<lambda>start.
     bindR
       (if start = 0 then
          (let p = the (ipr_p r) in
           bindR (helper_next s (payload b)) (\<lambda>nxt.
           bindR (ipr_upd s ipr (\<lambda>r. r\<lparr>ipr_p := nxt\<rparr>)) (\<lambda>s1.
           bindR (store_bytes s1 (payload b) (ipr_iphdr r)) (\<lambda>s2.
           bindR (icmp_time_exceeded E s2 p ICMP_TE_FRAG) (\<lambda>s3.
           bindR (pbuf_clen (eps s3) (Some p)) (\<lambda>clen.
           bindR (free_pbuf E s3 p) (\<lambda>s4. ret (s4, clen))))))))
        else ret (s, 0)) (\<lambda>(s5, pbufs_freed).
     bindR (ipr_at s5 ipr) (\<lambda>r5.
     bindR (free_frags_loop E s5 (ipr_p r5) pbufs_freed) (\<lambda>(s6, freed).
     bindR (ip_reass_dequeue_datagram s6 ipr) (\<lambda>s7.
     bindR (lwip_assert (ip_reass_pbufcount (ip4 s7) \<ge> freed)) (\<lambda>_.
     ret (s7\<lparr>ip4 := (ip4 s7)\<lparr>ip_reass_pbufcount := ip_reass_pbufcount (ip4 s7) - freed\<rparr>\<rparr>, freed)))))))))"

fun ip_reass_tmr_loop :: "'w lenv \<Rightarrow> 'w lwip \<Rightarrow> nat list \<Rightarrow> 'w lwip res" where
  "ip_reass_tmr_loop E s [] = ret s"
| "ip_reass_tmr_loop E s (r # rs) =
     bindR (ipr_at s r) (\<lambda>d.
     if ipr_timer d > 0 then
       bindR (ipr_upd s r (\<lambda>d. d\<lparr>ipr_timer := ipr_timer d - 1\<rparr>)) (\<lambda>s1. ip_reass_tmr_loop E s1 rs)
     else
       bindR (ip_reass_free_complete_datagram E s r) (\<lambda>(s1, _). ip_reass_tmr_loop E s1 rs))"

definition ip_reass_tmr :: "'w lenv \<Rightarrow> 'w lwip \<Rightarrow> 'w lwip res" where
  "ip_reass_tmr E s = ip_reass_tmr_loop E s (reassdatagrams (ip4 s))"

text \<open>The oldest datagram that \<open>fraghdr\<close> does not belong to, and how many of these there are.\<close>

fun oldest_loop :: "'w lwip \<Rightarrow> nat \<Rightarrow> nat list \<Rightarrow> (nat \<times> u8) option \<Rightarrow> nat \<Rightarrow> (nat option \<times> nat) res" where
  "oldest_loop s fraghdr [] oldest other_datagrams = ret (map_option fst oldest, other_datagrams)"
| "oldest_loop s fraghdr (r # rs) oldest other_datagrams =
     bindR (ipr_at s r) (\<lambda>d.
     bindR (IP_ADDRESSES_AND_ID_MATCH (ipr_iphdr d) (mem s) fraghdr) (\<lambda>same.
     if same then oldest_loop s fraghdr rs oldest other_datagrams
     else
       oldest_loop s fraghdr rs
         (case oldest of
            None \<Rightarrow> Some (r, ipr_timer d)
          | Some (_, t) \<Rightarrow> if ipr_timer d \<le> t then Some (r, ipr_timer d) else oldest)
         (other_datagrams + 1)))"

partial_function (option) remove_oldest_loop ::
  "'w lenv \<Rightarrow> 'w lwip \<Rightarrow> nat \<Rightarrow> nat \<Rightarrow> nat \<Rightarrow> ('w lwip \<times> nat) res" where
  "remove_oldest_loop E s fraghdr pbufs_needed pbufs_freed =
     bindR (oldest_loop s fraghdr (reassdatagrams (ip4 s)) None 0) (\<lambda>(oldest, other_datagrams).
     bindR
       (case oldest of
          None \<Rightarrow> ret (s, pbufs_freed)
        | Some r \<Rightarrow>
            bindR (ip_reass_free_complete_datagram E s r) (\<lambda>(s1, n). ret (s1, pbufs_freed + unat n))) (\<lambda>(s2, freed).
     if freed < pbufs_needed \<and> other_datagrams > 1
     then remove_oldest_loop E s2 fraghdr pbufs_needed freed
     else ret (s2, freed)))"

definition ip_reass_remove_oldest_datagram ::
  "'w lenv \<Rightarrow> 'w lwip \<Rightarrow> nat \<Rightarrow> nat \<Rightarrow> ('w lwip \<times> nat) res" where
  "ip_reass_remove_oldest_datagram E s fraghdr pbufs_needed = remove_oldest_loop E s fraghdr pbufs_needed 0"

section \<open>Queueing\<close>

definition reassdata_malloc :: "'w lwip \<Rightarrow> 'w lwip \<times> nat option" where
  "reassdata_malloc s =
     (case do_memp_malloc_pool (memp_reassdata (ip4 s)) of (d, ipr) \<Rightarrow>
        (s\<lparr>ip4 := (ip4 s)\<lparr>memp_reassdata := d\<rparr>\<rparr>, ipr))"

definition ip_reass_enqueue_new_datagram ::
  "'w lenv \<Rightarrow> 'w lwip \<Rightarrow> nat \<Rightarrow> nat \<Rightarrow> ('w lwip \<times> nat option) res" where
  "ip_reass_enqueue_new_datagram E s fraghdr clen =
     (case reassdata_malloc s of (s1, ipr1) \<Rightarrow>
      bindR
        (if ipr1 = None then
           bindR (ip_reass_remove_oldest_datagram E s1 fraghdr clen) (\<lambda>(s2, freed).
           ret (if freed \<ge> clen then reassdata_malloc s2 else (s2, None)))
         else ret (s1, ipr1)) (\<lambda>(s3, ipr).
      case ipr of
        None \<Rightarrow> ret (ipfrag_stats_inc sp_memerr_update s3, None)
      | Some a \<Rightarrow>
          bindR (mread (mem s3) fraghdr IP_HLEN) (\<lambda>hdr.
          ret (s3\<lparr>ip4 := (ip4 s3)\<lparr>reassdatagrams := a # reassdatagrams (ip4 s3),
            reassdata := (reassdata (ip4 s3))(a \<mapsto> \<lparr>ipr_p = None, ipr_iphdr = hdr, datagram_len = 0,
              ipr_flags = 0, ipr_timer = IP_REASS_MAXAGE\<rparr>)\<rparr>\<rparr>, ipr))))"

text \<open>
  The search of \<open>ip_reass_chain_frag_into_datagram_and_validate\<close> for the place of the new
  fragment. \<open>None\<close> drops it; otherwise the fragment it was inserted before (or \<open>None\<close>), the helper
  of the fragment in front of it and whether there was no hole so far.
\<close>

partial_function (option) chain_frag_loop ::
  "'w lwip \<Rightarrow> nat \<Rightarrow> nat \<Rightarrow> nat \<Rightarrow> u16 \<Rightarrow> u16 \<Rightarrow> nat option \<Rightarrow> nat option \<Rightarrow> bool \<Rightarrow>
   ('w lwip \<times> (nat option \<times> nat option \<times> bool) option) res" where
  "chain_frag_loop s ipr new_p iprh fstart fend q iprh_prev valid =
     (if q = None then ret (s, Some (None, iprh_prev, valid))
      else
        bindR (deref (eps s) q) (\<lambda>qb.
        let iprh_tmp = payload qb in
        bindR (helper_start s iprh_tmp) (\<lambda>tmp_start.
        if fstart < tmp_start then
          bindR (set_next s iprh q) (\<lambda>s1.
          case iprh_prev of
            Some pv \<Rightarrow>
              bindR (helper_end s1 pv) (\<lambda>prev_end.
              if fstart < prev_end \<or> fend > tmp_start then ret (s1, None)
              else bindR (set_next s1 pv (Some new_p)) (\<lambda>s2.
                   ret (s2, Some (q, iprh_prev, valid \<and> prev_end = fstart))))
          | None \<Rightarrow>
              if fend > tmp_start then ret (s1, None)
              else bindR (ipr_upd s1 ipr (\<lambda>r. r\<lparr>ipr_p := Some new_p\<rparr>)) (\<lambda>s2.
                   ret (s2, Some (q, None, valid))))
        else if fstart = tmp_start then ret (s, None)
        else
          bindR (helper_end s iprh_tmp) (\<lambda>tmp_end.
          if fstart < tmp_end then ret (s, None)
          else
            bindR (case iprh_prev of
                     Some pv \<Rightarrow> bindR (helper_end s pv) (\<lambda>prev_end. ret (valid \<and> prev_end = tmp_start))
                   | None \<Rightarrow> ret valid) (\<lambda>valid1.
            bindR (helper_next s iprh_tmp) (\<lambda>nxt.
            chain_frag_loop s ipr new_p iprh fstart fend nxt (Some iprh_tmp) valid1))))))"

text \<open>The check that there are no holes after the new fragment; the last helper that was looked at.\<close>

partial_function (option) no_holes_loop :: "'w lwip \<Rightarrow> nat \<Rightarrow> nat option \<Rightarrow> (bool \<times> nat) res" where
  "no_holes_loop s iprh_prev q =
     (if q = None then ret (True, iprh_prev)
      else
        bindR (deref (eps s) q) (\<lambda>qb.
        bindR (helper_end s iprh_prev) (\<lambda>prev_end.
        bindR (helper_start s (payload qb)) (\<lambda>start.
        if prev_end \<noteq> start then ret (False, payload qb)
        else bindR (helper_next s (payload qb)) (\<lambda>nxt. no_holes_loop s (payload qb) nxt)))))"

definition ip_reass_chain_frag_into_datagram_and_validate ::
  "'w lwip \<Rightarrow> nat \<Rightarrow> nat \<Rightarrow> bool \<Rightarrow> ('w lwip \<times> ip_reass_validate) res" where
  "ip_reass_chain_frag_into_datagram_and_validate s ipr new_p is_last =
     bindR (deref (eps s) (Some new_p)) (\<lambda>nb.
     let iprh = payload nb in
     bindR (load16 (mem s) (iprh + 2)) (\<lambda>iplen.
     bindR (load8 (mem s) iprh) (\<lambda>v_hl.
     let hlen = (v_hl AND 0x0f) * 4 in
     if ucast hlen > lwip_htons iplen then ret (s, IP_REASS_VALIDATE_PBUF_DROPPED)
     else
       bindR (load16 (mem s) (iprh + 6)) (\<lambda>ipoff.
       let flen = lwip_htons iplen - ucast hlen;
           offset = (lwip_htons ipoff AND IP_OFFMASK) * 8 in
       bindR (store_all s [(iprh, bytes_ptr None), (iprh + 8, bytes16 offset), (iprh + 10, bytes16 (offset + flen))]) (\<lambda>s1.
       if offset + flen < offset then ret (s1, IP_REASS_VALIDATE_PBUF_DROPPED)
       else
         bindR (ipr_at s1 ipr) (\<lambda>r.
         bindR (chain_frag_loop s1 ipr new_p iprh offset (offset + flen) (ipr_p r) None True) (\<lambda>(s2, v).
         case v of
           None \<Rightarrow> ret (s2, IP_REASS_VALIDATE_PBUF_DROPPED)
         | Some (q, iprh_prev, valid0) \<Rightarrow>
             bindR
               (if q \<noteq> None then ret (s2, valid0)
                else
                  (case iprh_prev of
                     Some pv \<Rightarrow>
                       bindR (helper_end s2 pv) (\<lambda>prev_end.
                       bindR (lwip_assert (prev_end \<le> offset)) (\<lambda>_.
                       bindR (set_next s2 pv (Some new_p)) (\<lambda>s3. ret (s3, valid0 \<and> prev_end = offset))))
                   | None \<Rightarrow>
                       bindR (ipr_at s2 ipr) (\<lambda>r2.
                       bindR (lwip_assert (ipr_p r2 = None)) (\<lambda>_.
                       bindR (ipr_upd s2 ipr (\<lambda>r. r\<lparr>ipr_p := Some new_p\<rparr>)) (\<lambda>s3. ret (s3, valid0)))))) (\<lambda>(s4, valid).
             bindR (ipr_at s4 ipr) (\<lambda>r4.
             if is_last \<or> ipr_flags r4 AND IP_REASS_FLAG_LASTFRAG \<noteq> 0 then
               if \<not> valid \<or> ipr_p r4 = None then ret (s4, IP_REASS_VALIDATE_PBUF_QUEUED)
               else
                 bindR (deref (eps s4) (ipr_p r4)) (\<lambda>pb.
                 bindR (helper_start s4 (payload pb)) (\<lambda>start0.
                 if start0 \<noteq> 0 then ret (s4, IP_REASS_VALIDATE_PBUF_QUEUED)
                 else
                   bindR (helper_next s4 iprh) (\<lambda>nxt.
                   bindR (no_holes_loop s4 iprh nxt) (\<lambda>(valid5, iprh5).
                   if \<not> valid5 then ret (s4, IP_REASS_VALIDATE_PBUF_QUEUED)
                   else
                     bindR (lwip_assert (payload pb \<noteq> iprh5)) (\<lambda>_.
                     bindR (helper_next s4 iprh5) (\<lambda>nxt5.
                     bindR (lwip_assert (nxt5 = None)) (\<lambda>_.
                     ret (s4, IP_REASS_VALIDATE_TELEGRAM_FINISHED))))))))
             else ret (s4, IP_REASS_VALIDATE_PBUF_QUEUED))))))))))"

section \<open>Reassembly\<close>

fun find_datagram :: "'w lwip \<Rightarrow> nat \<Rightarrow> nat list \<Rightarrow> nat option res" where
  "find_datagram s fraghdr [] = ret None"
| "find_datagram s fraghdr (r # rs) =
     bindR (ipr_at s r) (\<lambda>d.
     bindR (IP_ADDRESSES_AND_ID_MATCH (ipr_iphdr d) (mem s) fraghdr) (\<lambda>same.
     if same then ret (Some r) else find_datagram s fraghdr rs))"

partial_function (option) reass_cat_loop :: "'w lwip \<Rightarrow> nat \<Rightarrow> nat option \<Rightarrow> 'w lwip res" where
  "reass_cat_loop s p r =
     (if r = None then ret s
      else
        bindR (deref (eps s) r) (\<lambda>rb.
        let iprh = payload rb in
        bindR (liftP s (pbuf_remove_header (eps s) r (of_nat IP_HLEN))) (\<lambda>(s1, _).
        bindR (pbuf_cat (eps s1) (Some p) r) (\<lambda>ps2.
        bindR (helper_next (s1\<lparr>eps := ps2\<rparr>) iprh) (\<lambda>nxt.
        reass_cat_loop (s1\<lparr>eps := ps2\<rparr>) p nxt)))))"

text \<open>The part of \<open>ip4_reass\<close> for a datagram whose fragments are all there.\<close>

definition reass_finish :: "'w lwip \<Rightarrow> nat \<Rightarrow> ('w lwip \<times> nat option) res" where
  "reass_finish s ipr =
     bindR (ipr_at s ipr) (\<lambda>d.
     bindR (deref (eps s) (ipr_p d)) (\<lambda>b.
     let fraghdr = payload b; p = the (ipr_p d) in
     bindR (helper_next s fraghdr) (\<lambda>r.
     bindR (store_all s [(fraghdr, ipr_iphdr d),
       (fraghdr + 2, bytes16 (lwip_htons (datagram_len d + of_nat IP_HLEN))),
       (fraghdr + 6, bytes16 0), (fraghdr + 10, bytes16 0)]) (\<lambda>s1.
     bindR (inet_chksum LWIP_CHKSUM (mem s1) fraghdr (of_nat IP_HLEN)) (\<lambda>chksum.
     bindR (store_bytes s1 (fraghdr + 10) (bytes16 chksum)) (\<lambda>s2.
     bindR (reass_cat_loop s2 p r) (\<lambda>s3.
     bindR (ip_reass_dequeue_datagram s3 ipr) (\<lambda>s4.
     bindR (pbuf_clen (eps s4) (Some p)) (\<lambda>clen.
     bindR (lwip_assert (ip_reass_pbufcount (ip4 s4) \<ge> clen)) (\<lambda>_.
     ret (s4\<lparr>ip4 := (ip4 s4)\<lparr>ip_reass_pbufcount := ip_reass_pbufcount (ip4 s4) - clen\<rparr>\<rparr>, Some p)))))))))))"

text \<open>The labels \<open>nullreturn\<close> and \<open>nullreturn_ipr\<close>.\<close>

definition reass_nullreturn :: "'w lenv \<Rightarrow> 'w lwip \<Rightarrow> nat \<Rightarrow> ('w lwip \<times> nat option) res" where
  "reass_nullreturn E s p =
     bindR (free_pbuf E (ipfrag_stats_inc sp_drop_update s) p) (\<lambda>s1. ret (s1, None))"

definition reass_nullreturn_ipr :: "'w lenv \<Rightarrow> 'w lwip \<Rightarrow> nat \<Rightarrow> nat \<Rightarrow> ('w lwip \<times> nat option) res" where
  "reass_nullreturn_ipr E s ipr p =
     bindR (ipr_at s ipr) (\<lambda>d.
     bindR (if ipr_p d = None
            then bindR (lwip_assert (reassdatagrams (ip4 s) \<noteq> [] \<and> ipr = hd (reassdatagrams (ip4 s)))) (\<lambda>_.
                 ip_reass_dequeue_datagram s ipr)
            else ret s) (\<lambda>s1.
     reass_nullreturn E s1 p))"

text \<open>The part of \<open>ip4_reass\<close> after the limit on the number of pbufs: the datagram of the fragment.\<close>

definition reass_datagram :: "'w lenv \<Rightarrow> 'w lwip \<Rightarrow> nat \<Rightarrow> nat \<Rightarrow> ('w lwip \<times> nat option) res" where
  "reass_datagram E s fraghdr clen =
     bindR (find_datagram s fraghdr (reassdatagrams (ip4 s))) (\<lambda>found.
     case found of
       None \<Rightarrow> ip_reass_enqueue_new_datagram E s fraghdr clen
     | Some ipr \<Rightarrow>
         let s1 = ipfrag_stats_inc sp_cachehit_update s in
         bindR (load16 (mem s1) (fraghdr + 6)) (\<lambda>ipoff.
         bindR (ipr_at s1 ipr) (\<lambda>d.
         if lwip_htons ipoff AND IP_OFFMASK = 0 \<and>
            (ucast (ipr_iphdr d ! 6) * 256 + ucast (ipr_iphdr d ! 7)) AND IP_OFFMASK \<noteq> 0
         then
           bindR (mread (mem s1) fraghdr IP_HLEN) (\<lambda>hdr.
           bindR (ipr_upd s1 ipr (\<lambda>d. d\<lparr>ipr_iphdr := hdr\<rparr>)) (\<lambda>s2. ret (s2, Some ipr)))
         else ret (s1, Some ipr))))"

definition ip4_reass :: "'w lenv \<Rightarrow> 'w lwip \<Rightarrow> nat \<Rightarrow> ('w lwip \<times> nat option) res" where
  "ip4_reass E s0 p =
     (let s = ipfrag_stats_inc sp_recv_update s0 in
      bindR (deref (eps s) (Some p)) (\<lambda>b.
      let fraghdr = payload b in
      bindR (load8 (mem s) fraghdr) (\<lambda>v_hl.
      if (v_hl AND 0x0f) * 4 \<noteq> of_nat IP_HLEN
      then reass_nullreturn E (ipfrag_stats_inc sp_err_update s) p
      else
        bindR (load16 (mem s) (fraghdr + 6)) (\<lambda>ipoff.
        bindR (load16 (mem s) (fraghdr + 2)) (\<lambda>iplen.
        if of_nat IP_HLEN > lwip_htons iplen then reass_nullreturn E s p
        else
          let offset = (lwip_htons ipoff AND IP_OFFMASK) * 8;
              flen = lwip_htons iplen - of_nat IP_HLEN;
              is_last = (ipoff AND lwip_htons IP_MF = 0) in
          bindR (pbuf_clen (eps s) (Some p)) (\<lambda>clen.
          bindR
            (if unat (ip_reass_pbufcount (ip4 s)) + unat clen > IP_REASS_MAX_PBUFS then
               bindR (ip_reass_remove_oldest_datagram E s fraghdr (unat clen)) (\<lambda>(s1, freed).
               ret (s1, freed = 0 \<or> unat (ip_reass_pbufcount (ip4 s1)) + unat clen > IP_REASS_MAX_PBUFS))
             else ret (s, False)) (\<lambda>(s1, full).
          if full then reass_nullreturn E (ipfrag_stats_inc sp_memerr_update s1) p
          else
            bindR (reass_datagram E s1 fraghdr (unat clen)) (\<lambda>(s2, r).
            case r of
              None \<Rightarrow> reass_nullreturn E s2 p
            | Some ipr \<Rightarrow>
                if is_last \<and> (offset + flen < offset \<or> offset + flen > 0xFFFF - of_nat IP_HLEN)
                then reass_nullreturn_ipr E s2 ipr p
                else
                  bindR (ip_reass_chain_frag_into_datagram_and_validate s2 ipr p is_last) (\<lambda>(s3, valid).
                  if valid = IP_REASS_VALIDATE_PBUF_DROPPED then reass_nullreturn_ipr E s3 ipr p
                  else
                    let s4 = s3\<lparr>ip4 := (ip4 s3)\<lparr>ip_reass_pbufcount := ip_reass_pbufcount (ip4 s3) + clen\<rparr>\<rparr> in
                    bindR (if is_last
                           then ipr_upd s4 ipr (\<lambda>d. d\<lparr>datagram_len := offset + flen,
                             ipr_flags := ipr_flags d OR IP_REASS_FLAG_LASTFRAG\<rparr>)
                           else ret s4) (\<lambda>s5.
                    if valid = IP_REASS_VALIDATE_TELEGRAM_FINISHED then reass_finish s5 ipr
                    else ret (s5, None)))))))))))"

end
