(* ===== verification/Raw.thy ===== *)
theory Raw
  imports Netif_Find
begin

text \<open>
  Raw protocol control blocks, \<open>core/raw.c\<close>. The list \<open>raw_pcbs\<close> is a list of addresses and
  \<open>list_next\<close> is the field \<open>next\<close>: a receive callback may change the list while \<open>raw_input\<close> walks
  it.
\<close>

abbreviation (input) RAW_FLAGS_CONNECTED :: u8 where "RAW_FLAGS_CONNECTED \<equiv> 0x01"
abbreviation (input) RAW_FLAGS_HDRINCL :: u8 where "RAW_FLAGS_HDRINCL \<equiv> 0x02"
abbreviation (input) RAW_TTL :: u8 where "RAW_TTL \<equiv> 255"

datatype raw_input_state_t = RAW_INPUT_NONE | RAW_INPUT_EATEN | RAW_INPUT_DELIVERED

section \<open>Access\<close>

definition raw_at :: "'w lwip \<Rightarrow> nat \<Rightarrow> raw_pcb res" where
  "raw_at s a = (case raw_pcb_map (raw s) a of None \<Rightarrow> fault Bad_pointer | Some c \<Rightarrow> ret c)"

definition raw_upd :: "'w lwip \<Rightarrow> nat \<Rightarrow> (raw_pcb \<Rightarrow> raw_pcb) \<Rightarrow> 'w lwip res" where
  "raw_upd s a f =
     bindR (raw_at s a) (\<lambda>c. ret (s\<lparr>raw := (raw s)\<lparr>raw_pcb_map := (raw_pcb_map (raw s))(a \<mapsto> f c)\<rparr>\<rparr>))"

definition list_next :: "nat list \<Rightarrow> nat \<Rightarrow> nat option" where
  "list_next xs a = (case dropWhile (\<lambda>x. x \<noteq> a) xs of _ # b # _ \<Rightarrow> Some b | _ \<Rightarrow> None)"

definition list_first :: "nat list \<Rightarrow> nat option" where
  "list_first xs = (case xs of [] \<Rightarrow> None | x # _ \<Rightarrow> Some x)"

section \<open>Input\<close>

definition raw_input_local_match :: "'w lwip \<Rightarrow> raw_pcb \<Rightarrow> bool \<Rightarrow> bool res" where
  "raw_input_local_match s pcb broadcast =
     bindR (if netif_idx pcb \<noteq> NETIF_NO_INDEX
            then bindR (netif_at s (current_input_netif (ip_data s))) (\<lambda>n. ret (netif_idx pcb \<noteq> netif_get_index n))
            else ret False) (\<lambda>other_netif.
     if other_netif then ret False
     else if broadcast then ret (ip4_addr_isany_val (local_ip pcb))
     else ret (ip4_addr_isany_val (local_ip pcb) \<or> local_ip pcb = current_iphdr_dest (ip_data s)))"

partial_function (option) raw_input_loop ::
  "'w lenv \<Rightarrow> 'w lwip \<Rightarrow> nat \<Rightarrow> u8 \<Rightarrow> bool \<Rightarrow> nat option \<Rightarrow> nat option \<Rightarrow> raw_input_state_t \<Rightarrow>
   ('w lwip \<times> raw_input_state_t) res" where
  "raw_input_loop E s p proto broadcast prev pcbp st =
     (case pcbp of
        None \<Rightarrow> ret (s, st)
      | Some a \<Rightarrow>
          bindR (raw_at s a) (\<lambda>pcb.
          bindR (if protocol pcb = proto then raw_input_local_match s pcb broadcast else ret False) (\<lambda>local_match.
          if local_match \<and> (raw_flags pcb AND RAW_FLAGS_CONNECTED = 0 \<or> remote_ip pcb = current_iphdr_src (ip_data s))
             \<and> raw_recv_cb pcb \<noteq> None then
            bindR (deref (eps s) (Some p)) (\<lambda>b.
            bindR (raw_recv_fn E (the (raw_recv_cb pcb)) (raw_recv_arg pcb) a p (current_iphdr_src (ip_data s)) s) (\<lambda>(s1, eaten).
            if eaten \<noteq> 0 then
              ret (if prev \<noteq> None
                   then s1\<lparr>raw := (raw s1)\<lparr>raw_pcbs := a # remove1 a (raw_pcbs (raw s1))\<rparr>\<rparr>
                   else s1, RAW_INPUT_EATEN)
            else
              bindR (deref (eps s1) (Some p)) (\<lambda>b1.
              bindR (lwip_assert (payload b1 = payload b)) (\<lambda>_.
              bindR (raw_at s1 a) (\<lambda>_.
              raw_input_loop E s1 p proto broadcast (Some a) (list_next (raw_pcbs (raw s1)) a) RAW_INPUT_DELIVERED)))))
          else raw_input_loop E s p proto broadcast (Some a) (list_next (raw_pcbs (raw s)) a) st)))"

definition raw_input :: "'w lenv \<Rightarrow> 'w lwip \<Rightarrow> nat \<Rightarrow> nat \<Rightarrow> ('w lwip \<times> raw_input_state_t) res" where
  "raw_input E s p inp =
     bindR (netif_at s (current_netif (ip_data s))) (\<lambda>n.
     bindR (deref (eps s) (Some p)) (\<lambda>b.
     bindR (load8 (mem s) (payload b + 9)) (\<lambda>proto.
     raw_input_loop E s p proto (ip4_addr_isbroadcast_u32 (current_iphdr_dest (ip_data s)) n) None
       (list_first (raw_pcbs (raw s))) RAW_INPUT_NONE)))"

section \<open>Configuration\<close>

definition raw_bind :: "'w lwip \<Rightarrow> nat option \<Rightarrow> u32 option \<Rightarrow> ('w lwip \<times> err_t) res" where
  "raw_bind s pcb ipaddr =
     (case pcb of None \<Rightarrow> ret (s, ERR_VAL) | Some a \<Rightarrow>
      case ipaddr of None \<Rightarrow> ret (s, ERR_VAL) | Some ip \<Rightarrow>
      bindR (raw_upd s a (\<lambda>c. c\<lparr>local_ip := ip\<rparr>)) (\<lambda>s1. ret (s1, ERR_OK)))"

definition raw_bind_netif :: "'w lwip \<Rightarrow> nat \<Rightarrow> nat option \<Rightarrow> 'w lwip res" where
  "raw_bind_netif s pcb nif =
     (if nif \<noteq> None
      then bindR (netif_at s nif) (\<lambda>n. raw_upd s pcb (\<lambda>c. c\<lparr>netif_idx := netif_get_index n\<rparr>))
      else raw_upd s pcb (\<lambda>c. c\<lparr>netif_idx := NETIF_NO_INDEX\<rparr>))"

definition raw_connect :: "'w lwip \<Rightarrow> nat option \<Rightarrow> u32 option \<Rightarrow> ('w lwip \<times> err_t) res" where
  "raw_connect s pcb ipaddr =
     (case pcb of None \<Rightarrow> ret (s, ERR_VAL) | Some a \<Rightarrow>
      case ipaddr of None \<Rightarrow> ret (s, ERR_VAL) | Some ip \<Rightarrow>
      bindR (raw_upd s a (\<lambda>c. c\<lparr>remote_ip := ip, raw_flags := raw_flags c OR RAW_FLAGS_CONNECTED\<rparr>)) (\<lambda>s1.
      ret (s1, ERR_OK)))"

definition raw_disconnect :: "'w lwip \<Rightarrow> nat \<Rightarrow> 'w lwip res" where
  "raw_disconnect s pcb =
     raw_upd s pcb (\<lambda>c. c\<lparr>remote_ip := IPADDR_ANY, netif_idx := NETIF_NO_INDEX,
       raw_flags := raw_flags c AND NOT RAW_FLAGS_CONNECTED\<rparr>)"

definition raw_recv :: "'w lwip \<Rightarrow> nat \<Rightarrow> nat option \<Rightarrow> nat \<Rightarrow> 'w lwip res" where
  "raw_recv s pcb recv recv_arg = raw_upd s pcb (\<lambda>c. c\<lparr>raw_recv_cb := recv, raw_recv_arg := recv_arg\<rparr>)"

definition raw_remove :: "'w lwip \<Rightarrow> nat \<Rightarrow> 'w lwip" where
  "raw_remove s pcb =
     s\<lparr>raw := (raw s)\<lparr>raw_pcbs := remove1 pcb (raw_pcbs (raw s)), raw_pcb_map := (raw_pcb_map (raw s))(pcb := None),
       memp_raw_pcb := do_memp_free_pool (memp_raw_pcb (raw s)) pcb\<rparr>\<rparr>"

definition raw_new :: "'w lwip \<Rightarrow> u8 \<Rightarrow> 'w lwip \<times> nat option" where
  "raw_new s proto =
     (case do_memp_malloc_pool (memp_raw_pcb (raw s)) of (d, r) \<Rightarrow>
      (case r of
         None \<Rightarrow> (s\<lparr>raw := (raw s)\<lparr>memp_raw_pcb := d\<rparr>\<rparr>, None)
       | Some a \<Rightarrow>
           (s\<lparr>raw := (raw s)\<lparr>memp_raw_pcb := d, raw_pcbs := a # raw_pcbs (raw s),
              raw_pcb_map := (raw_pcb_map (raw s))(a \<mapsto> \<lparr>local_ip = 0, remote_ip = 0, netif_idx = 0, so_options = 0,
                pcb_tos = 0, pcb_ttl = RAW_TTL, protocol = proto, raw_flags = 0, raw_recv_cb = None, raw_recv_arg = 0\<rparr>)\<rparr>\<rparr>,
            Some a)))"

definition raw_new_ip_type :: "'w lwip \<Rightarrow> u8 \<Rightarrow> u8 \<Rightarrow> 'w lwip \<times> nat option" where
  "raw_new_ip_type s type proto = raw_new s proto"

fun raw_addr_changed_loop :: "'w lwip \<Rightarrow> u32 \<Rightarrow> u32 \<Rightarrow> nat list \<Rightarrow> 'w lwip res" where
  "raw_addr_changed_loop s old_addr new_addr [] = ret s"
| "raw_addr_changed_loop s old_addr new_addr (a # as) =
     bindR (raw_upd s a (\<lambda>c. if local_ip c = old_addr then c\<lparr>local_ip := new_addr\<rparr> else c)) (\<lambda>s1.
     raw_addr_changed_loop s1 old_addr new_addr as)"

definition raw_netif_ip_addr_changed :: "'w lwip \<Rightarrow> u32 \<Rightarrow> u32 option \<Rightarrow> 'w lwip res" where
  "raw_netif_ip_addr_changed s old_addr new_addr =
     (case new_addr of
        None \<Rightarrow> ret s
      | Some new \<Rightarrow>
          if \<not> ip4_addr_isany_val old_addr \<and> \<not> ip4_addr_isany_val new
          then raw_addr_changed_loop s old_addr new (raw_pcbs (raw s))
          else ret s)"

section \<open>Output\<close>

definition raw_sendto_if_src ::
  "'w lenv \<Rightarrow> 'w lwip \<Rightarrow> nat option \<Rightarrow> nat \<Rightarrow> u32 option \<Rightarrow> nat option \<Rightarrow> u32 option \<Rightarrow> ('w lwip \<times> err_t) res" where
  "raw_sendto_if_src E s pcbp p dst_ip nif src_ip =
     (if pcbp = None \<or> dst_ip = None \<or> nif = None \<or> src_ip = None then ret (s, ERR_VAL)
      else
        bindR (raw_at s (the pcbp)) (\<lambda>pcb.
        bindR (deref (eps s) (Some p)) (\<lambda>b.
        if raw_flags pcb AND RAW_FLAGS_HDRINCL \<noteq> 0 then
          if len b < of_nat IP_HLEN then ret (s, ERR_VAL)
          else ip4_output_if E s p src_ip None 0 0 0 (the nif)
        else if tot_len b + of_nat IP_HLEN < tot_len b then ret (s, ERR_MEM)
        else
          bindR (liftP s (pbuf_add_header (eps s) (Some p) (of_nat IP_HLEN))) (\<lambda>(s1, r1).
          bindR
            (if r1 \<noteq> 0 then
               bindR (liftP s1 (pbuf_alloc (penv_of E) (eps s1) PBUF_IP 0 PBUF_RAM)) (\<lambda>(s2, q).
               if q = None then ret (s2, None)
               else
                 bindR (deref (eps s2) (Some p)) (\<lambda>b2.
                 if tot_len b2 \<noteq> 0
                 then bindR (pbuf_chain (eps s2) q (Some p)) (\<lambda>ps3. ret (s2\<lparr>eps := ps3\<rparr>, q))
                 else ret (s2, q)))
             else
               bindR (liftP s1 (pbuf_remove_header (eps s1) (Some p) (of_nat IP_HLEN))) (\<lambda>(s2, r2).
               bindR (lwip_assert (r2 = 0)) (\<lambda>_. ret (s2, Some p)))) (\<lambda>(s4, q).
          case q of
            None \<Rightarrow> ret (s4, ERR_MEM)
          | Some qp \<Rightarrow>
              bindR (ip4_output_if E s4 qp src_ip dst_ip (pcb_ttl pcb) (pcb_tos pcb) (protocol pcb) (the nif)) (\<lambda>(s5, err).
              if qp \<noteq> p then bindR (free_pbuf E s5 qp) (\<lambda>s6. ret (s6, err))
              else ret (s5, err)))))))"

definition raw_sendto ::
  "'w lenv \<Rightarrow> 'w lwip \<Rightarrow> nat option \<Rightarrow> nat \<Rightarrow> u32 option \<Rightarrow> ('w lwip \<times> err_t) res" where
  "raw_sendto E s pcbp p ipaddr =
     (if pcbp = None \<or> ipaddr = None then ret (s, ERR_VAL)
      else
        bindR (raw_at s (the pcbp)) (\<lambda>pcb.
        bindR (if netif_idx pcb \<noteq> NETIF_NO_INDEX
               then bindR (netif_get_by_index s (netif_idx pcb)) (\<lambda>r. ret (s, r))
               else ip4_route s (the ipaddr)) (\<lambda>(s1, nif).
        if nif = None then ret (s1, ERR_RTE)
        else
          bindR (if ip4_addr_isany_val (local_ip pcb) \<or> ip4_addr_ismulticast (local_ip pcb)
                 then bindR (netif_at s1 nif) (\<lambda>n. ret (ip_addr n))
                 else ret (local_ip pcb)) (\<lambda>src_ip.
          raw_sendto_if_src E s1 pcbp p ipaddr nif (Some src_ip)))))"

definition raw_send :: "'w lenv \<Rightarrow> 'w lwip \<Rightarrow> nat \<Rightarrow> nat \<Rightarrow> ('w lwip \<times> err_t) res" where
  "raw_send E s pcbp p = bindR (raw_at s pcbp) (\<lambda>pcb. raw_sendto E s (Some pcbp) p (Some (remote_ip pcb)))"

end
