(* ===== verification/Ip4_In.thy ===== *)
theory Ip4_In
  imports Ip4_Reass Udp Raw
begin

text \<open>
  Input of IPv4 packets, \<open>ip4_input\<close> of \<open>core/ipv4/ip4.c\<close> (\<open>IP_FORWARD = 0\<close>,
  \<open>IP_REASSEMBLY = 1\<close>, \<open>IP_OPTIONS_ALLOWED = 1\<close>, \<open>LWIP_IGMP = 0\<close>, \<open>LWIP_DHCP = 1\<close>, no hooks).
  \<open>tcp_input\<close> is called through the environment.
\<close>

abbreviation (input) LWIP_IANA_PORT_DHCP_CLIENT :: u16 where "LWIP_IANA_PORT_DHCP_CLIENT \<equiv> 68"

definition ip4_input_accept :: "'w lwip \<Rightarrow> netif \<Rightarrow> bool" where
  "ip4_input_accept s n \<longleftrightarrow>
     netif_is_up n \<and> \<not> ip4_addr_isany_val (ip_addr n) \<and>
     (current_iphdr_dest (ip_data s) = ip_addr n \<or> ip4_addr_isbroadcast_u32 (current_iphdr_dest (ip_data s)) n)"

fun accept_loop :: "'w lwip \<Rightarrow> nat \<Rightarrow> nat list \<Rightarrow> nat option res" where
  "accept_loop s inp [] = ret None"
| "accept_loop s inp (nif # nifs) =
     (if nif = inp then accept_loop s inp nifs
      else bindR (netif_at s (Some nif)) (\<lambda>n.
           if ip4_input_accept s n then ret (Some nif) else accept_loop s inp nifs))"

text \<open>The interface that the packet is for, or \<open>None\<close>.\<close>

definition ip4_input_netif :: "'w lwip \<Rightarrow> nat \<Rightarrow> nat option res" where
  "ip4_input_netif s inp =
     bindR (netif_at s (Some inp)) (\<lambda>n.
     let dest = current_iphdr_dest (ip_data s) in
     if ip4_addr_ismulticast dest then
       ret (if netif_is_up n \<and> \<not> ip4_addr_isany_val (ip_addr n) then Some inp else None)
     else if ip4_input_accept s n then ret (Some inp)
     else if \<not> ip4_addr_isloopback dest then accept_loop s inp (netif_list s)
     else ret None)"

text \<open>The packet is handed to the protocol above; \<open>iphdr_hlen\<close> is the length of its header.\<close>

definition ip4_input_deliver :: "'w lenv \<Rightarrow> 'w lwip \<Rightarrow> nat \<Rightarrow> nat \<Rightarrow> nat \<Rightarrow> nat \<Rightarrow> u16 \<Rightarrow> 'w lwip res" where
  "ip4_input_deliver E s p inp nif iphdr iphdr_hlen =
     bindR (raw_input E s p inp) (\<lambda>(s1, raw_status).
     if raw_status = RAW_INPUT_EATEN then ret s1
     else
       bindR (liftP s1 (pbuf_remove_header (eps s1) (Some p) (ucast iphdr_hlen))) (\<lambda>(s2, _).
       bindR (load8 (mem s2) (iphdr + 9)) (\<lambda>proto.
       if proto = IP_PROTO_UDP then udp_input E s2 p inp
       else if proto = IP_PROTO_TCP then tcp_input_fn E p inp s2
       else if proto = IP_PROTO_ICMP then icmp_input E s2 p inp
       else
         bindR
           (if raw_status = RAW_INPUT_DELIVERED then ret s2
            else
              bindR (netif_at s2 (Some nif)) (\<lambda>n.
              let dest = current_iphdr_dest (ip_data s2) in
              bindR
                (if \<not> ip4_addr_isbroadcast_u32 dest n \<and> \<not> ip4_addr_ismulticast dest then
                   bindR (liftP s2 (pbuf_header_force (eps s2) (Some p) iphdr_hlen)) (\<lambda>(s3, _).
                   icmp_dest_unreach E s3 p ICMP_DUR_PROTO)
                 else ret s2) (\<lambda>s4.
              ret (ip_stats_inc sp_drop_update (ip_stats_inc sp_proterr_update s4))))) (\<lambda>s5.
         free_pbuf E s5 p))))"

definition ip4_input :: "'w lenv \<Rightarrow> 'w lwip \<Rightarrow> nat \<Rightarrow> nat \<Rightarrow> 'w lwip res" where
  "ip4_input E s00 p inp =
     (let s0 = ip_stats_inc sp_recv_update s00;
          drop_packet = (\<lambda>f s. bindR (free_pbuf E s p) (\<lambda>s1. ret (ip_stats_inc sp_drop_update (ip_stats_inc f s1)))) in
      bindR (deref (eps s0) (Some p)) (\<lambda>b.
      let iphdr = payload b in
      bindR (load8 (mem s0) iphdr) (\<lambda>v_hl.
      if drop_bit 4 v_hl \<noteq> 4 then drop_packet sp_err_update s0
      else
        let iphdr_hlen = ucast ((v_hl AND 0x0f) * 4) :: u16 in
        bindR (load16 (mem s0) (iphdr + 2)) (\<lambda>iplen.
        let iphdr_len = lwip_htons iplen in
        bindR (if iphdr_len < tot_len b
               then bindR (pbuf_realloc (penv_of E) (eps s0) (Some p) iphdr_len) (\<lambda>ps. ret (s0\<lparr>eps := ps\<rparr>))
               else ret s0) (\<lambda>s1.
        bindR (deref (eps s1) (Some p)) (\<lambda>b1.
        if iphdr_hlen > len b1 \<or> iphdr_len > tot_len b1 \<or> iphdr_hlen < of_nat IP_HLEN
        then drop_packet sp_lenerr_update s1
        else
          bindR (inet_chksum LWIP_CHKSUM (mem s1) iphdr iphdr_hlen) (\<lambda>chksum.
          if chksum \<noteq> 0 then drop_packet sp_chkerr_update s1
          else
            bindR (load32 (mem s1) (iphdr + 16)) (\<lambda>dest.
            bindR (load32 (mem s1) (iphdr + 12)) (\<lambda>src.
            let s2 = s1\<lparr>ip_data := (ip_data s1)\<lparr>current_iphdr_dest := dest, current_iphdr_src := src\<rparr>\<rparr> in
            bindR (ip4_input_netif s2 inp) (\<lambda>nif0.
            bindR (load8 (mem s2) (iphdr + 9)) (\<lambda>proto.
            bindR (if nif0 = None \<and> proto = IP_PROTO_UDP
                   then bindR (load16 (mem s2) (iphdr + unat iphdr_hlen + 2)) (\<lambda>udest.
                        ret (udest = lwip_htons LWIP_IANA_PORT_DHCP_CLIENT))
                   else ret False) (\<lambda>dhcp.
            let nif = (if dhcp then Some inp else nif0) in
            bindR (netif_at s2 (Some inp)) (\<lambda>n.
            if \<not> dhcp \<and> \<not> ip4_addr_isany_val src \<and> (ip4_addr_isbroadcast_u32 src n \<or> ip4_addr_ismulticast src)
            then bindR (free_pbuf E s2 p) (\<lambda>s3. ret (ip_stats_inc sp_drop_update s3))
            else
              (case nif of
                 None \<Rightarrow> free_pbuf E (ip_stats_inc sp_drop_update s2) p
               | Some nifp \<Rightarrow>
                   bindR (load16 (mem s2) (iphdr + 6)) (\<lambda>ipoff.
                   bindR
                     (if ipoff AND lwip_htons (IP_OFFMASK OR IP_MF) \<noteq> 0 then ip4_reass E s2 p
                      else ret (s2, Some p)) (\<lambda>(s3, r).
                   case r of
                     None \<Rightarrow> ret s3
                   | Some q \<Rightarrow>
                       bindR (deref (eps s3) r) (\<lambda>qb.
                       bindR (load8 (mem s3) (payload qb)) (\<lambda>v_hl3.
                       let s4 = s3\<lparr>ip_data := (ip_data s3)\<lparr>current_netif := nif, current_input_netif := Some inp,
                             current_ip4_header := Some (payload qb),
                             current_ip_header_tot_len := ucast ((v_hl3 AND 0x0f) * 4)\<rparr>\<rparr> in
                       bindR (ip4_input_deliver E s4 q inp nifp (payload qb) iphdr_hlen) (\<lambda>s5.
                       ret (s5\<lparr>ip_data := (ip_data s5)\<lparr>current_netif := None, current_input_netif := None,
                         current_ip4_header := None, current_ip_header_tot_len := 0,
                         current_iphdr_src := IPADDR_ANY, current_iphdr_dest := IPADDR_ANY\<rparr>\<rparr>))))))))))))))))))))"

end
