(* ===== verification/Ethernet.thy ===== *)
theory Ethernet
  imports Ip4_In
begin

text \<open>
  Input of frames: \<open>etharp_input\<close> of \<open>core/ipv4/etharp.c\<close> and \<open>ethernet_input\<close> of
  \<open>netif/ethernet.c\<close> (\<open>ETHARP_SUPPORT_VLAN = 0\<close>, no hooks, IPv4 only).
\<close>

abbreviation (input) PBUF_FLAG_LLBCAST :: u8 where "PBUF_FLAG_LLBCAST \<equiv> 0x08"
abbreviation (input) PBUF_FLAG_LLMCAST :: u8 where "PBUF_FLAG_LLMCAST \<equiv> 0x10"

text \<open>The test of RFC 826, evaluated from left to right up to the first difference.\<close>

definition etharp_hdr_ok :: "bytes \<Rightarrow> nat \<Rightarrow> bool res" where
  "etharp_hdr_ok m hdr =
     bindR (load16 m hdr) (\<lambda>hwtype.
     if hwtype \<noteq> lwip_htons LWIP_IANA_HWTYPE_ETHERNET then ret False
     else bindR (load8 m (hdr + 4)) (\<lambda>hwlen.
     if hwlen \<noteq> ETH_HWADDR_LEN then ret False
     else bindR (load8 m (hdr + 5)) (\<lambda>protolen.
     if protolen \<noteq> 4 then ret False
     else bindR (load16 m (hdr + 2)) (\<lambda>proto.
     ret (proto = lwip_htons ETHTYPE_IP)))))"

definition etharp_input :: "'w lenv \<Rightarrow> 'w lwip \<Rightarrow> nat \<Rightarrow> nat option \<Rightarrow> 'w lwip res" where
  "etharp_input E s p nif =
     (case nif of None \<Rightarrow> ret s | Some nifp \<Rightarrow>
      bindR (deref (eps s) (Some p)) (\<lambda>b.
      let hdr = payload b in
      bindR (etharp_hdr_ok (mem s) hdr) (\<lambda>ok.
      if \<not> ok then free_pbuf E (etharp_stats_inc sp_drop_update (etharp_stats_inc sp_proterr_update s)) p
      else
        bindR (acd_arp_reply E (etharp_stats_inc sp_recv_update s) nifp hdr) (\<lambda>s1.
        bindR (load32 (mem s1) (hdr + 14)) (\<lambda>sipaddr.
        bindR (load32 (mem s1) (hdr + 24)) (\<lambda>dipaddr.
        bindR (netif_at s1 nif) (\<lambda>n.
        let configured = (\<not> ip4_addr_isany_val (ip_addr n));
            for_us = (configured \<and> dipaddr = ip_addr n);
            from_us = (configured \<and> sipaddr = ip_addr n) in
        bindR (mread (mem s1) (hdr + 8) 6) (\<lambda>shwaddr.
        bindR (etharp_update_arp_entry E s1 nifp sipaddr shwaddr
                 (if for_us then ETHARP_FLAG_TRY_HARD else ETHARP_FLAG_FIND_ONLY)) (\<lambda>(s2, _).
        bindR (load16 (mem s2) (hdr + 6)) (\<lambda>opcode.
        bindR
          (if opcode = lwip_htons ARP_REQUEST then
             if for_us \<and> \<not> from_us then
               bindR (netif_at s2 nif) (\<lambda>n2.
               bindR (mread (mem s2) (hdr + 8) 6) (\<lambda>shwaddr2.
               bindR (etharp_raw E s2 nif (hwaddr n2) shwaddr2 (hwaddr n2) (ip_addr n2) shwaddr2 sipaddr ARP_REPLY)
                 (\<lambda>(s3, _). ret s3)))
             else ret s2
           else if opcode = lwip_htons ARP_REPLY then ret s2
           else ret (etharp_stats_inc sp_err_update s2)) (\<lambda>s4.
        free_pbuf E s4 p)))))))))))"

text \<open>The flags that \<open>ethernet_input\<close> derives from the destination address.\<close>

definition link_layer_flags :: "u8 list \<Rightarrow> u8 \<Rightarrow> u8" where
  "link_layer_flags dest fl =
     (if dest ! 0 AND 1 \<noteq> 0 then
        if dest ! 0 = 0x01 then
          if dest ! 1 = 0x00 \<and> dest ! 2 = 0x5e then fl OR PBUF_FLAG_LLMCAST else fl
        else if dest = ethbroadcast then fl OR PBUF_FLAG_LLBCAST
        else fl
      else fl)"

definition ethernet_input :: "'w lenv \<Rightarrow> 'w lwip \<Rightarrow> nat \<Rightarrow> nat \<Rightarrow> ('w lwip \<times> err_t) res" where
  "ethernet_input E s p nif =
     (let free_and_return = (\<lambda>s1. bindR (free_pbuf E s1 p) (\<lambda>s2. ret (s2, ERR_OK))) in
      bindR (deref (eps s) (Some p)) (\<lambda>b.
      if unat (len b) \<le> SIZEOF_ETH_HDR
      then free_and_return (etharp_stats_inc sp_drop_update (etharp_stats_inc sp_proterr_update s))
      else
        bindR (load16 (mem s) (payload b + 12)) (\<lambda>type.
        bindR (netif_at s (Some nif)) (\<lambda>n.
        bindR (mread (mem s) (payload b) 6) (\<lambda>dest.
        let b1 = b\<lparr>if_idx := (if if_idx b = 0 then nif_num n + 1 else if_idx b),
                   flags := link_layer_flags dest (flags b)\<rparr>;
            s1 = s\<lparr>eps := upd (eps s) p b1\<rparr> in
        if type = lwip_htons ETHTYPE_IP then
          if nif_flags n AND NETIF_FLAG_ETHARP = 0 then free_and_return s1
          else
            bindR (liftP s1 (pbuf_remove_header (eps s1) (Some p) (of_nat SIZEOF_ETH_HDR))) (\<lambda>(s2, r).
            if r \<noteq> 0 then free_and_return s2
            else bindR (ip4_input E s2 p nif) (\<lambda>s3. ret (s3, ERR_OK)))
        else if type = lwip_htons ETHTYPE_ARP then
          if nif_flags n AND NETIF_FLAG_ETHARP = 0 then free_and_return s1
          else
            bindR (liftP s1 (pbuf_remove_header (eps s1) (Some p) (of_nat SIZEOF_ETH_HDR))) (\<lambda>(s2, r).
            if r \<noteq> 0
            then free_and_return (etharp_stats_inc sp_drop_update (etharp_stats_inc sp_lenerr_update s2))
            else bindR (etharp_input E s2 p (Some nif)) (\<lambda>s3. ret (s3, ERR_OK)))
        else free_and_return (etharp_stats_inc sp_drop_update (etharp_stats_inc sp_proterr_update s1)))))))"

end
