(* ===== verification/Netif.thy ===== *)
theory Netif
  imports Ethernet
begin

text \<open>
  The management of interfaces in \<open>core/netif.c\<close> (\<open>LWIP_SINGLE_NETIF = 0\<close>, no loopback, no
  status, link, remove and extended callbacks, \<open>LWIP_IGMP = 0\<close>, \<open>LWIP_ACD = 1\<close>). The
  initialisation functions of the drivers, TCP and DHCP are called through the environment.
\<close>

section \<open>Addresses\<close>

text \<open>With conflict detection compiled in and without IGMP and IPv6 there is nothing to report.\<close>

definition netif_issue_reports :: "'w lwip \<Rightarrow> nat option \<Rightarrow> u8 \<Rightarrow> 'w lwip res" where
  "netif_issue_reports s nif report_type =
     bindR (lwip_assert (nif \<noteq> None)) (\<lambda>_. bindR (netif_at s nif) (\<lambda>n. ret s))"

definition netif_do_ip_addr_changed :: "'w lenv \<Rightarrow> 'w lwip \<Rightarrow> u32 \<Rightarrow> u32 option \<Rightarrow> 'w lwip res" where
  "netif_do_ip_addr_changed E s old_addr new_addr =
     bindR (tcp_netif_ip_addr_changed_fn E old_addr new_addr s) (\<lambda>s1.
     bindR (udp_netif_ip_addr_changed s1 old_addr new_addr) (\<lambda>s2.
     raw_netif_ip_addr_changed s2 old_addr new_addr))"

definition netif_do_set_ipaddr :: "'w lenv \<Rightarrow> 'w lwip \<Rightarrow> nat \<Rightarrow> u32 \<Rightarrow> ('w lwip \<times> bool) res" where
  "netif_do_set_ipaddr E s nif ipaddr =
     bindR (netif_at s (Some nif)) (\<lambda>n.
     if ipaddr \<noteq> ip_addr n then
       bindR (netif_do_ip_addr_changed E s (ip_addr n) (Some ipaddr)) (\<lambda>s1.
       bindR (acd_netif_ip_addr_changed E s1 nif (ip_addr n) ipaddr) (\<lambda>s2.
       bindR (netif_upd s2 nif (\<lambda>n. n\<lparr>ip_addr := ipaddr\<rparr>)) (\<lambda>s3.
       bindR (netif_issue_reports s3 (Some nif) 1) (\<lambda>s4.
       ret (s4, True)))))
     else ret (s, False))"

definition addr_or_any :: "u32 option \<Rightarrow> u32" where
  "addr_or_any a = (case a of None \<Rightarrow> IPADDR_ANY | Some ip \<Rightarrow> ip)"

definition netif_set_ipaddr :: "'w lenv \<Rightarrow> 'w lwip \<Rightarrow> nat option \<Rightarrow> u32 option \<Rightarrow> 'w lwip res" where
  "netif_set_ipaddr E s nif ipaddr =
     (case nif of None \<Rightarrow> ret s
      | Some a \<Rightarrow> bindR (netif_do_set_ipaddr E s a (addr_or_any ipaddr)) (\<lambda>(s1, _). ret s1))"

definition netif_do_set_netmask :: "'w lwip \<Rightarrow> nat \<Rightarrow> u32 \<Rightarrow> ('w lwip \<times> bool) res" where
  "netif_do_set_netmask s nif mask' =
     bindR (netif_at s (Some nif)) (\<lambda>n.
     if mask' \<noteq> netmask n
     then bindR (netif_upd s nif (\<lambda>n. n\<lparr>netmask := mask'\<rparr>)) (\<lambda>s1. ret (s1, True))
     else ret (s, False))"

definition netif_set_netmask :: "'w lwip \<Rightarrow> nat option \<Rightarrow> u32 option \<Rightarrow> 'w lwip res" where
  "netif_set_netmask s nif mask' =
     (case nif of None \<Rightarrow> ret s
      | Some a \<Rightarrow> bindR (netif_do_set_netmask s a (addr_or_any mask')) (\<lambda>(s1, _). ret s1))"

definition netif_do_set_gw :: "'w lwip \<Rightarrow> nat \<Rightarrow> u32 \<Rightarrow> ('w lwip \<times> bool) res" where
  "netif_do_set_gw s nif gateway =
     bindR (netif_at s (Some nif)) (\<lambda>n.
     if gateway \<noteq> gw n
     then bindR (netif_upd s nif (\<lambda>n. n\<lparr>gw := gateway\<rparr>)) (\<lambda>s1. ret (s1, True))
     else ret (s, False))"

definition netif_set_gw :: "'w lwip \<Rightarrow> nat option \<Rightarrow> u32 option \<Rightarrow> 'w lwip res" where
  "netif_set_gw s nif gateway =
     (case nif of None \<Rightarrow> ret s
      | Some a \<Rightarrow> bindR (netif_do_set_gw s a (addr_or_any gateway)) (\<lambda>(s1, _). ret s1))"

definition netif_set_addr ::
  "'w lenv \<Rightarrow> 'w lwip \<Rightarrow> nat \<Rightarrow> u32 option \<Rightarrow> u32 option \<Rightarrow> u32 option \<Rightarrow> 'w lwip res" where
  "netif_set_addr E s nif ipaddr mask' gateway =
     (let ip = addr_or_any ipaddr; remove = ip4_addr_isany_val ip in
      bindR (if remove then netif_do_set_ipaddr E s nif ip else ret (s, False)) (\<lambda>(s1, _).
      bindR (netif_do_set_netmask s1 nif (addr_or_any mask')) (\<lambda>(s2, _).
      bindR (netif_do_set_gw s2 nif (addr_or_any gateway)) (\<lambda>(s3, _).
      bindR (if \<not> remove then netif_do_set_ipaddr E s3 nif ip else ret (s3, False)) (\<lambda>(s4, _).
      ret s4)))))"

section \<open>Adding an interface\<close>

text \<open>
  The search for a number that no interface on the list has: one scan of the list, which
  gives whether the number is taken, and the loop around it.
\<close>

fun num_scan :: "'w lwip \<Rightarrow> nat \<Rightarrow> u8 \<Rightarrow> nat list \<Rightarrow> nat \<Rightarrow> bool res" where
  "num_scan s nif number [] num_netifs = ret False"
| "num_scan s nif number (nif2 # nifs) num_netifs =
     bindR (lwip_assert (nif2 \<noteq> nif)) (\<lambda>_.
     bindR (lwip_assert (num_netifs + 1 \<le> 255)) (\<lambda>_.
     bindR (netif_at s (Some nif2)) (\<lambda>n2.
     if nif_num n2 = number then ret True else num_scan s nif number nifs (num_netifs + 1))))"

partial_function (option) netif_num_loop :: "'w lwip \<Rightarrow> nat \<Rightarrow> u8 \<Rightarrow> u8 res" where
  "netif_num_loop s nif number =
     (let number1 = (if number = 255 then 0 else number) in
      bindR (num_scan s nif number1 (netif_list s) 0) (\<lambda>taken.
      if taken then netif_num_loop s nif (number1 + 1) else ret number1))"

definition netif_add ::
  "'w lenv \<Rightarrow> 'w lwip \<Rightarrow> nat option \<Rightarrow> u32 option \<Rightarrow> u32 option \<Rightarrow> u32 option \<Rightarrow> nat \<Rightarrow> nat option \<Rightarrow> nat \<Rightarrow>
   ('w lwip \<times> nat option) res" where
  "netif_add E s nif ipaddr mask' gateway st init inp =
     (case nif of None \<Rightarrow> ret (s, None) | Some a \<Rightarrow>
      case init of None \<Rightarrow> ret (s, None) | Some init_fn \<Rightarrow>
      bindR (netif_upd s a (\<lambda>n. n\<lparr>ip_addr := 0, netmask := 0, gw := 0, nif_output := NETIF_NULL_OUTPUT,
        mtu := 0, nif_flags := 0, client_data := None, nif_state := st, nif_num := netif_num s, nif_input := inp,
        acd_list := None\<rparr>)) (\<lambda>s1.
      bindR (netif_set_addr E s1 a (Some (addr_or_any ipaddr)) (Some (addr_or_any mask')) (Some (addr_or_any gateway))) (\<lambda>s2.
      bindR (netif_init_fn E init_fn a s2) (\<lambda>(s3, err).
      if err \<noteq> ERR_OK then ret (s3, None)
      else
        bindR (netif_at s3 nif) (\<lambda>n3.
        bindR (netif_num_loop s3 a (nif_num n3)) (\<lambda>number.
        bindR (netif_upd s3 a (\<lambda>n. n\<lparr>nif_num := number\<rparr>)) (\<lambda>s4.
        ret (s4\<lparr>netif_num := (if number = 254 then 0 else number + 1), netif_list := a # netif_list s4\<rparr>, nif))))))))"

definition netif_add_noaddr ::
  "'w lenv \<Rightarrow> 'w lwip \<Rightarrow> nat option \<Rightarrow> nat \<Rightarrow> nat option \<Rightarrow> nat \<Rightarrow> ('w lwip \<times> nat option) res" where
  "netif_add_noaddr E s nif st init inp = netif_add E s nif None None None st init inp"

text \<open>Without a loopback interface there is nothing to initialise.\<close>

definition netif_init :: "'w lwip \<Rightarrow> 'w lwip" where
  "netif_init s = s"

section \<open>State changes\<close>

definition netif_set_flags :: "'w lwip \<Rightarrow> nat \<Rightarrow> u8 \<Rightarrow> 'w lwip res" where
  "netif_set_flags s nif fl = netif_upd s nif (\<lambda>n. n\<lparr>nif_flags := nif_flags n OR fl\<rparr>)"

definition netif_clear_flags :: "'w lwip \<Rightarrow> nat \<Rightarrow> u8 \<Rightarrow> 'w lwip res" where
  "netif_clear_flags s nif fl = netif_upd s nif (\<lambda>n. n\<lparr>nif_flags := nif_flags n AND (NOT fl AND 0xff)\<rparr>)"

definition netif_set_default :: "'w lwip \<Rightarrow> nat option \<Rightarrow> 'w lwip" where
  "netif_set_default s nif = s\<lparr>netif_default := nif\<rparr>"

definition netif_set_up :: "'w lwip \<Rightarrow> nat option \<Rightarrow> 'w lwip res" where
  "netif_set_up s nif =
     (case nif of None \<Rightarrow> ret s | Some a \<Rightarrow>
      bindR (netif_at s nif) (\<lambda>n.
      if nif_flags n AND NETIF_FLAG_UP = 0 then
        bindR (netif_set_flags s a NETIF_FLAG_UP) (\<lambda>s1. netif_issue_reports s1 nif 3)
      else ret s))"

definition netif_set_down :: "'w lenv \<Rightarrow> 'w lwip \<Rightarrow> nat option \<Rightarrow> 'w lwip res" where
  "netif_set_down E s nif =
     (case nif of None \<Rightarrow> ret s | Some a \<Rightarrow>
      bindR (netif_at s nif) (\<lambda>n.
      if nif_flags n AND NETIF_FLAG_UP \<noteq> 0 then
        bindR (netif_clear_flags s a NETIF_FLAG_UP) (\<lambda>s1.
        bindR (netif_at s1 nif) (\<lambda>n1.
        if nif_flags n1 AND NETIF_FLAG_ETHARP \<noteq> 0 then etharp_cleanup_netif E s1 nif else ret s1))
      else ret s))"

definition netif_set_link_up :: "'w lenv \<Rightarrow> 'w lwip \<Rightarrow> nat option \<Rightarrow> 'w lwip res" where
  "netif_set_link_up E s nif =
     (case nif of None \<Rightarrow> ret s | Some a \<Rightarrow>
      bindR (netif_at s nif) (\<lambda>n.
      if nif_flags n AND NETIF_FLAG_LINK_UP = 0 then
        bindR (netif_set_flags s a NETIF_FLAG_LINK_UP) (\<lambda>s1.
        bindR (dhcp_network_changed_link_up_fn E a s1) (\<lambda>s2. netif_issue_reports s2 nif 3))
      else ret s))"

definition netif_set_link_down :: "'w lwip \<Rightarrow> nat option \<Rightarrow> 'w lwip res" where
  "netif_set_link_down s nif =
     (case nif of None \<Rightarrow> ret s | Some a \<Rightarrow>
      bindR (netif_at s nif) (\<lambda>n.
      if nif_flags n AND NETIF_FLAG_LINK_UP \<noteq> 0 then
        bindR (netif_clear_flags s a NETIF_FLAG_LINK_UP) (\<lambda>s1. acd_network_changed_link_down s1 a)
      else ret s))"

definition netif_remove :: "'w lenv \<Rightarrow> 'w lwip \<Rightarrow> nat option \<Rightarrow> 'w lwip res" where
  "netif_remove E s nif =
     (case nif of None \<Rightarrow> ret s | Some a \<Rightarrow>
      bindR (netif_at s nif) (\<lambda>n.
      bindR (if \<not> ip4_addr_isany_val (ip_addr n) then netif_do_ip_addr_changed E s (ip_addr n) None else ret s) (\<lambda>s1.
      bindR (netif_at s1 nif) (\<lambda>n1.
      bindR (if netif_is_up n1 then netif_set_down E s1 nif else ret s1) (\<lambda>s2.
      let s3 = (if netif_default s2 = nif then netif_set_default s2 None else s2) in
      ret (s3\<lparr>netif_list := remove1 a (netif_list s3)\<rparr>))))))"

section \<open>Input\<close>

definition netif_input :: "'w lenv \<Rightarrow> 'w lwip \<Rightarrow> nat option \<Rightarrow> nat option \<Rightarrow> ('w lwip \<times> err_t) res" where
  "netif_input E s p inp =
     (case p of None \<Rightarrow> fault Assertion | Some pp \<Rightarrow>
      case inp of None \<Rightarrow> fault Assertion | Some nif \<Rightarrow>
      bindR (netif_at s inp) (\<lambda>n.
      if nif_flags n AND (NETIF_FLAG_ETHARP OR NETIF_FLAG_ETHERNET) \<noteq> 0 then ethernet_input E s pp nif
      else bindR (ip4_input E s pp nif) (\<lambda>s1. ret (s1, ERR_OK))))"

end
