(* ===== verification/Netif_Props.thy ===== *)
theory Netif_Props
  imports Netif Netif_Find Etharp_Props
begin

text \<open>
  The interface list of \<open>core/netif.c\<close>: the invariant that every interface has a number of its own, the search of
  \<open>netif_add\<close> for a free number and when it ends, and the round trip between indices and names.
\<close>

unbundle bit_operations_syntax

section \<open>The interface list\<close>

abbreviation nif_of :: "'w lwip \<Rightarrow> nat \<Rightarrow> netif" where
  "nif_of s a \<equiv> the (netifs s a)"

abbreviation nums :: "'w lwip \<Rightarrow> u8 set" where
  "nums s \<equiv> (\<lambda>a. nif_num (nif_of s a)) ` set (netif_list s)"

text \<open>Every interface on the list exists, is there once, and has a number of its own, which is not 255.\<close>

definition netifs_ok :: "'w lwip \<Rightarrow> bool" where
  "netifs_ok s \<longleftrightarrow> distinct (netif_list s) \<and> (\<forall>a \<in> set (netif_list s). netifs s a \<noteq> None \<and> nif_num (nif_of s a) \<noteq> 255) \<and>
     inj_on (\<lambda>a. nif_num (nif_of s a)) (set (netif_list s))"

lemma card_nums: "netifs_ok s \<Longrightarrow> card (nums s) = length (netif_list s)"
  by (simp add: netifs_ok_def card_image distinct_card)

lemma card_u8_below: "card {m :: u8. m \<noteq> 255} = 255"
proof -
  have "card (UNIV :: u8 set) = 256" by (simp add: card_word)
  moreover have "{m :: u8. m \<noteq> 255} = UNIV - {255}" by auto
  ultimately show ?thesis by (simp add: card_Diff_subset)
qed

lemma nums_subset: "netifs_ok s \<Longrightarrow> nums s \<subseteq> {m. m \<noteq> 255}"
  by (auto simp: netifs_ok_def)

lemma netifs_length: "netifs_ok s \<Longrightarrow> length (netif_list s) \<le> 255"
  using card_mono [OF _ nums_subset, of s] by (simp add: card_nums card_u8_below)

lemma free_number_iff:
  assumes "netifs_ok s"
  shows "(\<exists>m. m \<noteq> 255 \<and> m \<notin> nums s) \<longleftrightarrow> length (netif_list s) < 255"
proof -
  have "(\<exists>m. m \<noteq> 255 \<and> m \<notin> nums s) \<longleftrightarrow> nums s \<noteq> {m. m \<noteq> 255}" using nums_subset [OF assms] by auto
  also have "\<dots> \<longleftrightarrow> card (nums s) \<noteq> 255"
    using card_subset_eq [OF _ nums_subset [OF assms]] by (auto simp: card_u8_below)
  finally show ?thesis using netifs_length [OF assms] card_nums [OF assms] by auto
qed

section \<open>The search for a free number\<close>

lemma num_scan_run:
  assumes "\<forall>a \<in> set nifs. netifs s a \<noteq> None" and "nif \<notin> set nifs" and "k + length nifs \<le> 255"
  shows "num_scan s nif m nifs k = ret (m \<in> (\<lambda>a. nif_num (nif_of s a)) ` set nifs)"
  using assms by (induction nifs arbitrary: k) auto

lemma num_loop_step:
  assumes "netifs_ok s" and "nif \<notin> set (netif_list s)"
  shows "netif_num_loop s nif n =
    (let n1 = (if n = 255 then 0 else n) in if n1 \<in> nums s then netif_num_loop s nif (n1 + 1) else ret n1)"
  using num_scan_run [of "netif_list s" s nif 0] assms netifs_length [OF assms(1)]
  by (subst netif_num_loop.simps) (simp add: Let_def netifs_ok_def)

lemma unat_u8_below:
  assumes "n \<noteq> 255"
  shows "unat (n :: u8) < 255"
proof -
  have "unat n \<noteq> 255" using assms by (simp only: word_unat_eq_iff) simp
  moreover have "unat n < 256" by (rule unat_u8_less)
  ultimately show ?thesis by linarith
qed

lemma num_loop_finds:
  assumes "netifs_ok s" and "nif \<notin> set (netif_list s)" and "free \<noteq> 255" and "free \<notin> nums s"
    and "d = (unat free + 255 - unat n mod 255) mod 255"
  shows "\<exists>m. netif_num_loop s nif n = ret m \<and> m \<noteq> 255 \<and> m \<notin> nums s"
  using assms(5)
proof (induction d arbitrary: n rule: less_induct)
  case (less d)
  define n1 where "n1 = (if n = 255 then 0 else n)"
  have n1: "unat n1 = unat n mod 255"
    using unat_u8_below [of n] by (simp add: n1_def)
  then have n1': "unat n1 < 255" by simp
  show ?case
  proof (cases "n1 \<in> nums s")
    case True
    then have "n1 \<noteq> free" using assms(4) by blast
    then have ne: "unat n1 \<noteq> unat free" by (simp add: word_unat_eq_iff)
    have f: "unat free < 255" using assms(3) by (rule unat_u8_below)
    have "unat (n1 + 1) = unat n1 + 1" using n1' by (simp add: unat_word_ariths)
    then have "(unat free + 255 - unat (n1 + 1) mod 255) mod 255 < d"
      using n1' f ne unfolding less.prems n1 [symmetric] by (auto simp: mod_if split: if_splits)
    from less.IH [OF this refl] True show ?thesis
      by (subst num_loop_step [OF assms(1,2)]) (simp add: Let_def n1_def [symmetric])
  next
    case False
    then show ?thesis using n1'
      by (subst num_loop_step [OF assms(1,2)]) (auto simp: Let_def n1_def [symmetric])
  qed
qed

lemma num_loop_diverges:
  assumes "netifs_ok s" and "nif \<notin> set (netif_list s)" and "length (netif_list s) = 255"
  shows "netif_num_loop s nif n = None"
proof -
  have taken: "m \<in> nums s" if "m \<noteq> 255" for m using free_number_iff [OF assms(1)] assms(3) that by auto
  have "t = s \<longrightarrow> nif' = nif \<longrightarrow> False" if "netif_num_loop t nif' n = Some r" for t nif' n r
    using that
  proof (rule netif_num_loop.raw_induct [rotated], intro impI)
    fix f t nif' n r
    assume IH: "\<And>t nif' n r. f t nif' n = Some r \<Longrightarrow> t = s \<longrightarrow> nif' = nif \<longrightarrow> False"
      and run: "(let number1 = if n = 255 then 0 else n in bindR (num_scan t nif' number1 (netif_list t) 0)
        (\<lambda>taken. if taken then f t nif' (number1 + 1) else ret number1)) = Some r"
      and eq: "t = s" "nif' = nif"
    define n1 where "n1 = (if n = 255 then 0 else n)"
    have "n1 \<in> nums s" by (rule taken) (auto simp: n1_def)
    then have "f s nif (n1 + 1) = Some r"
      using run num_scan_run [of "netif_list s" s nif 0] assms
      by (simp add: Let_def netifs_ok_def n1_def [symmetric] eq)
    then show False using IH by blast
  qed
  then show ?thesis by (cases "netif_num_loop s nif n") auto
qed

section \<open>Adding an interface\<close>

text \<open>
  What \<open>netif_add\<close> relies on: TCP, told of a new address, and the initialisation function \<open>f\<close> of the driver
  return, the latter with the result \<open>e\<close>; neither touches the list or another interface than \<open>a\<close>.
\<close>

definition add_env_ok :: "'w lenv \<Rightarrow> nat \<Rightarrow> nat \<Rightarrow> err_t \<Rightarrow> bool" where
  "add_env_ok E f a e \<longleftrightarrow>
     (\<forall>old new s. \<exists>s'. tcp_netif_ip_addr_changed_fn E old new s = ret s' \<and>
        netif_list s' = netif_list s \<and> netifs s' = netifs s) \<and>
     (\<forall>s. netifs s a \<noteq> None \<longrightarrow> (\<exists>s'. netif_init_fn E f a s = ret (s', e) \<and> netif_list s' = netif_list s \<and>
        netifs s' a \<noteq> None \<and> (\<forall>b. b \<noteq> a \<longrightarrow> netifs s' b = netifs s b)))"

text \<open>The list and the interfaces other than \<open>a\<close> are as before.\<close>

definition same_others :: "nat \<Rightarrow> 'w lwip \<Rightarrow> 'w lwip \<Rightarrow> bool" where
  "same_others a s s' \<longleftrightarrow> netif_list s' = netif_list s \<and> netifs s' a \<noteq> None \<and>
     (\<forall>b. b \<noteq> a \<longrightarrow> netifs s' b = netifs s b)"

lemma same_others_trans: "same_others a s s' \<Longrightarrow> same_others a s' s'' \<Longrightarrow> same_others a s s''"
  by (simp add: same_others_def)

lemma same_others_present: "same_others a s s' \<Longrightarrow> netifs s' a \<noteq> None"
  by (simp add: same_others_def)

lemma same_others_upd:
  "netifs s a \<noteq> None \<Longrightarrow> \<exists>s'. netif_upd s a f = ret s' \<and> same_others a s s' \<and> nif_of s' a = f (nif_of s a)"
  by (auto simp: netif_upd_def same_others_def)

lemma netifs_ok_same_others:
  assumes "same_others a s s'" and "netifs_ok s" and "a \<notin> set (netif_list s)"
  shows "netifs_ok s'" "nums s' = nums s" "netif_list s' = netif_list s"
proof -
  have eq: "netifs s' b = netifs s b" if "b \<in> set (netif_list s)" for b
    using assms(1,3) that unfolding same_others_def by metis
  show l: "netif_list s' = netif_list s" using assms(1) by (simp add: same_others_def)
  show "netifs_ok s'" "nums s' = nums s" using assms(2) eq by (auto simp: netifs_ok_def l inj_on_def)
qed

lemma do_set_run:
  assumes "netifs s a \<noteq> None"
  shows "\<exists>s' c. netif_do_set_netmask s a m = ret (s', c) \<and> same_others a s s' \<and> ip_addr (nif_of s' a) = ip_addr (nif_of s a)"
    and "\<exists>s' c. netif_do_set_gw s a m = ret (s', c) \<and> same_others a s s' \<and> ip_addr (nif_of s' a) = ip_addr (nif_of s a)"
  using assms by (auto simp: netif_do_set_netmask_def netif_do_set_gw_def netif_upd_def same_others_def)

lemma do_set_ipaddr_run:
  assumes "add_env_ok E f a e" and "netifs s a \<noteq> None" and "ip_addr (nif_of s a) = 0"
  shows "\<exists>s' c. netif_do_set_ipaddr E s a ip = ret (s', c) \<and> same_others a s s'"
proof (cases "ip = 0")
  case True
  then show ?thesis using assms(2,3) by (auto simp: netif_do_set_ipaddr_def same_others_def)
next
  case False
  obtain s1 where s1: "tcp_netif_ip_addr_changed_fn E 0 (Some ip) s = ret s1" "netif_list s1 = netif_list s"
    "netifs s1 = netifs s"
    using assms(1) unfolding add_env_ok_def by blast
  have "netif_do_ip_addr_changed E s 0 (Some ip) = ret s1"
    using s1 by (simp add: netif_do_ip_addr_changed_def udp_netif_ip_addr_changed_def raw_netif_ip_addr_changed_def
        ip4_addr_isany_val_def)
  moreover have "acd_netif_ip_addr_changed E s1 a 0 ip = ret s1"
    by (simp add: acd_netif_ip_addr_changed_def ip4_addr_isany_val_def)
  ultimately show ?thesis
    using s1 assms(2,3) False
    by (auto simp: netif_do_set_ipaddr_def netif_upd_def netif_issue_reports_def same_others_def)
qed

lemma set_addr_run:
  assumes "add_env_ok E f a e" and "netifs s a \<noteq> None" and "ip_addr (nif_of s a) = 0"
  shows "\<exists>s'. netif_set_addr E s a ip m g = ret s' \<and> same_others a s s'"
proof -
  let ?ip = "addr_or_any ip"
  have 1: "(if ip4_addr_isany_val ?ip then netif_do_set_ipaddr E s a ?ip else ret (s, False)) = ret (s, False)"
    using assms(2,3) by (auto simp: netif_do_set_ipaddr_def ip4_addr_isany_val_def)
  obtain s2 c2 where 2: "netif_do_set_netmask s a (addr_or_any m) = ret (s2, c2)" "same_others a s s2"
    "ip_addr (nif_of s2 a) = 0"
    using do_set_run(1) [OF assms(2)] assms(3) by metis
  obtain s3 c3 where 3: "netif_do_set_gw s2 a (addr_or_any g) = ret (s3, c3)" "same_others a s2 s3"
    "ip_addr (nif_of s3 a) = 0"
    using do_set_run(2) [OF same_others_present [OF 2(2)]] 2(3) by metis
  have "\<exists>s4 c4. (if \<not> ip4_addr_isany_val ?ip then netif_do_set_ipaddr E s3 a ?ip else ret (s3, False)) = ret (s4, c4) \<and>
      same_others a s3 s4"
    using do_set_ipaddr_run [OF assms(1) same_others_present [OF 3(2)] 3(3)] same_others_present [OF 3(2)]
    by (cases "ip4_addr_isany_val ?ip") (auto simp: same_others_def)
  then obtain s4 c4 where 4:
    "(if \<not> ip4_addr_isany_val ?ip then netif_do_set_ipaddr E s3 a ?ip else ret (s3, False)) = ret (s4, c4)"
    "same_others a s3 s4"
    by blast
  have "netif_set_addr E s a ip m g = ret s4"
    unfolding netif_set_addr_def Let_def 1 bindR_simps prod.case 2(1) 3(1) 4(1) by simp
  then show ?thesis using 2(2) 3(2) 4(2) same_others_trans by blast
qed

lemma netifs_ok_add:
  assumes "netifs_ok s" and "a \<notin> set (netif_list s)" and "m \<noteq> 255" and "m \<notin> nums s"
  shows "netifs_ok (s\<lparr>netifs := (netifs s)(a \<mapsto> n\<lparr>nif_num := m\<rparr>), netif_num := k, netif_list := a # netif_list s\<rparr>)"
  using assms by (auto simp: netifs_ok_def inj_on_def)

lemma netif_add_start:
  assumes "add_env_ok E f a e" and "netifs s a \<noteq> None"
  shows "\<exists>s3. same_others a s s3 \<and>
    netif_add E s (Some a) ip m g st (Some f) inp =
      (if e \<noteq> ERR_OK then ret (s3, None)
       else bindR (netif_num_loop s3 a (nif_num (nif_of s3 a))) (\<lambda>number.
         ret (s3\<lparr>netifs := (netifs s3)(a \<mapsto> (nif_of s3 a)\<lparr>nif_num := number\<rparr>),
           netif_num := (if number = 254 then 0 else number + 1), netif_list := a # netif_list s3\<rparr>, Some a)))"
proof -
  let ?u = "\<lambda>n. n\<lparr>ip_addr := 0, netmask := 0, gw := 0, nif_output := NETIF_NULL_OUTPUT, mtu := 0, nif_flags := 0,
    client_data := None, nif_state := st, nif_num := netif_num s, nif_input := inp, acd_list := None\<rparr>"
  obtain s1 where 1: "netif_upd s a ?u = ret s1" "same_others a s s1" "ip_addr (nif_of s1 a) = 0"
    using same_others_upd [OF assms(2), of ?u] by auto
  obtain s2 where 2: "netif_set_addr E s1 a (Some (addr_or_any ip)) (Some (addr_or_any m)) (Some (addr_or_any g)) = ret s2"
    "same_others a s1 s2"
    using set_addr_run [OF assms(1) same_others_present [OF 1(2)] 1(3)] by metis
  obtain s3 where 3: "netif_init_fn E f a s2 = ret (s3, e)" "same_others a s2 s3"
    using assms(1) same_others_present [OF 2(2)] unfolding add_env_ok_def same_others_def by metis
  have "same_others a s s3" using 1(2) 2(2) 3(2) same_others_trans by blast
  moreover obtain n where n: "netifs s3 a = Some n" using same_others_present [OF 3(2)] by blast
  have "netif_upd s3 a h = ret (s3\<lparr>netifs := (netifs s3)(a \<mapsto> h n)\<rparr>)" for h by (simp add: netif_upd_def n)
  note run = 1(1) 2(1) 3(1) this
  have "netif_add E s (Some a) ip m g st (Some f) inp =
      (if e \<noteq> ERR_OK then ret (s3, None)
       else bindR (netif_num_loop s3 a (nif_num (nif_of s3 a))) (\<lambda>number.
         ret (s3\<lparr>netifs := (netifs s3)(a \<mapsto> (nif_of s3 a)\<lparr>nif_num := number\<rparr>),
           netif_num := (if number = 254 then 0 else number + 1), netif_list := a # netif_list s3\<rparr>, Some a)))"
    by (simp add: netif_add_def run n)
  ultimately show ?thesis by blast
qed

lemma netif_add_run:
  fixes ip m g st inp
  assumes "netifs_ok s" and "netifs s a \<noteq> None" and "a \<notin> set (netif_list s)" and "add_env_ok E f a e"
  defines "add \<equiv> netif_add E s (Some a) ip m g st (Some f) inp"
  shows "e \<noteq> ERR_OK \<Longrightarrow> \<exists>s'. add = ret (s', None) \<and> netif_list s' = netif_list s \<and> netifs_ok s'"
    and "e = ERR_OK \<Longrightarrow> length (netif_list s) < 255 \<Longrightarrow>
      \<exists>s'. add = ret (s', Some a) \<and> netif_list s' = a # netif_list s \<and> netifs_ok s' \<and>
        (\<forall>b \<in> set (netif_list s). netifs s' b = netifs s b)"
    and "e = ERR_OK \<Longrightarrow> length (netif_list s) = 255 \<Longrightarrow> add = None"
proof -
  obtain s3 where s3: "same_others a s s3"
    "add = (if e \<noteq> ERR_OK then ret (s3, None)
       else bindR (netif_num_loop s3 a (nif_num (nif_of s3 a))) (\<lambda>number.
         ret (s3\<lparr>netifs := (netifs s3)(a \<mapsto> (nif_of s3 a)\<lparr>nif_num := number\<rparr>),
           netif_num := (if number = 254 then 0 else number + 1), netif_list := a # netif_list s3\<rparr>, Some a)))"
    unfolding add_def using netif_add_start [OF assms(4,2), where ip = ip and m = m and g = g and st = st and inp = inp]
    by (elim exE conjE)
  note same = netifs_ok_same_others [OF s3(1) assms(1,3)]
  have a: "a \<notin> set (netif_list s3)" by (simp add: same assms(3))
  show "e \<noteq> ERR_OK \<Longrightarrow> \<exists>s'. add = ret (s', None) \<and> netif_list s' = netif_list s \<and> netifs_ok s'"
    using s3(2) same(1,3) by auto
  show "add = None" if "e = ERR_OK" "length (netif_list s) = 255"
    using s3(2) that num_loop_diverges [OF same(1) a] by (simp add: same(3) bindR_def)
  show "\<exists>s'. add = ret (s', Some a) \<and> netif_list s' = a # netif_list s \<and> netifs_ok s' \<and>
      (\<forall>b \<in> set (netif_list s). netifs s' b = netifs s b)"
    if e: "e = ERR_OK" and short: "length (netif_list s) < 255"
  proof -
    obtain free where "free \<noteq> 255" "free \<notin> nums s3"
      using free_number_iff [OF same(1)] short by (auto simp: same(3))
    from num_loop_finds [OF same(1) a this refl, of "nif_num (nif_of s3 a)"] obtain n
      where n: "netif_num_loop s3 a (nif_num (nif_of s3 a)) = ret n" "n \<noteq> 255" "n \<notin> nums s3" by blast
    let ?s = "s3\<lparr>netifs := (netifs s3)(a \<mapsto> (nif_of s3 a)\<lparr>nif_num := n\<rparr>),
      netif_num := (if n = 254 then 0 else n + 1), netif_list := a # netif_list s3\<rparr>"
    have "netifs s3 b = netifs s b" if "b \<in> set (netif_list s)" for b
      using s3(1) that assms(3) unfolding same_others_def by metis
    then have "\<forall>b \<in> set (netif_list s). netifs ?s b = netifs s b" using assms(3) by auto
    moreover have "add = ret (?s, Some a)" unfolding s3(2) using e n(1) by simp
    moreover have "netif_list ?s = a # netif_list s" by (simp add: same(3))
    ultimately show ?thesis using netifs_ok_add [OF same(1) a n(2,3)] by blast
  qed
qed

section \<open>Names\<close>

fun digits_value :: "u8 list \<Rightarrow> u32 \<Rightarrow> u32" where
  "digits_value [] v = v"
| "digits_value (c # cs) v = digits_value cs (v * 10 + ucast (c - 48))"

lemma atoi_loop_digits:
  "\<forall>c \<in> set ds. 48 \<le> c \<and> c \<le> 57 \<Longrightarrow> atoi_loop (ds @ 0 # rest) v = digits_value ds v"
  by (induction ds arbitrary: v) auto

lemma digits_value_append: "digits_value (xs @ [c]) v = digits_value xs v * 10 + ucast (c - 48)"
  by (induction xs arbitrary: v) auto

lemma digit_range:
  assumes "k < 10"
  shows "(48 :: u8) \<le> 48 + of_nat k" "48 + of_nat k \<le> (57 :: u8)" "ucast (of_nat k :: u8) = (of_nat k :: u32)"
proof -
  have "k = 0 \<or> k = 1 \<or> k = 2 \<or> k = 3 \<or> k = 4 \<or> k = 5 \<or> k = 6 \<or> k = 7 \<or> k = 8 \<or> k = 9"
    using assms by arith
  then show "(48 :: u8) \<le> 48 + of_nat k" "48 + of_nat k \<le> (57 :: u8)" "ucast (of_nat k :: u8) = (of_nat k :: u32)"
    by (elim disjE; simp)+
qed

lemma digits0_range: "\<forall>c \<in> set (digits0 n). 48 \<le> c \<and> c \<le> 57"
proof (induction n rule: digits0.induct)
  case (1 n)
  show ?case
  proof (cases "n = 0")
    case False
    then show ?thesis using 1 digit_range(1,2) [of "n mod 10"] unfolding digits0_pos [OF False] by auto
  qed simp
qed

lemma digits0_value: "digits_value (digits0 n) 0 = of_nat n"
proof (induction n rule: digits0.induct)
  case (1 n)
  show ?case
  proof (cases "n = 0")
    case False
    have "ucast (of_nat (n mod 10) :: u8) = (of_nat (n mod 10) :: u32)" by (simp add: digit_range)
    moreover have "of_nat (n div 10) * 10 + of_nat (n mod 10) = (of_nat n :: u32)"
      by (metis div_mult_mod_eq of_nat_add of_nat_mult of_nat_numeral)
    ultimately show ?thesis using 1 False unfolding digits0_pos [OF False] by (simp add: digits_value_append)
  qed simp
qed

lemma get_by_index_loop_run:
  assumes "\<forall>b \<in> set nifs. netifs s b \<noteq> None" and "inj_on (\<lambda>a. nif_num (nif_of s a)) (set nifs)" and "a \<in> set nifs"
  shows "get_by_index_loop s (netif_get_index (nif_of s a)) nifs = ret (Some a)"
    and "fst (nif_name (nif_of s a)) = c0 \<Longrightarrow> snd (nif_name (nif_of s a)) = c1 \<Longrightarrow>
      find_loop s (nif_num (nif_of s a)) c0 c1 nifs = ret (Some a)"
proof -
  have same: "b = a" if "b \<in> set nifs" "nif_num (nif_of s b) = nif_num (nif_of s a)" for b
    using assms(2,3) that by (meson inj_onD)
  show "get_by_index_loop s (netif_get_index (nif_of s a)) nifs = ret (Some a)"
    using assms(1,3) same by (induction nifs) (auto simp: netif_get_index_def)
  show "find_loop s (nif_num (nif_of s a)) c0 c1 nifs = ret (Some a)"
    if "fst (nif_name (nif_of s a)) = c0" "snd (nif_name (nif_of s a)) = c1"
    using assms(1,3) same that by (induction nifs) auto
qed

lemma netif_get_by_index_run:
  assumes "netifs_ok s" and "a \<in> set (netif_list s)"
  shows "netif_get_by_index s (netif_get_index (nif_of s a)) = ret (Some a)"
proof -
  have "nif_num (nif_of s a) \<noteq> 255" using assms by (simp add: netifs_ok_def)
  then have "unat (nif_num (nif_of s a) + 1) = unat (nif_num (nif_of s a)) + 1"
    using unat_u8_below by (simp add: unat_word_ariths)
  then have "netif_get_index (nif_of s a) \<noteq> 0" unfolding netif_get_index_def by (metis add_is_0 one_neq_zero unat_0)
  then show ?thesis
    using get_by_index_loop_run(1) [of "netif_list s" s a] assms by (simp add: netif_get_by_index_def netifs_ok_def)
qed

lemma index_to_num:
  assumes "netifs_ok s" and "a \<in> set (netif_list s)"
  shows "netif_index_to_num (netif_get_index (nif_of s a)) = int (unat (nif_num (nif_of s a)))"
proof -
  have "nif_num (nif_of s a) \<noteq> 255" using assms by (simp add: netifs_ok_def)
  then have "unat (nif_num (nif_of s a) + 1) = unat (nif_num (nif_of s a)) + 1"
    using unat_u8_below by (simp add: unat_word_ariths)
  from arg_cong [OF this, of int] show ?thesis by (simp add: netif_index_to_num_def netif_get_index_def)
qed

lemma dec_string_atoi: "atoi (dec_string (int k) @ 0 # rest) = of_nat k"
proof -
  define ds where "ds = (if k = 0 then [48] else digits0 k)"
  have ds: "\<forall>c \<in> set ds. 48 \<le> c \<and> c \<le> 57" using digits0_range by (simp add: ds_def)
  have v: "digits_value ds 0 = of_nat k" using digits0_value by (simp add: ds_def)
  have "digits0 k \<noteq> []" if "k \<noteq> 0" using digits0_pos [OF that] by simp
  then obtain c cs where c: "ds = c # cs" by (cases ds) (auto simp: ds_def split: if_splits)
  then have r: "48 \<le> c" "c \<le> 57" using ds by auto
  then have "\<not> lwip_isspace c" "c \<noteq> 45" "c \<noteq> 43" by (auto simp: lwip_isspace_def)
  then have "atoi (ds @ 0 # rest) = atoi_loop (ds @ 0 # rest) 0" by (simp add: atoi_def c chd_def)
  moreover have "dec_string (int k) = ds" by (simp add: dec_string_def ds_def)
  ultimately show ?thesis using atoi_loop_digits [OF ds] v by simp
qed

lemma digits0_head: "k \<noteq> 0 \<Longrightarrow> hd (digits0 k) \<noteq> 48 \<and> digits0 k \<noteq> []"
proof (induction k rule: digits0.induct)
  case (1 k)
  show ?case
  proof (cases "k div 10 = 0")
    case True
    then have "k < 10" by simp
    then have "k = 1 \<or> k = 2 \<or> k = 3 \<or> k = 4 \<or> k = 5 \<or> k = 6 \<or> k = 7 \<or> k = 8 \<or> k = 9" using 1(2) by arith
    then show ?thesis unfolding digits0_pos [OF 1(2)] True by (elim disjE) simp_all
  next
    case False
    then show ?thesis using 1(1) [OF 1(2)] unfolding digits0_pos [OF 1(2)] by simp
  qed
qed

lemma netif_find_run:
  assumes "netifs_ok s" and "a \<in> set (netif_list s)" and "k mod 256 = unat (nif_num (nif_of s a))"
  shows "netif_find s (Some ([fst (nif_name (nif_of s a)), snd (nif_name (nif_of s a))] @ dec_string (int k) @ 0 # rest)) =
    ret (if k = 0 \<or> nif_num (nif_of s a) \<noteq> 0 then Some a else None)"
proof -
  have num: "ucast (of_nat k :: u32) = nif_num (nif_of s a)"
  proof -
    have "unat (ucast (of_nat k :: u32) :: u8) = k mod 2 ^ 32 mod 256"
      by (simp add: unsigned_ucast_eq unsigned_of_nat take_bit_eq_mod)
    also have "\<dots> = k mod 256" by (simp add: mod_mod_cancel)
    finally show ?thesis using assms(3) by (simp only: word_unat_eq_iff)
  qed
  obtain c cs where ds: "dec_string (int k) = c # cs"
    using digits0_head [of k] by (cases "dec_string (int k)") (auto simp: dec_string_def split: if_splits)
  have "c = 48 \<longleftrightarrow> k = 0" using digits0_head [of k] ds by (auto simp: dec_string_def split: if_splits)
  moreover have "atoi (c # cs @ 0 # rest) = of_nat k" using dec_string_atoi [of k rest] by (simp add: ds)
  moreover have "find_loop s (nif_num (nif_of s a)) (fst (nif_name (nif_of s a))) (snd (nif_name (nif_of s a))) (netif_list s) =
      ret (Some a)"
    by (rule get_by_index_loop_run(2) [OF _ _ assms(2) refl refl]) (use assms(1) in \<open>simp_all add: netifs_ok_def\<close>)
  ultimately show ?thesis by (auto simp: netif_find_def ds num Let_def)
qed

lemma digits_length:
  assumes "n < 256"
  shows "length (dec_string (int n)) < 4"
proof -
  have n: "n div 10 div 10 div 10 = 0" using assms by simp
  have l: "length (digits0 m) \<le> Suc (length (digits0 (m div 10)))" for m
    by (cases "m = 0") (simp, subst digits0_pos, simp_all)
  have "length (digits0 n) \<le> 3"
    using l [of n] l [of "n div 10"] l [of "n div 10 div 10"] n by simp
  then show ?thesis by (simp add: dec_string_def)
qed

lemma cstring_split:
  assumes "length (cstring buf) < length buf"
  obtains rest where "buf = cstring buf @ 0 # rest"
proof -
  have "buf = cstring buf @ dropWhile (\<lambda>c. c \<noteq> 0) buf" by (simp add: cstring_def)
  moreover obtain x xs where "dropWhile (\<lambda>c. c \<noteq> 0) buf = x # xs"
    using calculation assms by (cases "dropWhile (\<lambda>c. c \<noteq> 0) buf") auto
  moreover have "x = 0" using hd_dropWhile [of "\<lambda>c. c \<noteq> 0" buf] calculation(2) by simp
  ultimately show thesis using that by metis
qed

lemma index_to_name_run:
  assumes "netifs_ok s" and "a \<in> set (netif_list s)" and "6 \<le> length buf"
  shows "\<exists>rest. netif_index_to_name s (netif_get_index (nif_of s a)) buf = ret (Some
    ([fst (nif_name (nif_of s a)), snd (nif_name (nif_of s a))] @ dec_string (int (unat (nif_num (nif_of s a)))) @ 0 # rest)) \<and>
    length (dec_string (int (unat (nif_num (nif_of s a)))) @ 0 # rest) + 2 = length buf"
proof -
  define k where "k = unat (nif_num (nif_of s a))"
  have len: "length (dec_string (int k)) < 4" unfolding k_def by (rule digits_length [OF unat_u8_less])
  obtain digits where d: "lwip_itoa (take 4 (drop 2 buf)) 4 (int k) = ret digits" "length digits = 4"
    "cstring digits = dec_string (int k)"
    using itoa_spec [of "take 4 (drop 2 buf)" 4 "int k"] assms(3) len by auto
  obtain rest where rest: "digits = dec_string (int k) @ 0 # rest"
    using cstring_split [of digits] d(2,3) len by auto
  obtain n where n: "netifs s a = Some n" using assms(1,2) by (auto simp: netifs_ok_def)
  have "netif_index_to_name s (netif_get_index (nif_of s a)) buf =
      ret (Some ([fst (nif_name n), snd (nif_name n)] @ digits @ drop 6 buf))"
    using netif_get_by_index_run [OF assms(1,2)] index_to_num [OF assms(1,2), folded k_def] d(1) assms(3)
    by (simp add: netif_index_to_name_def n)
  moreover have "length digits + length (drop 6 buf) + 2 = length buf" using d(2) assms(3) by simp
  ultimately show ?thesis
    unfolding k_def [symmetric] by (intro exI [of _ "rest @ drop 6 buf"]) (simp add: n rest)
qed

section \<open>Properties\<close>

text \<open>
  C38: the search of \<open>netif_add\<close> for an interface number ends exactly when a number is left. With fewer than 255
  interfaces, the new one is put in front of the list with a number from 0 to 254 that no other has, and the others
  are as before; when the driver reports an error the list is as before. When 255 interfaces are on the list, every
  number is taken and the loop never ends: each scan stops at the interface that has the number, so the assertion
  "too many netifs, max. supported number is 255" does not fail.
\<close>

theorem netif_add_terminates:
  assumes "netifs_ok s" and "netifs s a \<noteq> None" and "a \<notin> set (netif_list s)" and "add_env_ok E f a e"
  shows "if e \<noteq> ERR_OK then
      \<exists>s'. netif_add E s (Some a) ip m g st (Some f) inp = ret (s', None) \<and> netif_list s' = netif_list s \<and> netifs_ok s'
    else if length (netif_list s) < 255 then
      \<exists>s'. netif_add E s (Some a) ip m g st (Some f) inp = ret (s', Some a) \<and> netif_list s' = a # netif_list s \<and>
        netifs_ok s' \<and> (\<forall>b \<in> set (netif_list s). netifs s' b = netifs s b)
    else netif_add E s (Some a) ip m g st (Some f) inp = None"
  using netif_add_run [OF assms, where ip = ip and m = m and g = g and st = st and inp = inp] netifs_length [OF assms(1)]
  by (cases "length (netif_list s) = 255") simp_all

text \<open>
  C39: names and indices of interfaces. The name that \<open>netif_index_to_name\<close> writes into a buffer of \<open>NETIF_NAMESIZE\<close>
  bytes or more for the index of an interface on the list stays inside the buffer, and \<open>netif_find\<close> and
  \<open>netif_name_to_index\<close> take it back to that interface. \<open>netif_find\<close> keeps 8 bits of the number in a name only: a name
  with a number that is too large by a multiple of 256 is taken for the same interface, unless the number of that is 0.
\<close>

theorem netif_name_roundtrip:
  assumes "netifs_ok s" and "a \<in> set (netif_list s)" and "NETIF_NAMESIZE \<le> length buf"
    and "k mod 256 = unat (nif_num (nif_of s a))" and "k < 2 ^ 31"
  shows "(\<exists>nm. netif_index_to_name s (netif_get_index (nif_of s a)) buf = ret (Some nm) \<and> length nm = length buf \<and>
      netif_find s (Some nm) = ret (Some a) \<and> netif_name_to_index s (Some nm) = ret (netif_get_index (nif_of s a))) \<and>
    netif_find s (Some ([fst (nif_name (nif_of s a)), snd (nif_name (nif_of s a))] @ dec_string (int k) @ [0])) =
      ret (if k = 0 \<or> nif_num (nif_of s a) \<noteq> 0 then Some a else None)"
proof -
  let ?n = "nif_of s a"
  obtain rest where rest: "netif_index_to_name s (netif_get_index ?n) buf =
      ret (Some ([fst (nif_name ?n), snd (nif_name ?n)] @ dec_string (int (unat (nif_num ?n))) @ 0 # rest))"
    "length (dec_string (int (unat (nif_num ?n))) @ 0 # rest) + 2 = length buf"
    using index_to_name_run [OF assms(1-3)] by (elim exE conjE)
  have "unat (nif_num ?n) mod 256 = unat (nif_num ?n)" by simp
  note find = netif_find_run [OF assms(1,2) this, of rest]
  have own: "(unat (nif_num ?n) = 0 \<or> nif_num ?n \<noteq> 0) = True" by (auto simp: unat_eq_0)
  obtain n where "netifs s a = Some n" using assms(1,2) by (auto simp: netifs_ok_def)
  then have "netif_name_to_index s (Some ([fst (nif_name ?n), snd (nif_name ?n)] @ dec_string (int (unat (nif_num ?n))) @ 0 # rest)) =
      ret (netif_get_index ?n)"
    unfolding netif_name_to_index_def find own by simp
  with rest find [unfolded own if_True] show ?thesis unfolding netif_find_run [OF assms(1,2,4), of "[]"] by auto
qed

text \<open>An example: 255 interfaces at the addresses 0 to 254, and an interface at 255 that is not on the list.\<close>

definition ex_full :: "wire lwip" where
  "ex_full = ex_lwip\<lparr>netifs := (\<lambda>a. if a < 256 then Some (ex_netif\<lparr>nif_num := of_nat a\<rparr>) else None), netif_list := [0..<255]\<rparr>"

definition ex_two :: "wire lwip" where
  "ex_two = ex_full\<lparr>netif_list := [1, 7]\<rparr>"

lemma ex_full_ok: "netifs_ok ex_full"
proof -
  have "of_nat a \<noteq> (255 :: u8)" if "a < 255" for a
    using that by (simp only: word_unat_eq_iff) (simp add: unsigned_of_nat take_bit_nat_eq_self)
  moreover have "a = b" if "of_nat a = (of_nat b :: u8)" "a < 255" "b < 255" for a b
    using arg_cong [OF that(1), of unat] that(2,3) by (simp add: unsigned_of_nat take_bit_nat_eq_self)
  ultimately show ?thesis by (auto simp: netifs_ok_def ex_full_def inj_on_def)
qed

lemma ex_two_ok: "netifs_ok ex_two"
  by (simp add: netifs_ok_def ex_two_def ex_full_def)

lemma ex_add_env_ok: "add_env_ok ex_lenv 1 a ERR_OK"
  by (auto simp: add_env_ok_def ex_lenv_def)

theorem netif_add_terminates_witness:
  "netif_add ex_lenv ex_full (Some 255) None None None 0 (Some 1) 1 = None \<and>
   (\<exists>s'. netif_add ex_lenv ex_two (Some 255) (Some 0x0301A8C0) None None 0 (Some 1) 1 = ret (s', Some 255) \<and>
     netif_list s' = [255, 1, 7] \<and> netifs_ok s')"
proof
  have 1: "netifs ex_full 255 \<noteq> None" "255 \<notin> set (netif_list ex_full)" "\<not> length (netif_list ex_full) < 255"
    by (simp_all add: ex_full_def)
  show "netif_add ex_lenv ex_full (Some 255) None None None 0 (Some 1) 1 = None"
    using netif_add_terminates [OF ex_full_ok 1(1,2) ex_add_env_ok] 1(3) by simp
  have 2: "netifs ex_two 255 \<noteq> None" "255 \<notin> set (netif_list ex_two)" "netif_list ex_two = [1, 7]"
    by (simp_all add: ex_two_def ex_full_def)
  show "\<exists>s'. netif_add ex_lenv ex_two (Some 255) (Some 0x0301A8C0) None None 0 (Some 1) 1 = ret (s', Some 255) \<and>
     netif_list s' = [255, 1, 7] \<and> netifs_ok s'"
    using netif_add_terminates [OF ex_two_ok 2(1,2) ex_add_env_ok, where ip = "Some 0x0301A8C0" and m = None and g = None
      and st = 0 and inp = 1] by (auto simp: 2(3))
qed

theorem netif_name_roundtrip_witness:
  "(\<exists>nm. netif_index_to_name ex_two 8 [9, 9, 9, 9, 9, 9] = ret (Some nm) \<and> netif_find ex_two (Some nm) = ret (Some 7)) \<and>
   netif_find ex_two (Some [101, 110, 50, 54, 51, 0]) = ret (Some 7)"
proof -
  have n: "nif_of ex_two 7 = ex_netif\<lparr>nif_num := 7\<rparr>" "netif_list ex_two = [1, 7]"
    by (simp_all add: ex_two_def ex_full_def)
  have d: "dec_string (int 263) = [50, 54, 51]"
    by (simp add: dec_string_def digits0.simps)
  show ?thesis
    using netif_name_roundtrip [OF ex_two_ok, of 7 "[9, 9, 9, 9, 9, 9]" 263]
    unfolding d by (auto simp: n netif_get_index_def ex_netif_def)
qed

end
