(* ===== verification/Spec2Isabelle.thy ===== *)
theory Spec2Isabelle
  imports Lwip_Def Pbuf_Props Inet_Chksum_Props Ip4_Addr Timeouts Acd_Props Ip_Send Netif_Props
begin

text \<open>
  \<^bold>\<open>The network stack of the CoreX kernel.\<close> The kernel embeds the lwIP TCP/IP stack
  (\<open>src/src/kernel/networking/lwip\<close>, written in C). This development models it
  from memory pools and packet buffers through Ethernet, address resolution and IPv4 up to ICMP, raw and UDP
  sockets at the level of PCBs, with the interfaces and the timers, in the configuration of
  \<open>include/lwipopts.h\<close> (IPv4 only, \<open>MEM_LIBC_MALLOC\<close>, \<open>LWIP_DEBUG\<close> defined so that assertions
  are compiled in, defaults of \<open>opt.h\<close> otherwise).

  \<^bold>\<open>How the parts interact.\<close> Packets live in packet buffers (\<open>pbuf.c\<close>), chains of structures
  that come from the pools of \<open>memp.c\<close> or from the kernel's heap (\<open>mem.c\<close>). Checksums
  (\<open>inet_chksum.c\<close>) run over chains. A UDP datagram (\<open>udp.c\<close>) gets its header and checksum and is routed and
  given an IPv4 header (\<open>ip4.c\<close>), is fragmented if it is too long (\<open>ip4_frag.c\<close>), and goes to \<open>etharp_output\<close>
  (\<open>etharp.c\<close>), which finds the hardware address in the ARP table, queueing the packet and
  sending a request when it is unknown, and hands the packet to \<open>ethernet_output\<close>
  (\<open>ethernet.c\<close>) and so to the driver. Incoming frames come through \<open>ethernet_input\<close>; ARP
  packets go to \<open>etharp_input\<close>, which informs conflict detection (\<open>acd.c\<close>) and updates the
  table, IPv4 packets to \<open>ip4_input\<close>, which reassembles fragments and passes on to \<open>raw.c\<close>, \<open>udp.c\<close>, \<open>icmp.c\<close> and TCP.
  The interfaces are managed in \<open>netif.c\<close>. The timers of all these (\<open>timeouts.c\<close>) are kept in a list sorted by due time.

  \<^bold>\<open>Outcomes.\<close> A modelled function returns \<open>ret x\<close>, stops in a \<open>fault\<close> (a failed
  \<open>LWIP_ASSERT\<close>, a use of \<open>NULL\<close> or of a freed object, an access outside an object), or is
  \<open>None\<close> when it does not return (theory \<open>Lwip_Prelude\<close>). Machine integers are words of their
  width. Loops over pointers are partial functions without a bound, so no fuel is involved; the theorems
  that such a function returns are proved from the shape of the structure (\<open>chain\<close>).

  \<^bold>\<open>Theories and what their lemmas show.\<close>

  \<^item> \<open>Lwip_Def\<close> models \<open>core/def.c\<close>: byte order and string helpers, each equal to a reference
    definition; \<open>lwip_itoa\<close> stays in its buffer. The least number of type \<open>int\<close>, whose negation is undefined in C, is a
    fault. A buffer is a list of bytes and \<open>n\<close> in \<open>lwip_strnstr\<close> a natural number: the sum of an index and a length that
    the code compares with it is at most the size of an object and does not wrap around.
  \<^item> \<open>Lwip_Mem\<close>: byte-addressed memory and little-endian loads and stores.
  \<^item> \<open>Memp\<close> models \<open>core/memp.c\<close>. The locale \<open>pool_alloc\<close> is the interface of a pool; interpreted
    on the code's functions it gives that no element is handed out twice. The free list is a list of addresses: the code
    keeps its links in the free elements, which belong to the pool and which nobody else accesses. Every pool of
    \<open>memp_std.h\<close> has elements of at least the eight bytes a link takes.
  \<^item> \<open>Pbuf\<close> models \<open>core/pbuf.c\<close> and the part of \<open>core/mem.c\<close> it uses. \<open>Pbuf_Chain\<close>,
    \<open>Pbuf_Alloc\<close>, \<open>Pbuf_Data\<close> and \<open>Pbuf_Copy\<close> relate every operation to the list of
    addresses of a chain (\<open>chain\<close>, \<open>tot_ok\<close>) and to its payload (\<open>data\<close>);
    \<open>Pbuf_Props\<close> has the properties.
  \<^item> \<open>Inet_Chksum\<close> models \<open>core/inet_chksum.c\<close>; the locale \<open>internet_chksum\<close> is what the
    functions over chains need of a summing routine and is interpreted on all three routines, so the
    properties in \<open>Inet_Chksum_Props\<close> (agreement with RFC 1071, verification of a packet that
    carries its checksum, the pseudo header) hold for each.
  \<^item> \<open>Netif_Types\<close> is \<open>struct netif\<close>; \<open>Ip4_Addr\<close> models \<open>core/ipv4/ip4_addr.c\<close>: address
    tests, and the round trip of addresses through text.
  \<^item> \<open>Serial\<close>: comparison of serial numbers, once for the clock and for TCP sequence numbers (locale
    \<open>serial_order\<close>); \<open>Timeouts\<close> models \<open>core/timeouts.c\<close>: the list stays sorted across the
    wrap-around of the clock, \<open>sys_check_timeouts\<close> returns for handlers that leave the list alone and
    return within half the range of the clock (\<open>cyclic_handlers_ok\<close>).
  \<^item> \<open>Lwip_State\<close> is the state shared by the layers above; its fields are the globals of
    the modelled files, and \<open>lenv\<close> collects the functions called through pointers.
  \<^item> \<open>Etharp\<close> models \<open>core/ipv4/etharp.c\<close> and \<open>ethernet_output\<close>. \<open>Etharp_Send\<close>
    derives what is put on the wire, \<open>Etharp_Table\<close> the effect on the table; the properties in
    \<open>Etharp_Props\<close> include that the table refines a map and that a queued packet is
    delivered.
  \<^item> \<open>Acd\<close> models \<open>core/ipv4/acd.c\<close>; \<open>Acd_Props\<close> shows that without a conflict the detection reports success
    within 87 ticks, after three probes and two announcements.
  \<^item> \<open>Ip_Types\<close>: PCBs and \<open>ip_globals\<close>. \<open>Ip4_Out\<close> models routing, output and fragmentation, \<open>Ip4_Reass\<close> reassembly
    and \<open>Ip4_In\<close> input of IPv4 packets (\<open>ip4.c\<close>, \<open>ip4_frag.c\<close>), \<open>Icmp\<close>, \<open>Raw\<close> and \<open>Udp\<close> the files of these names,
    and \<open>Ethernet\<close> \<open>etharp_input\<close> and \<open>ethernet_input\<close>, which starts the way up.
  \<^item> \<open>Udp_Props\<close>: the invariant of the PCB list under every call, and the choice of ports; \<open>Udp_Input\<close>: the
    PCB that receives a datagram, against a declarative choice (\<open>demux\<close>); \<open>Ip_Send\<close>: the header of every IPv4 packet,
    and the frame in which a UDP datagram reaches the driver.
  \<^item> \<open>Netif_Find\<close> and \<open>Netif\<close> model \<open>core/netif.c\<close>; \<open>Netif_Props\<close> has the numbers and the names of interfaces, and
    that the search for a number does not end when all 255 are taken.

  ICMP, raw PCBs, reassembly and \<open>ip4_input\<close> are modelled as the code has them, but have no properties
  of their own yet.

  \<^bold>\<open>What is relied on.\<close> Code outside the modelled files is a parameter: the kernel's \<open>malloc\<close>
  (\<open>malloc_fresh\<close>: a block it returns overlaps nothing in use), the driver behind
  \<open>netif->linkoutput\<close> (\<open>driver_ok\<close>: it outputs the packet and changes nothing else) and its initialisation
  (\<open>add_env_ok\<close>), \<open>rand\<close>, the clock, timeout handlers, receive callbacks and TCP. \<open>chain\<close>, \<open>tot_ok\<close>, \<open>readable\<close>,
  \<open>releasable\<close> and \<open>header_room\<close> say that a packet is well-formed and lies in memory of its own.

  \<^bold>\<open>Not modelled.\<close> The rest of the stack: TCP (only its comparison of sequence numbers is), which is a parameter of
  \<open>ip4_input\<close> and of the interfaces, DNS and DHCP, the sequential API and sockets, which depend on the threads of the
  kernel, and the applications; \<open>pbuf_free_ooseq\<close>, which walks the connections of TCP; \<open>altcp\<close>, IPv6, IGMP, AUTOIP, PPP,
  6LoWPAN and the bridge, which the configuration does not compile or use; the allocator in
  \<open>memory/malloc.c\<close>, which is reached through \<open>malloc\<close> only; and the Rust parts of the
  kernel (drivers, file systems, multitasking, system calls), whose language and hardware accesses are
  outside the scope of this C model. Debug output and the printing of statistics have no effect on the state.
\<close>

end
